(* ===== verification/Prelude.thy ===== *)
theory Prelude
  imports Main "HOL-Library.Word" "HOL-Library.Char_ord" "HOL-Library.List_Lexorder"
    "HOL-Library.AList" "HOL-Library.Multiset"
begin

unbundle bit_operations_syntax

text \<open>
  What every component of the development shares: the types of Go values the sources use
  (unsigned words, strings, errors), the outcome of a Go call, sequencing of calls that return
  \<open>(value, error)\<close>, and the parts of Go's standard library the sources call
  (\<open>errors.Is\<close>, \<open>fmt\<close>'s decimal verb, \<open>hash/fnv\<close>, \<open>sort.Strings\<close>, maps), each with the
  lemmas the components use.
\<close>

section \<open>Collections of facts\<close>

named_theorems res_simps \<open>how a sequence of fallible calls computes\<close>
named_theorems go_eval \<open>definitions to unfold when a closed term is evaluated\<close>

section \<open>Types\<close>

type_synonym byte = "8 word"
type_synonym u32 = "32 word"
type_synonym u64 = "64 word"
type_synonym bytes = "byte list"

text \<open>
  Errors. The sentinel errors of the sources and of the libraries they compare against are
  constructors; \<open>Wrapped\<close> is an error that wraps another one (what \<open>errors.Is\<close> looks
  through); \<open>Errorf\<close> is an error made from a text; \<open>External n\<close> is any other error a
  library returns.
\<close>

datatype go_error =
    ErrNoTableMapping
  | ErrLogNotReadyToPublish
  | ErrEndOfWatch
  | ErrNotInitialized
  | ErrWrongPool
  | ErrPendingSnapshot
  | ErrInvalidStorageType
  | ErrNoSnapshotFound
  | ErrRequiredParameterMissing
  | ContextCanceled
  | NatsErrTimeout
  | NatsErrStreamNotFound
  | NatsErrKeyNotFound
  | NatsErrBucketNotFound
  | NatsErrObjectNotFound
  | Wrapped string go_error
  | Errorf string
  | External nat

text \<open>
  The outcome of a call: a value, an error, a panic, or a call that blocks for ever (a channel
  operation nobody completes).
\<close>

datatype 'a res = Ok 'a | Err go_error | Panic string | Block

type_synonym ('s, 'a) prog = "'s \<Rightarrow> 'a res \<times> 's"

section \<open>Sequencing\<close>

text \<open>
  \<open>ret\<close> returns, \<open>bindR f k\<close> is \<open>x, err := f(); if err != nil { return err }; k(x)\<close>: an
  error, a panic or a block of the first call is the outcome of the whole.
\<close>

definition ret :: "'a \<Rightarrow> ('s, 'a) prog" where
  "ret a s = (Ok a, s)"

definition bindR :: "('s, 'a) prog \<Rightarrow> ('a \<Rightarrow> ('s, 'b) prog) \<Rightarrow> ('s, 'b) prog" where
  "bindR f k s =
     (case f s of
        (Ok a, s') \<Rightarrow> k a s'
      | (Err e, s') \<Rightarrow> (Err e, s')
      | (Panic p, s') \<Rightarrow> (Panic p, s')
      | (Block, s') \<Rightarrow> (Block, s'))"

text \<open>A call that does not touch the state.\<close>

definition lift_res :: "'a res \<Rightarrow> ('s, 'a) prog" where
  "lift_res r s = (r, s)"

text \<open>The same on outcomes that carry no state.\<close>

definition bindE :: "'a res \<Rightarrow> ('a \<Rightarrow> 'b res) \<Rightarrow> 'b res" where
  "bindE r k = (case r of Ok a \<Rightarrow> k a | Err e \<Rightarrow> Err e | Panic p \<Rightarrow> Panic p | Block \<Rightarrow> Block)"

definition is_ok :: "'a res \<Rightarrow> bool" where
  "is_ok r = (case r of Ok _ \<Rightarrow> True | _ \<Rightarrow> False)"

text \<open>An outcome that is neither a panic nor a block: the call returned.\<close>

definition returns :: "'a res \<Rightarrow> bool" where
  "returns r = (case r of Ok _ \<Rightarrow> True | Err _ \<Rightarrow> True | _ \<Rightarrow> False)"

section \<open>The standard library\<close>

text \<open>\<open>errors.Is\<close>: the error itself or one it wraps.\<close>

fun errors_Is :: "go_error \<Rightarrow> go_error \<Rightarrow> bool" where
  "errors_Is (Wrapped m e) t = (Wrapped m e = t \<or> errors_Is e t)"
| "errors_Is e t = (e = t)"

text \<open>\<open>strconv\<close> and \<open>fmt\<close>'s decimal verb on unsigned integers.\<close>

fun show_nat :: "nat \<Rightarrow> string" where
  "show_nat n = (if n < 10 then [char_of (48 + n)]
                 else show_nat (n div 10) @ [char_of (48 + n mod 10)])"

declare show_nat.simps [simp del]

definition fmt_u64 :: "u64 \<Rightarrow> string" where
  "fmt_u64 w = show_nat (unat w)"

text \<open>The bytes of a string.\<close>

definition bytes_of :: "string \<Rightarrow> bytes" where
  "bytes_of s = map of_char s"

text \<open>\<open>hash/fnv\<close>: \<open>New64\<close> is 64-bit FNV-1, which multiplies before it adds the byte.\<close>

definition fnv_offset64 :: u64 where
  "fnv_offset64 = 14695981039346656037"

definition fnv_prime64 :: u64 where
  "fnv_prime64 = 1099511628211"

definition fnv_step :: "u64 \<Rightarrow> byte \<Rightarrow> u64" where
  "fnv_step h b = (h * fnv_prime64) XOR ucast b"

definition fnv64 :: "bytes \<Rightarrow> u64" where
  "fnv64 bs = foldl fnv_step fnv_offset64 bs"

text \<open>\<open>strings.HasPrefix\<close> and \<open>strings.TrimSpace\<close> (ASCII white space).\<close>

fun has_prefix :: "string \<Rightarrow> string \<Rightarrow> bool" where
  "has_prefix s [] = True"
| "has_prefix [] (c # cs) = False"
| "has_prefix (d # s) (c # cs) = (c = d \<and> has_prefix s cs)"

definition is_space :: "char \<Rightarrow> bool" where
  "is_space c = (of_char c \<in> {9, 10, 11, 12, 13, 32 :: nat})"

definition trim_space :: "string \<Rightarrow> string" where
  "trim_space s = rev (dropWhile is_space (rev (dropWhile is_space s)))"

section \<open>Lemmas on outcomes and sequencing\<close>

lemma bindR_ret [simp]: "bindR (ret a) k = k a"
  by (rule ext) (simp add: bindR_def ret_def)

lemma ret_apply [res_simps]: "ret a s = (Ok a, s)"
  by (simp add: ret_def)

lemma bindR_outcome [res_simps]:
  "f s = (Ok a, s') \<Longrightarrow> bindR f k s = k a s'"
  "f s = (Err e, s') \<Longrightarrow> bindR f k s = (Err e, s')"
  "f s = (Panic p, s') \<Longrightarrow> bindR f k s = (Panic p, s')"
  "f s = (Block, s') \<Longrightarrow> bindR f k s = (Block, s')"
  by (simp_all add: bindR_def)

lemma lift_res_apply [res_simps]: "lift_res r s = (r, s)"
  by (simp add: lift_res_def)

lemma bindR_assoc: "bindR (bindR f g) h = bindR f (\<lambda>x. bindR (g x) h)"
  by (rule ext) (simp add: bindR_def split: prod.splits res.splits)

lemma bindR_OkE:
  assumes "bindR f k s = (Ok b, t)"
  obtains a s' where "f s = (Ok a, s')" and "k a s' = (Ok b, t)"
  using assms by (auto simp: bindR_def split: prod.splits res.splits)

lemma bindE_simps [res_simps]:
  "bindE (Ok a) k = k a" "bindE (Err e) k = Err e"
  "bindE (Panic p) k = Panic p" "bindE Block k = Block"
  by (simp_all add: bindE_def)

lemma bindE_Ok_iff: "bindE r k = Ok b \<longleftrightarrow> (\<exists>a. r = Ok a \<and> k a = Ok b)"
  by (simp add: bindE_def split: res.splits)

lemma is_ok_simps [simp]:
  "is_ok (Ok a)" "\<not> is_ok (Err e)" "\<not> is_ok (Panic p)" "\<not> is_ok Block"
  by (simp_all add: is_ok_def)

lemma is_ok_iff: "is_ok r \<longleftrightarrow> (\<exists>a. r = Ok a)"
  by (cases r) simp_all

lemma returns_simps [simp]:
  "returns (Ok a)" "returns (Err e)" "\<not> returns (Panic p)" "\<not> returns Block"
  by (simp_all add: returns_def)

lemma returnsE:
  assumes "returns r"
  obtains a where "r = Ok a" | e where "r = Err e"
  using assms by (cases r) auto

lemma bindE_returns:
  "returns r \<Longrightarrow> (\<And>a. r = Ok a \<Longrightarrow> returns (k a)) \<Longrightarrow> returns (bindE r k)"
  by (cases r) (simp_all add: bindE_def)

text \<open>A sequence returns when its first call does and every continuation does.\<close>

lemma bindR_returns:
  assumes "returns (fst (f s))"
    and "\<And>a s'. f s = (Ok a, s') \<Longrightarrow> returns (fst (k a s'))"
  shows "returns (fst (bindR f k s))"
  using assms by (auto simp: bindR_def split: prod.splits res.splits)

text \<open>A sequence keeps a property of the state that both halves keep.\<close>

lemma bindR_keeps:
  assumes "P (snd (f s))"
    and "\<And>a s'. f s = (Ok a, s') \<Longrightarrow> P s' \<Longrightarrow> P (snd (k a s'))"
  shows "P (snd (bindR f k s))"
  using assms by (auto simp: bindR_def split: prod.splits res.splits)

lemma errors_Is_refl [simp]: "errors_Is e e"
  by (cases e) simp_all

section \<open>Lemmas on decimal numerals\<close>

text \<open>Reading a numeral back: the inverse that shows the decimal verb injective.\<close>

definition read_nat :: "string \<Rightarrow> nat" where
  "read_nat s = foldl (\<lambda>a c. 10 * a + (of_char c - 48)) 0 s"

lemma of_char_digit: "d < 10 \<Longrightarrow> (of_char (char_of (48 + d :: nat)) :: nat) = 48 + d"
  by (simp add: of_char_of)

lemma read_nat_snoc: "read_nat (s @ [c]) = 10 * read_nat s + (of_char c - 48)"
  by (simp add: read_nat_def)

lemma read_show_nat [simp]: "read_nat (show_nat n) = n"
proof (induction n rule: show_nat.induct)
  case (1 n)
  show ?case
  proof (cases "n < 10")
    case True
    then show ?thesis by (simp add: show_nat.simps [of n] read_nat_def of_char_digit)
  next
    case False
    then have "read_nat (show_nat n) = 10 * read_nat (show_nat (n div 10)) + n mod 10"
      by (simp add: show_nat.simps [of n] read_nat_snoc of_char_digit)
    with False "1.IH" show ?thesis by simp
  qed
qed

lemma show_nat_inject [simp]: "show_nat m = show_nat n \<longleftrightarrow> m = n"
  by (metis read_show_nat)

lemma fmt_u64_inject [simp]: "fmt_u64 a = fmt_u64 b \<longleftrightarrow> a = b"
  by (simp add: fmt_u64_def word_unat_eq_iff)

lemma show_nat_digits: "c \<in> set (show_nat n) \<Longrightarrow> 48 \<le> (of_char c :: nat) \<and> (of_char c :: nat) < 58"
proof (induction n rule: show_nat.induct)
  case (1 n)
  have d: "48 \<le> (of_char (char_of (48 + k)) :: nat) \<and> (of_char (char_of (48 + k)) :: nat) < 58" if "k < 10" for k :: nat
    using that by (simp add: of_char_digit)
  show ?case
    using 1 d [of n] d [of "n mod 10"] by (auto simp: show_nat.simps [of n] split: if_splits)
qed

lemma show_nat_not_Nil [simp]: "show_nat n \<noteq> []"
  by (simp add: show_nat.simps [of n])

lemma show_nat_0 [simp]: "show_nat 0 = ''0''"
  by code_simp

section \<open>Lemmas on lists and maps\<close>

lemma word_gt_0_le: "a < b \<Longrightarrow> 0 < (b :: 'a::len word)"
  by (simp add: word_less_nat_alt)

lemma has_prefix_append [simp]: "has_prefix (p @ s) p"
  by (induction p) auto

lemma has_prefix_iff: "has_prefix s p \<longleftrightarrow> (\<exists>t. s = p @ t)"
  by (induction s p rule: has_prefix.induct) auto

lemma map_of_filter_key: "P k \<Longrightarrow> map_of (filter (\<lambda>(a, b). P a) xs) k = map_of xs k"
  by (induction xs) auto

lemma filter_filter_eq: "(\<And>x. x \<in> set xs \<Longrightarrow> P x \<Longrightarrow> Q x) \<Longrightarrow> filter P (filter Q xs) = filter P xs"
  by (induction xs) auto

text \<open>Sorting strings is canonical: it only depends on the multiset of its input.\<close>

lemma sort_perm_eq: "mset xs = mset ys \<Longrightarrow> sort xs = sort (ys :: 'a::linorder list)"
  by (metis properties_for_sort mset_sort sorted_sort)

end
