(* ===== verification/Values.thy ===== *)
theory Values
  imports Prelude
begin

text \<open>
  The values that cross the database boundary. \<open>dval\<close> is \<open>driver.Value\<close> of Go's
  \<open>database/sql\<close>: what a cell holds and what a scan into \<open>any\<close> yields. \<open>goval\<close> is the
  \<open>any\<close> of \<open>ChangeLogEvent.Row\<close>: a driver value, or one of the Go values the pipeline puts
  there (an unsigned integer from a CBOR decoder, a \<open>*time.Time\<close>, a \<open>sensitiveTypeWrapper\<close>).
  \<open>to_driver\<close> is the default parameter converter of \<open>database/sql\<close>.
\<close>

text \<open>\<open>DFloat\<close> keeps the bits of a float64; \<open>DTime\<close> is an instant in nanoseconds.\<close>

datatype dval =
    DNull
  | DInt int
  | DFloat u64
  | DBool bool
  | DBytes bytes
  | DText string
  | DTime int

text \<open>\<open>sensitiveTypeWrapper\<close> of \<open>db/change_log_event.go\<close>: a pointer to a time, maybe nil.\<close>

record sensitiveTypeWrapper =
  stw_Time :: "int option"

datatype goval =
    GVal dval
  | GUint u64
  | GTimePtr "int option"
  | GWrapped sensitiveTypeWrapper

text \<open>\<open>ColumnInfo\<close> of \<open>db/sqlite.go\<close>.\<close>

record ColumnInfo =
  ci_Name :: string
  ci_Type :: string
  ci_NotNull :: bool
  ci_DefaultValue :: dval
  ci_PrimaryKeyIndex :: int
  ci_IsPrimaryKey :: bool

text \<open>A row is a Go map; the list order is the order a \<open>range\<close> over it happens to take.\<close>

type_synonym gorow = "(string \<times> goval) list"
type_synonym drow = "(string \<times> dval) list"

definition int64_range :: "int \<Rightarrow> bool" where
  "int64_range i \<longleftrightarrow> - (2 ^ 63) \<le> i \<and> i < 2 ^ 63"

text \<open>
  \<open>driver.DefaultParameterConverter\<close>: pointers are dereferenced, an unsigned integer with the
  high bit set and a struct are refused.
\<close>

fun to_driver :: "goval \<Rightarrow> dval res" where
  "to_driver (GVal d) = Ok d"
| "to_driver (GUint u) =
     (if unat u < 2 ^ 63 then Ok (DInt (uint u))
      else Err (Errorf ''uint64 values with high bit set are not supported''))"
| "to_driver (GTimePtr None) = Ok DNull"
| "to_driver (GTimePtr (Some t)) = Ok (DTime t)"
| "to_driver (GWrapped w) = Err (Errorf ''unsupported type'')"

text \<open>Reading a missing key of a Go map of \<open>any\<close> gives nil; of a database row, \<open>NULL\<close>.\<close>

definition row_get :: "gorow \<Rightarrow> string \<Rightarrow> goval" where
  "row_get r k = (case map_of r k of None \<Rightarrow> GVal DNull | Some v \<Rightarrow> v)"

definition cell :: "drow \<Rightarrow> string \<Rightarrow> dval" where
  "cell r c = (case map_of r c of None \<Rightarrow> DNull | Some v \<Rightarrow> v)"

text \<open>Converting the arguments of a statement stops at the first one refused.\<close>

fun to_drivers :: "goval list \<Rightarrow> dval list res" where
  "to_drivers [] = Ok []"
| "to_drivers (v # vs) = bindE (to_driver v) (\<lambda>d. bindE (to_drivers vs) (\<lambda>ds. Ok (d # ds)))"

section \<open>Lemmas\<close>

lemma to_driver_uint_of_int:
  assumes "0 \<le> i" and "int64_range i"
  shows "to_driver (GUint (word_of_int i)) = Ok (DInt i)"
proof -
  have lt: "i < 2 ^ 64" using assms by (simp add: int64_range_def)
  then have u: "uint (word_of_int i :: u64) = i"
    using assms(1) by (simp add: uint_word_of_int take_bit_eq_mod)
  then have "unat (word_of_int i :: u64) = nat i"
    by (simp add: unat_eq_nat_uint)
  moreover have "nat i < 2 ^ 63"
    using assms by (simp add: int64_range_def)
  ultimately have "unat (word_of_int i :: u64) < 2 ^ 63"
    by simp
  with u show ?thesis by simp
qed

lemma to_driver_not_abnormal [simp]: "to_driver v \<noteq> Panic p" "to_driver v \<noteq> Block"
  by (cases v rule: to_driver.cases; simp)+

lemma to_drivers_Ok_iff: "to_drivers vs = Ok ds \<longleftrightarrow> list_all2 (\<lambda>v d. to_driver v = Ok d) vs ds"
  by (induction vs arbitrary: ds) (auto simp: bindE_Ok_iff list_all2_Cons1)

lemma to_drivers_returns [simp]: "to_drivers vs \<noteq> Panic p" "to_drivers vs \<noteq> Block"
  by (induction vs) (auto simp: bindE_def split: res.splits)

lemma to_drivers_GVal [simp]: "to_drivers (map GVal ds) = Ok ds"
  by (induction ds) (auto simp: res_simps)

lemma cell_Cons [simp]: "cell ((a, v) # r) c = (if c = a then v else cell r c)"
  by (simp add: cell_def)

lemma cell_Nil [simp]: "cell [] c = DNull"
  by (simp add: cell_def)

lemma cell_map_cols: "c \<in> set cs \<Longrightarrow> cell (map (\<lambda>c. (c, f c)) cs) c = f c"
  by (simp add: cell_def map_of_map_restrict)

lemma cell_map_cols_notin: "c \<notin> set cs \<Longrightarrow> cell (map (\<lambda>c. (c, f c)) cs) c = DNull"
  by (simp add: cell_def map_of_map_restrict)

end
