(* ===== verification/ReplicationEvent.thy ===== *)
theory ReplicationEvent
  imports Prelude
begin

text \<open>
  \<open>core/events.go\<close> and \<open>logstream/replication_event.go\<close>: the envelope a change travels in.
  The Go code is generic in the payload type \<open>T\<close>, constrained by the interface
  \<open>core.ReplicableEvent[T]\<close> (\<open>Wrap\<close> and \<open>Unwrap\<close>); here the definitions take the two methods
  as arguments and the locale \<open>replicable_event\<close> is the interface's contract. The CBOR codec is
  a library, so the calls into it are arguments too.
\<close>

record 'e ReplicationEvent =
  FromNodeId :: u64
  Payload :: 'e

text \<open>\<open>Marshal\<close>: wrap the payload, build the encoder, encode.\<close>

definition Marshal ::
  "('e \<Rightarrow> 'e res) \<Rightarrow> unit res \<Rightarrow> ('e ReplicationEvent \<Rightarrow> bytes res) \<Rightarrow> 'e ReplicationEvent \<Rightarrow> bytes res"
where
  "Marshal wrap encMode enc e =
     bindE (wrap (Payload e)) (\<lambda>wrappedPayload.
     bindE encMode (\<lambda>_.
       enc \<lparr>FromNodeId = FromNodeId e, Payload = wrappedPayload\<rparr>))"

text \<open>
  \<open>Unmarshal\<close> writes into its receiver. Note the first branch: when the decoder cannot be
  built the method returns nil, and the receiver keeps what it held.
\<close>

definition Unmarshal ::
  "('e \<Rightarrow> 'e res) \<Rightarrow> unit res \<Rightarrow> (bytes \<Rightarrow> 'e ReplicationEvent res) \<Rightarrow> bytes
   \<Rightarrow> ('e ReplicationEvent, unit) prog"
where
  "Unmarshal unwrap decMode dec data e =
     (case decMode of
        Err _ \<Rightarrow> (Ok (), e)
      | Panic p \<Rightarrow> (Panic p, e)
      | Block \<Rightarrow> (Block, e)
      | Ok _ \<Rightarrow>
         (case dec data of
            Err x \<Rightarrow> (Err x, e)
          | Panic p \<Rightarrow> (Panic p, e)
          | Block \<Rightarrow> (Block, e)
          | Ok e' \<Rightarrow>
             (case unwrap (Payload e') of
                Err x \<Rightarrow> (Err x, e')
              | Panic p \<Rightarrow> (Panic p, e')
              | Block \<Rightarrow> (Block, e')
              | Ok u \<Rightarrow> (Ok (), e'\<lparr>Payload := u\<rparr>))))"

text \<open>
  What the pipeline relies on of the codec, for the payloads in \<open>P\<close>: decoding what was encoded
  gives the same sender and a payload that differs at most in the way \<open>wire\<close> allows. (RFC 8949
  keeps the data; decoding into Go's \<open>any\<close> may choose another Go type for the same number; a
  text that is not UTF-8 is refused by the decoder, so it is outside \<open>P\<close>.)
\<close>

definition codec_ok ::
  "('e \<Rightarrow> bool) \<Rightarrow> ('e \<Rightarrow> 'e \<Rightarrow> bool)
   \<Rightarrow> ('e ReplicationEvent \<Rightarrow> bytes res) \<Rightarrow> (bytes \<Rightarrow> 'e ReplicationEvent res) \<Rightarrow> bool"
where
  "codec_ok P wire enc dec \<longleftrightarrow>
     (\<forall>x b. P (Payload x) \<longrightarrow> enc x = Ok b \<longrightarrow>
        (\<exists>y. dec b = Ok y \<and> FromNodeId y = FromNodeId x \<and> wire (Payload x) (Payload y)))"

lemma codec_okD:
  assumes "codec_ok P wire enc dec" and "P (Payload x)" and "enc x = Ok b"
  obtains y where "dec b = Ok y" and "FromNodeId y = FromNodeId x" and "wire (Payload x) (Payload y)"
  using assms unfolding codec_ok_def by blast

section \<open>The contract of a replicable event\<close>

text \<open>
  \<open>plain\<close> are the payloads a producer hands over, \<open>wire\<close> is what the codec may do to a wrapped
  payload, \<open>same\<close> is what "the same event" means to the consumer.
\<close>

locale replicable_event =
  fixes Wrap :: "'e \<Rightarrow> 'e res"
    and Unwrap :: "'e \<Rightarrow> 'e res"
    and plain :: "'e \<Rightarrow> bool"
    and wire :: "'e \<Rightarrow> 'e \<Rightarrow> bool"
    and same :: "'e \<Rightarrow> 'e \<Rightarrow> bool"
  assumes wrap_total: "\<exists>w. Wrap e = Ok w"
    and unwrap_same: "plain e \<Longrightarrow> Wrap e = Ok w \<Longrightarrow> wire w w' \<Longrightarrow> \<exists>u. Unwrap w' = Ok u \<and> same e u"
begin

lemma marshal_ok_iff:
  "Marshal Wrap (Ok ()) enc e = Ok b \<longleftrightarrow>
     (\<exists>w. Wrap (Payload e) = Ok w \<and> enc \<lparr>FromNodeId = FromNodeId e, Payload = w\<rparr> = Ok b)"
  by (auto simp: Marshal_def bindE_Ok_iff)

lemma unmarshal_marshal:
  assumes codec: "codec_ok P wire enc dec"
    and plain: "plain (Payload e)"
    and inP: "\<And>w. Wrap (Payload e) = Ok w \<Longrightarrow> P w"
    and marshalled: "Marshal Wrap (Ok ()) enc e = Ok b"
  shows "\<exists>r. Unmarshal Unwrap (Ok ()) dec b e0 = (Ok (), r) \<and>
             FromNodeId r = FromNodeId e \<and> same (Payload e) (Payload r)"
proof -
  from marshalled obtain w where w: "Wrap (Payload e) = Ok w"
    and enc: "enc \<lparr>FromNodeId = FromNodeId e, Payload = w\<rparr> = Ok b"
    by (auto simp: marshal_ok_iff)
  obtain y where y: "dec b = Ok y" "FromNodeId y = FromNodeId e" "wire w (Payload y)"
    using codec_okD [OF codec _ enc] inP [OF w] by auto
  from unwrap_same [OF plain w y(3)] obtain u where "Unwrap (Payload y) = Ok u" "same (Payload e) u"
    by blast
  with y show ?thesis by (simp add: Unmarshal_def)
qed

end

end
