(* ===== verification/Event.thy ===== *)
theory Event
  imports Values ReplicationEvent
begin

text \<open>
  \<open>db/change_log_event.go\<close>: the captured change of one row, its preparation for the wire
  (\<open>Wrap\<close>/\<open>Unwrap\<close>), the sorted primary-key columns with their process-wide cache, and the hash
  that decides the shard. The CBOR encoder is a library: \<open>cbor_writer\<close> collects what one
  encoder writes for the calls the hash makes.
\<close>

record ChangeLogEvent =
  ev_Id :: int
  ev_Type :: string
  ev_TableName :: string
  ev_Row :: gorow
  ev_tableInfo :: "ColumnInfo list"

section \<open>Wrap and Unwrap\<close>

definition GetValue :: "sensitiveTypeWrapper \<Rightarrow> goval" where
  "GetValue s = GTimePtr (stw_Time s)"

text \<open>The loop of \<open>prepare\<close>: the prepared row and whether a value was wrapped.\<close>

fun prepare_row :: "gorow \<Rightarrow> gorow \<times> bool" where
  "prepare_row [] = ([], False)"
| "prepare_row ((k, v) # r) =
     (let (preparedRow, needsTransform) = prepare_row r in
      case v of
        GVal (DTime t) \<Rightarrow> ((k, GWrapped \<lparr>stw_Time = Some t\<rparr>) # preparedRow, True)
      | _ \<Rightarrow> ((k, v) # preparedRow, needsTransform))"

definition prepare :: "ChangeLogEvent \<Rightarrow> ChangeLogEvent" where
  "prepare e =
     (let (preparedRow, needsTransform) = prepare_row (ev_Row e) in
      if \<not> needsTransform then e
      else \<lparr>ev_Id = ev_Id e, ev_Type = ev_Type e, ev_TableName = ev_TableName e,
            ev_Row = preparedRow, ev_tableInfo = ev_tableInfo e\<rparr>)"

definition Wrap :: "ChangeLogEvent \<Rightarrow> ChangeLogEvent res" where
  "Wrap e = Ok (prepare e)"

fun unwrap_row :: "gorow \<Rightarrow> gorow" where
  "unwrap_row [] = []"
| "unwrap_row ((k, v) # r) =
     (case v of
        GWrapped st \<Rightarrow> (k, GetValue st) # unwrap_row r
      | _ \<Rightarrow> (k, v) # unwrap_row r)"

definition Unwrap :: "ChangeLogEvent \<Rightarrow> ChangeLogEvent res" where
  "Unwrap e =
     Ok \<lparr>ev_Id = ev_Id e, ev_Type = ev_Type e, ev_TableName = ev_TableName e,
         ev_Row = unwrap_row (ev_Row e), ev_tableInfo = ev_tableInfo e\<rparr>"

section \<open>Primary-key columns and the hash\<close>

text \<open>\<open>tablePKColumnsCache\<close>, a package variable: table name to sorted key columns.\<close>

type_synonym pk_cache = "string \<rightharpoonup> string list"

definition pk_names :: "ColumnInfo list \<Rightarrow> string list" where
  "pk_names info = map ci_Name (filter ci_IsPrimaryKey info)"

definition getSortedPKColumns :: "ChangeLogEvent \<Rightarrow> pk_cache \<Rightarrow> string list \<times> pk_cache" where
  "getSortedPKColumns e cache =
     (case cache (ev_TableName e) of
        Some values \<Rightarrow> (values, cache)
      | None \<Rightarrow>
         (let pkColumns = sort (pk_names (ev_tableInfo e))
          in (pkColumns, cache(ev_TableName e \<mapsto> pkColumns))))"

text \<open>What the CBOR encoder of the hash writes, call by call.\<close>

record cbor_writer =
  startIndefiniteArray :: "bytes res"
  encodeText :: "string \<Rightarrow> bytes res"
  encodePair :: "string \<Rightarrow> goval \<Rightarrow> bytes res"
  endIndefinite :: "bytes res"

fun encode_pks :: "cbor_writer \<Rightarrow> gorow \<Rightarrow> string list \<Rightarrow> bytes res" where
  "encode_pks cw row [] = Ok []"
| "encode_pks cw row (pk # pks) =
     bindE (encodePair cw pk (row_get row pk)) (\<lambda>b.
     bindE (encode_pks cw row pks) (\<lambda>bs. Ok (b @ bs)))"

text \<open>The bytes the hasher has seen when \<open>Hash\<close> reads its sum, for given key columns.\<close>

definition hash_input :: "cbor_writer \<Rightarrow> ChangeLogEvent \<Rightarrow> string list \<Rightarrow> bytes res" where
  "hash_input cw e pkColumns =
     bindE (startIndefiniteArray cw) (\<lambda>b0.
     bindE (encodeText cw (ev_TableName e)) (\<lambda>b1.
     bindE (encode_pks cw (ev_Row e) pkColumns) (\<lambda>b2.
     bindE (endIndefinite cw) (\<lambda>b3. Ok (b0 @ b1 @ b2 @ b3)))))"

definition Hash :: "cbor_writer \<Rightarrow> ChangeLogEvent \<Rightarrow> pk_cache \<Rightarrow> u64 res \<times> pk_cache" where
  "Hash cw e cache =
     (case bindE (startIndefiniteArray cw) (\<lambda>_. encodeText cw (ev_TableName e)) of
        Ok _ \<Rightarrow>
          (let (pkColumns, cache') = getSortedPKColumns e cache
           in (bindE (hash_input cw e pkColumns) (\<lambda>bs. Ok (fnv64 bs)), cache'))
      | Err x \<Rightarrow> (Err x, cache)
      | Panic p \<Rightarrow> (Panic p, cache)
      | Block \<Rightarrow> (Block, cache))"

text \<open>The cache agrees with the schema every node shares: what each table's entry must be.\<close>

definition cache_ok :: "(string \<rightharpoonup> ColumnInfo list) \<Rightarrow> pk_cache \<Rightarrow> bool" where
  "cache_ok schema cache \<longleftrightarrow>
     (\<forall>t cols. cache t = Some cols \<longrightarrow> (\<exists>info. schema t = Some info \<and> cols = sort (pk_names info)))"

section \<open>What the round trip keeps\<close>

text \<open>A row as it comes out of the database: driver values only, integers in range.\<close>

fun db_value :: "goval \<Rightarrow> bool" where
  "db_value (GVal (DInt i)) = int64_range i"
| "db_value (GVal d) = True"
| "db_value v = False"

definition db_event :: "ChangeLogEvent \<Rightarrow> bool" where
  "db_event e \<longleftrightarrow> list_all (\<lambda>(k, v). db_value v) (ev_Row e)"

text \<open>
  What CBOR may do to a value: nothing, or turn a non-negative int64 into a uint64 (the Go type a
  decoder picks for CBOR's unsigned integers). Nothing is asked of a bare time.
\<close>

fun wire_value :: "goval \<Rightarrow> goval \<Rightarrow> bool" where
  "wire_value (GVal (DInt i)) v = (v = GVal (DInt i) \<or> (0 \<le> i \<and> v = GUint (word_of_int i)))"
| "wire_value (GVal (DTime t)) v = True"
| "wire_value u v = (u = v)"

definition wire_event :: "ChangeLogEvent \<Rightarrow> ChangeLogEvent \<Rightarrow> bool" where
  "wire_event a b \<longleftrightarrow>
     ev_Id b = ev_Id a \<and> ev_Type b = ev_Type a \<and> ev_TableName b = ev_TableName a \<and>
     list_all2 (\<lambda>(k, v) (k', v'). k = k' \<and> wire_value v v') (ev_Row a) (ev_Row b)"

text \<open>The same event to the database: every column converts to the same driver value.\<close>

definition same_event :: "ChangeLogEvent \<Rightarrow> ChangeLogEvent \<Rightarrow> bool" where
  "same_event a b \<longleftrightarrow>
     ev_Id b = ev_Id a \<and> ev_Type b = ev_Type a \<and> ev_TableName b = ev_TableName a \<and>
     map fst (ev_Row b) = map fst (ev_Row a) \<and>
     map (\<lambda>(k, v). to_driver v) (ev_Row b) = map (\<lambda>(k, v). to_driver v) (ev_Row a)"

section \<open>Lemmas\<close>

fun wrap_value :: "goval \<Rightarrow> goval" where
  "wrap_value (GVal (DTime t)) = GWrapped \<lparr>stw_Time = Some t\<rparr>"
| "wrap_value v = v"

fun unwrap_value :: "goval \<Rightarrow> goval" where
  "unwrap_value (GWrapped s) = GetValue s"
| "unwrap_value v = v"

lemma prepare_row_eq:
  "prepare_row r = (map (apsnd wrap_value) r, \<exists>(k, v) \<in> set r. \<exists>t. v = GVal (DTime t))"
proof (induction r)
  case (Cons kv r)
  obtain k v where kv: "kv = (k, v)" by (cases kv)
  show ?case
    by (cases v rule: wrap_value.cases) (auto simp: kv Cons.IH)
qed simp

lemma unwrap_row_eq: "unwrap_row r = map (apsnd unwrap_value) r"
  by (induction r rule: unwrap_row.induct) (auto split: goval.splits)

lemma wrap_value_id: "(\<And>t. v \<noteq> GVal (DTime t)) \<Longrightarrow> wrap_value v = v"
  by (cases v rule: wrap_value.cases) auto

lemma prepare_fields [simp]:
  "ev_Id (prepare e) = ev_Id e" "ev_Type (prepare e) = ev_Type e"
  "ev_TableName (prepare e) = ev_TableName e" "ev_tableInfo (prepare e) = ev_tableInfo e"
  by (simp_all add: prepare_def Let_def split: prod.splits)

lemma prepare_Row: "ev_Row (prepare e) = map (apsnd wrap_value) (ev_Row e)"
proof (cases "snd (prepare_row (ev_Row e))")
  case True
  then show ?thesis by (simp add: prepare_def prepare_row_eq Let_def)
next
  case False
  then have "\<And>k v. (k, v) \<in> set (ev_Row e) \<Longrightarrow> wrap_value v = v"
    by (intro wrap_value_id) (auto simp: prepare_row_eq)
  then have "map (apsnd wrap_value) (ev_Row e) = ev_Row e"
    by (intro map_idI) auto
  with False show ?thesis by (simp add: prepare_def prepare_row_eq Let_def)
qed

lemma wire_value_cases:
  assumes "db_value v" and "wire_value (wrap_value v) v'"
  shows "to_driver (unwrap_value v') = to_driver v"
  using assms
  by (cases v rule: db_value.cases)
    (auto simp: GetValue_def to_driver_uint_of_int simp del: to_driver.simps(2))

lemma wire_rows_same:
  assumes "list_all (\<lambda>(k, v). db_value v) r"
    and "list_all2 (\<lambda>(k, v) (k', v'). k = k' \<and> wire_value v v') (map (apsnd wrap_value) r) r'"
  shows "map fst (unwrap_row r') = map fst r"
    and "map (\<lambda>(k, v). to_driver v) (unwrap_row r') = map (\<lambda>(k, v). to_driver v) r"
proof -
  have "list_all2 (\<lambda>(k, v) (k', v'). k = k' \<and> wire_value (wrap_value v) v') r r'"
    using assms(2) by (simp add: list_all2_map1 case_prod_unfold)
  with assms(1) have
    "map fst (unwrap_row r') = map fst r \<and>
     map (\<lambda>(k, v). to_driver v) (unwrap_row r') = map (\<lambda>(k, v). to_driver v) r"
    by (induction r arbitrary: r') (auto simp: list_all2_Cons1 unwrap_row_eq wire_value_cases)
  then show "map fst (unwrap_row r') = map fst r"
    and "map (\<lambda>(k, v). to_driver v) (unwrap_row r') = map (\<lambda>(k, v). to_driver v) r"
    by blast+
qed

text \<open>The change-log event meets the contract of the envelope.\<close>

interpretation clev: replicable_event Wrap Unwrap db_event wire_event same_event
proof unfold_locales
  fix e
  show "\<exists>w. Wrap e = Ok w" by (simp add: Wrap_def)
next
  fix e w w'
  assume e: "db_event e" and w: "Wrap e = Ok w" and w': "wire_event w w'"
  show "\<exists>u. Unwrap w' = Ok u \<and> same_event e u"
    using e w w' wire_rows_same [of "ev_Row e" "ev_Row w'"]
    by (auto simp: Wrap_def Unwrap_def db_event_def wire_event_def same_event_def prepare_Row)
qed

lemma mset_pk_sort: "mset (sort (pk_names info)) = mset (pk_names info)"
  by simp

lemma getSortedPKColumns_cache_ok:
  assumes "cache_ok schema cache" and "schema (ev_TableName e) = Some (ev_tableInfo e)"
    and "getSortedPKColumns e cache = (cols, cache')"
  shows "cols = sort (pk_names (ev_tableInfo e))" and "cache_ok schema cache'"
proof -
  have "cols = sort (pk_names (ev_tableInfo e)) \<and> cache_ok schema cache'"
  proof (cases "cache (ev_TableName e)")
    case None
    with assms show ?thesis
      by (auto simp: getSortedPKColumns_def cache_ok_def Let_def split: if_splits)
  next
    case (Some vs)
    with assms(1,2) have "vs = sort (pk_names (ev_tableInfo e))"
      unfolding cache_ok_def by fastforce
    with Some assms show ?thesis by (simp add: getSortedPKColumns_def)
  qed
  then show "cols = sort (pk_names (ev_tableInfo e))" and "cache_ok schema cache'"
    by blast+
qed

lemma encode_pks_cong:
  "(\<And>pk. pk \<in> set pks \<Longrightarrow> row_get r pk = row_get r' pk) \<Longrightarrow> encode_pks cw r pks = encode_pks cw r' pks"
  by (induction pks) auto

section \<open>Properties\<close>


definition wit_event :: ChangeLogEvent where
  "wit_event = \<lparr>ev_Id = 7, ev_Type = ''update'', ev_TableName = ''Books'',
     ev_Row = [(''id'', GVal (DInt 3)), (''at'', GVal (DTime 5)), (''title'', GVal (DText ''x''))],
     ev_tableInfo = []\<rparr>"

definition wit_sent :: "ChangeLogEvent ReplicationEvent" where
  "wit_sent = \<lparr>FromNodeId = 1, Payload = prepare wit_event\<rparr>"

definition wit_received :: "ChangeLogEvent ReplicationEvent" where
  "wit_received = \<lparr>FromNodeId = 1, Payload = wit_event\<lparr>ev_Row :=
     [(''id'', GUint 3), (''at'', GWrapped \<lparr>stw_Time = Some 5\<rparr>), (''title'', GVal (DText ''x''))]\<rparr>\<rparr>"

definition wit_enc :: "ChangeLogEvent ReplicationEvent \<Rightarrow> bytes res" where
  "wit_enc x = (if x = wit_sent then Ok [161] else Err (External 0))"

definition wit_dec :: "bytes \<Rightarrow> ChangeLogEvent ReplicationEvent res" where
  "wit_dec b = (if b = [161] then Ok wit_received else Err (External 1))"

lemma wit_codec: "codec_ok (\<lambda>_. True) wire_event wit_enc wit_dec"
  by (auto simp: codec_ok_def wit_enc_def wit_dec_def wit_sent_def wit_received_def wit_event_def
      wire_event_def prepare_Row)


text \<open>
  The key columns of a table come out sorted, they are exactly the columns marked as primary
  key (each as often as it occurs), whatever the cache already holds, and the cache stays
  consistent with the schema.
\<close>

lemma sorted_pk_columns:
  assumes "cache_ok schema cache" and "schema (ev_TableName e) = Some (ev_tableInfo e)"
    and "getSortedPKColumns e cache = (cols, cache')"
  shows "sorted cols \<and> mset cols = mset (map ci_Name (filter ci_IsPrimaryKey (ev_tableInfo e)))
         \<and> cache_ok schema cache' \<and> cache' (ev_TableName e) = Some cols"
proof -
  have "cache' (ev_TableName e) = Some cols"
    using assms(3) by (auto simp: getSortedPKColumns_def Let_def split: option.splits)
  with getSortedPKColumns_cache_ok [OF assms] show ?thesis by (simp add: pk_names_def)
qed

definition wit_cols :: "ColumnInfo list" where
  "wit_cols =
     [\<lparr>ci_Name = ''z'', ci_Type = ''INT'', ci_NotNull = True, ci_DefaultValue = DNull,
       ci_PrimaryKeyIndex = 1, ci_IsPrimaryKey = True\<rparr>,
      \<lparr>ci_Name = ''v'', ci_Type = ''TEXT'', ci_NotNull = False, ci_DefaultValue = DNull,
       ci_PrimaryKeyIndex = 0, ci_IsPrimaryKey = False\<rparr>,
      \<lparr>ci_Name = ''a'', ci_Type = ''INT'', ci_NotNull = True, ci_DefaultValue = DNull,
       ci_PrimaryKeyIndex = 2, ci_IsPrimaryKey = True\<rparr>]"

text \<open>
  C17: the hash of a change only depends on the table and the values of the primary-key columns.
  Two nodes that hold the same key columns for a table (in any column order, with any state of
  their caches) give the same hash to every change of the same row.
\<close>

theorem hash_same_row:
  assumes "cache_ok sa c1" and "sa (ev_TableName e1) = Some (ev_tableInfo e1)"
    and "cache_ok sb c2" and "sb (ev_TableName e2) = Some (ev_tableInfo e2)"
    and "ev_TableName e1 = ev_TableName e2"
    and "mset (pk_names (ev_tableInfo e1)) = mset (pk_names (ev_tableInfo e2))"
    and "\<forall>pk \<in> set (pk_names (ev_tableInfo e1)). row_get (ev_Row e1) pk = row_get (ev_Row e2) pk"
  shows "fst (Hash cw e1 c1) = fst (Hash cw e2 c2)"
proof -
  obtain k1 c1' where g1: "getSortedPKColumns e1 c1 = (k1, c1')" by (cases "getSortedPKColumns e1 c1")
  obtain k2 c2' where g2: "getSortedPKColumns e2 c2 = (k2, c2')" by (cases "getSortedPKColumns e2 c2")
  have k: "k1 = sort (pk_names (ev_tableInfo e1))" "k2 = k1"
    using getSortedPKColumns_cache_ok(1) [OF assms(1,2) g1]
      getSortedPKColumns_cache_ok(1) [OF assms(3,4) g2] sort_perm_eq [OF assms(6)] by simp_all
  have "encode_pks cw (ev_Row e1) k1 = encode_pks cw (ev_Row e2) k1"
    using assms(7) by (intro encode_pks_cong) (simp add: k(1))
  then show ?thesis
    by (simp add: Hash_def g1 g2 k(2) hash_input_def assms(5) split: res.splits)
qed

definition wit_cw :: cbor_writer where
  "wit_cw = \<lparr>startIndefiniteArray = Ok [159], encodeText = (\<lambda>s. Ok (bytes_of s)),
     encodePair = (\<lambda>k v. Ok (bytes_of k @ (case v of GVal (DInt i) \<Rightarrow> [word_of_int i] | _ \<Rightarrow> []))),
     endIndefinite = Ok [255]\<rparr>"

theorem hash_same_row_witness:
  "fst (Hash wit_cw (wit_event\<lparr>ev_tableInfo := wit_cols,
          ev_Row := [(''z'', GVal (DInt 1)), (''v'', GVal DNull), (''a'', GVal (DInt 2))]\<rparr>) Map.empty)
   = fst (Hash wit_cw (wit_event\<lparr>ev_tableInfo := rev wit_cols, ev_Type := ''delete'',
          ev_Row := [(''a'', GVal (DInt 2)), (''z'', GVal (DInt 1)), (''v'', GVal (DText ''t''))]\<rparr>)
        [''Books'' \<mapsto> [''a'', ''z'']])"
proof (rule hash_same_row [where sa = "[''Books'' \<mapsto> wit_cols]" and sb = "[''Books'' \<mapsto> rev wit_cols]"])
  show "cache_ok [''Books'' \<mapsto> rev wit_cols] [''Books'' \<mapsto> [''a'', ''z'']]"
    by (auto simp: cache_ok_def pk_names_def wit_cols_def split: if_splits)
qed (simp_all add: cache_ok_def wit_event_def pk_names_def wit_cols_def row_get_def)

end
