(* ===== verification/Pool.thy ===== *)
theory Pool
  imports Prelude
begin

text \<open>
  \<open>pool/connection_pool.go\<close>: a fixed number of SQLite connections handed out through a buffered
  channel. A connection is opened when it is first borrowed; its \<open>state\<close> word is switched by
  compare-and-swap. Connections are pointers, so the model keeps a heap of them and the channel
  holds addresses. Opening a database is the driver's work: what its \<open>n\<close>-th opening does is an
  argument (\<open>driver_env\<close>).
\<close>

section \<open>State\<close>

text \<open>An open handle: its number and the SQL functions registered on it.\<close>

record sqlhandle =
  h_id :: nat
  h_funcs :: "string list"

record SQLiteConnection =
  c_db :: "sqlhandle option"
  c_raw :: "sqlhandle option"
  c_gSQL :: "sqlhandle option"
  c_disposer :: "nat option"
  c_state :: int

text \<open>
  \<open>SQLitePool\<close> with the heap its connections live in: \<open>p_id\<close> is the pool's own address,
  \<open>p_next\<close> the next free address, \<open>p_opens\<close> the number of opens so far.
\<close>

record SQLitePool =
  p_id :: nat
  p_dns :: string
  p_cap :: nat
  p_chan :: "nat list"
  p_heap :: "nat \<Rightarrow> SQLiteConnection"
  p_next :: nat
  p_opens :: nat

text \<open>What the driver does when the \<open>n\<close>-th database is opened: connect, register, ping.\<close>

record driver_env =
  d_open :: "nat \<Rightarrow> unit res"
  d_register :: "nat \<Rightarrow> unit res"

section \<open>Connections\<close>

text \<open>\<open>OpenRaw\<close>: the ping opens a connection, whose hook registers \<open>marmot_version\<close>.\<close>

definition OpenRaw :: "driver_env \<Rightarrow> nat \<Rightarrow> (sqlhandle \<times> sqlhandle) res" where
  "OpenRaw env n =
     bindE (d_open env n) (\<lambda>_.
     bindE (d_register env n) (\<lambda>_.
       let rawConn = \<lparr>h_id = n, h_funcs = [''marmot_version'']\<rparr> in Ok (rawConn, rawConn)))"

definition conn_zero :: SQLiteConnection where
  "conn_zero = \<lparr>c_db = None, c_raw = None, c_gSQL = None, c_disposer = None, c_state = 0\<rparr>"

definition CompareAndSwapInt32 :: "int \<Rightarrow> int \<Rightarrow> int \<Rightarrow> bool \<times> int" where
  "CompareAndSwapInt32 x old new = (if x = old then (True, new) else (False, x))"

definition conn_init :: "driver_env \<Rightarrow> string \<Rightarrow> nat \<Rightarrow> nat \<Rightarrow> (SQLitePool, unit) prog" where
  "conn_init env dns disposer a s =
     (let q = p_heap s a; (swapped, st) = CompareAndSwapInt32 (c_state q) 0 1 in
      if \<not> swapped then (Ok (), s)
      else
        (case OpenRaw env (p_opens s) of
           Ok (dbC, rawC) \<Rightarrow>
             (Ok (), s\<lparr>p_opens := Suc (p_opens s),
                       p_heap := (p_heap s)(a := q\<lparr>c_raw := Some rawC, c_db := Some dbC,
                         c_gSQL := Some dbC, c_disposer := Some disposer, c_state := st\<rparr>)\<rparr>)
         | Err e \<Rightarrow>
             (Err e, s\<lparr>p_opens := Suc (p_opens s), p_heap := (p_heap s)(a := q\<lparr>c_state := 0\<rparr>)\<rparr>)
         | Panic p \<Rightarrow> (Panic p, s\<lparr>p_heap := (p_heap s)(a := q\<lparr>c_state := st\<rparr>)\<rparr>)
         | Block \<Rightarrow> (Block, s\<lparr>p_heap := (p_heap s)(a := q\<lparr>c_state := st\<rparr>)\<rparr>)))"

text \<open>\<open>reset\<close>: the other direction of the swap; both handles are closed and forgotten.\<close>

definition conn_reset :: "nat \<Rightarrow> SQLitePool \<Rightarrow> SQLitePool" where
  "conn_reset a s =
     (let q = p_heap s a; (swapped, st) = CompareAndSwapInt32 (c_state q) 1 0 in
      if \<not> swapped then s
      else s\<lparr>p_heap := (p_heap s)(a := q\<lparr>c_db := None, c_raw := None, c_gSQL := None,
               c_disposer := None, c_state := st\<rparr>)\<rparr>)"

section \<open>The pool\<close>

text \<open>Sending on the buffered channel blocks when it is full.\<close>

definition chan_send :: "nat \<Rightarrow> (SQLitePool, unit) prog" where
  "chan_send a s =
     (if length (p_chan s) < p_cap s then (Ok (), s\<lparr>p_chan := p_chan s @ [a]\<rparr>) else (Block, s))"

definition alloc_conn :: "(SQLitePool, nat) prog" where
  "alloc_conn s =
     (Ok (p_next s), s\<lparr>p_heap := (p_heap s)(p_next s := conn_zero), p_next := Suc (p_next s)\<rparr>)"

fun new_pool_loop :: "driver_env \<Rightarrow> bool \<Rightarrow> nat \<Rightarrow> (SQLitePool, unit) prog" where
  "new_pool_loop env lazy 0 s = (Ok (), s)"
| "new_pool_loop env lazy (Suc n) s =
     bindR alloc_conn (\<lambda>con.
     bindR (if \<not> lazy then conn_init env (p_dns s) (p_id s) con else ret ()) (\<lambda>_.
     bindR (chan_send con) (\<lambda>_. new_pool_loop env lazy n))) s"

definition NewSQLitePool :: "driver_env \<Rightarrow> nat \<Rightarrow> string \<Rightarrow> nat \<Rightarrow> bool \<Rightarrow> unit res \<times> SQLitePool" where
  "NewSQLitePool env self dns poolSize lazy =
     new_pool_loop env lazy poolSize
       \<lparr>p_id = self, p_dns = dns, p_cap = poolSize, p_chan = [], p_heap = (\<lambda>_. conn_zero),
        p_next = 0, p_opens = 0\<rparr>"

text \<open>
  \<open>Borrow\<close>: receive (blocking on an empty channel), open if needed; when opening fails a fresh
  connection takes the place of the received one.
\<close>

definition Borrow :: "driver_env \<Rightarrow> (SQLitePool, nat) prog" where
  "Borrow env s =
     (case p_chan s of
        [] \<Rightarrow> (Block, s)
      | c # rest \<Rightarrow>
         (let s1 = s\<lparr>p_chan := rest\<rparr> in
          case conn_init env (p_dns s1) (p_id s1) c s1 of
            (Ok _, s2) \<Rightarrow> (Ok c, s2)
          | (Err e, s2) \<Rightarrow> bindR alloc_conn (\<lambda>f. bindR (chan_send f) (\<lambda>_ t. (Err e, t))) s2
          | (Panic p, s2) \<Rightarrow> (Panic p, s2)
          | (Block, s2) \<Rightarrow> (Block, s2)))"

definition Dispose :: "nat \<Rightarrow> (SQLitePool, unit) prog" where
  "Dispose obj s =
     (if c_disposer (p_heap s obj) \<noteq> Some (p_id s) then (Err ErrWrongPool, s) else chan_send obj s)"

text \<open>
  \<open>Return\<close> asks the connection's disposer; a connection that was never opened has none. (A
  connection of another pool goes back to that pool, whose state is not this one's.)
\<close>

definition Return :: "nat \<Rightarrow> (SQLitePool, unit) prog" where
  "Return q s =
     (case c_disposer (p_heap s q) of
        None \<Rightarrow> (Panic ''nil pointer dereference'', s)
      | Some d \<Rightarrow> if d = p_id s then Dispose q s else (Ok (), s))"

text \<open>
  The pattern of every client: \<open>c, err := pool.Borrow(); if err != nil { return err };
  defer c.Return()\<close>, then the body. A deferred call also runs when the body panics.
\<close>

definition with_conn ::
  "('s, 'c) prog \<Rightarrow> ('c \<Rightarrow> ('s, unit) prog) \<Rightarrow> ('c \<Rightarrow> ('s, 'a) prog) \<Rightarrow> ('s, 'a) prog"
where
  "with_conn borrow giveback body s =
     (case borrow s of
        (Ok c, s1) \<Rightarrow>
          (case body c s1 of
             (Block, s2) \<Rightarrow> (Block, s2)
           | (r, s2) \<Rightarrow> (r, snd (giveback c s2)))
      | (Err e, s1) \<Rightarrow> (Err e, s1)
      | (Panic p, s1) \<Rightarrow> (Panic p, s1)
      | (Block, s1) \<Rightarrow> (Block, s1))"

section \<open>The invariant\<close>

definition conn_open :: "nat \<Rightarrow> SQLiteConnection \<Rightarrow> bool" where
  "conn_open self q \<longleftrightarrow>
     c_state q = 1 \<and> c_disposer q = Some self \<and>
     (\<exists>h. c_db q = Some h \<and> c_gSQL q = Some h \<and> ''marmot_version'' \<in> set (h_funcs h))"

text \<open>An idle connection is open or untouched.\<close>

definition conn_idle :: "nat \<Rightarrow> SQLiteConnection \<Rightarrow> bool" where
  "conn_idle self q \<longleftrightarrow> conn_open self q \<or> c_state q = 0"

text \<open>
  \<open>B\<close> are the borrowed connections: every address is in the channel once or borrowed, the two
  add up to the capacity, borrowed ones are open.
\<close>

definition pool_inv :: "SQLitePool \<Rightarrow> nat set \<Rightarrow> bool" where
  "pool_inv s B \<longleftrightarrow>
     finite B \<and> distinct (p_chan s) \<and> set (p_chan s) \<inter> B = {} \<and>
     length (p_chan s) + card B = p_cap s \<and>
     (\<forall>a \<in> set (p_chan s) \<union> B. a < p_next s) \<and>
     (\<forall>a \<in> B. conn_open (p_id s) (p_heap s a)) \<and>
     (\<forall>a \<in> set (p_chan s). conn_idle (p_id s) (p_heap s a))"

text \<open>The driver either opens a database or returns an error (it does not panic or hang).\<close>

definition driver_returns :: "driver_env \<Rightarrow> bool" where
  "driver_returns env \<longleftrightarrow> (\<forall>n. returns (d_open env n) \<and> returns (d_register env n))"

text \<open>The states clients can reach by borrowing and giving back what they borrowed.\<close>

inductive pool_reach :: "driver_env \<Rightarrow> SQLitePool \<Rightarrow> nat set \<Rightarrow> bool" for env where
  new: "NewSQLitePool env self dns n lazy = (Ok (), s) \<Longrightarrow> pool_reach env s {}"
| borrow: "pool_reach env s B \<Longrightarrow> Borrow env s = (Ok c, t) \<Longrightarrow> pool_reach env t (insert c B)"
| borrow_err: "pool_reach env s B \<Longrightarrow> Borrow env s = (Err e, t) \<Longrightarrow> pool_reach env t B"
| giveback: "pool_reach env s B \<Longrightarrow> c \<in> B \<Longrightarrow> Return c s = (r, t) \<Longrightarrow> pool_reach env t (B - {c})"

section \<open>The contract of a connection pool\<close>

locale conn_pool =
  fixes borrow :: "('s, 'c) prog"
    and giveback :: "'c \<Rightarrow> ('s, unit) prog"
    and invar :: "'s \<Rightarrow> 'c set \<Rightarrow> bool"
    and room :: "'s \<Rightarrow> nat"
  assumes invar_finite: "invar s B \<Longrightarrow> finite B"
    and borrow_ok: "invar s B \<Longrightarrow> borrow s = (Ok c, t) \<Longrightarrow> c \<notin> B \<and> invar t (insert c B) \<and> room t = room s"
    and borrow_err: "invar s B \<Longrightarrow> borrow s = (Err e, t) \<Longrightarrow> invar t B \<and> room t = room s"
    and borrow_free: "invar s B \<Longrightarrow> card B < room s \<Longrightarrow> returns (fst (borrow s))"
    and giveback_ok: "invar s B \<Longrightarrow> c \<in> B \<Longrightarrow> \<exists>t. giveback c s = (Ok (), t) \<and> invar t (B - {c}) \<and> room t = room s"
begin

text \<open>
  A client that finds a free connection returns if its body does, leaves the pool as full as it
  was, and so can be called again.
\<close>

lemma with_conn_keeps:
  assumes inv: "invar s B" and free: "card B < room s"
    and body: "\<And>c t. c \<notin> B \<Longrightarrow> invar t (insert c B) \<Longrightarrow> room t = room s \<Longrightarrow>
       returns (fst (body c t)) \<and> invar (snd (body c t)) (insert c B) \<and> room (snd (body c t)) = room s"
  shows "returns (fst (with_conn borrow giveback body s)) \<and>
     invar (snd (with_conn borrow giveback body s)) B \<and>
     room (snd (with_conn borrow giveback body s)) = room s"
proof -
  obtain r t where b: "borrow s = (r, t)" by (cases "borrow s")
  from borrow_free [OF inv free] b have "returns r" by simp
  then show ?thesis
  proof (cases rule: returnsE)
    case (1 c)
    from borrow_ok [OF inv] b 1 have c: "c \<notin> B" "invar t (insert c B)" "room t = room s" by auto
    obtain r2 u where bd: "body c t = (r2, u)" by (cases "body c t")
    from body [OF c] bd have u: "returns r2" "invar u (insert c B)" "room u = room s" by auto
    from giveback_ok [OF u(2)] obtain v where v: "giveback c u = (Ok (), v)"
      "invar v (insert c B - {c})" "room v = room u" by blast
    with c(1) have "invar v B" by (simp add: insert_Diff_if)
    with v u(1,3) show ?thesis
      by (cases r2) (simp_all add: with_conn_def b 1 bd)
  next
    case (2 e)
    with borrow_err [OF inv] b show ?thesis by (auto simp: with_conn_def)
  qed
qed

end

section \<open>Lemmas\<close>

lemma CAS_simps [simp]:
  "CompareAndSwapInt32 x x n = (True, n)" "x \<noteq> y \<Longrightarrow> CompareAndSwapInt32 x y n = (False, x)"
  by (simp_all add: CompareAndSwapInt32_def)

lemma OpenRaw_Ok:
  "OpenRaw env n = Ok (d, r) \<Longrightarrow> d = r \<and> ''marmot_version'' \<in> set (h_funcs d)"
  by (auto simp: OpenRaw_def bindE_Ok_iff Let_def)

lemma OpenRaw_returns: "driver_returns env \<Longrightarrow> returns (OpenRaw env n)"
  by (auto simp: OpenRaw_def driver_returns_def Let_def intro!: bindE_returns)

lemma conn_init_frame:
  "conn_init env dns d a s = (r, t) \<Longrightarrow>
     p_chan t = p_chan s \<and> p_cap t = p_cap s \<and> p_id t = p_id s \<and> p_next t = p_next s \<and> p_dns t = p_dns s \<and>
     (\<forall>b. b \<noteq> a \<longrightarrow> p_heap t b = p_heap s b)"
  by (auto simp: conn_init_def Let_def split: prod.splits if_splits res.splits)

lemma conn_init_opens:
  assumes "conn_init env dns d a s = (Ok (), t)" and "conn_idle d (p_heap s a)"
  shows "conn_open d (p_heap t a)"
  using assms
  by (auto simp: conn_init_def conn_idle_def conn_open_def Let_def CompareAndSwapInt32_def
      dest: OpenRaw_Ok split: prod.splits if_splits res.splits)

lemma conn_init_returns: "driver_returns env \<Longrightarrow> returns (fst (conn_init env dns d a s))"
  using OpenRaw_returns [of env "p_opens s"]
  by (auto simp: conn_init_def Let_def returns_def split: prod.splits res.splits)

lemma chan_send_room: "length (p_chan s) < p_cap s \<Longrightarrow> chan_send a s = (Ok (), s\<lparr>p_chan := p_chan s @ [a]\<rparr>)"
  by (simp add: chan_send_def)

text \<open>What the channel holds while a pool is being filled.\<close>

definition chan_ok :: "SQLitePool \<Rightarrow> bool" where
  "chan_ok s \<longleftrightarrow> distinct (p_chan s) \<and>
     (\<forall>a \<in> set (p_chan s). a < p_next s \<and> conn_idle (p_id s) (p_heap s a))"

lemma conn_idle_zero [simp]: "conn_idle d conn_zero"
  by (simp add: conn_idle_def conn_zero_def)

lemma conn_open_idle: "conn_open d q \<Longrightarrow> conn_idle d q"
  by (simp add: conn_idle_def)

lemma alloc_chan_ok:
  "chan_ok s \<Longrightarrow> alloc_conn s = (Ok a, t) \<Longrightarrow>
     chan_ok t \<and> a = p_next s \<and> p_next t = Suc (p_next s) \<and> p_chan t = p_chan s \<and> p_cap t = p_cap s \<and>
     p_id t = p_id s \<and> p_dns t = p_dns s \<and> conn_idle (p_id t) (p_heap t a) \<and> a \<notin> set (p_chan s)"
  by (auto simp: alloc_conn_def chan_ok_def less_Suc_eq)

lemma init_chan_ok:
  assumes "chan_ok s" and "a \<notin> set (p_chan s)" and "conn_idle (p_id s) (p_heap s a)"
    and "conn_init env dns (p_id s) a s = (Ok (), t)"
  shows "chan_ok t \<and> conn_open (p_id t) (p_heap t a)"
proof -
  have "\<And>b. b \<in> set (p_chan s) \<Longrightarrow> p_heap t b = p_heap s b"
    using conn_init_frame [OF assms(4)] assms(2) by metis
  with assms(1) conn_init_frame [OF assms(4)] conn_init_opens [OF assms(4,3)] show ?thesis
    by (simp add: chan_ok_def)
qed

lemma new_pool_step:
  assumes "chan_ok s" and "length (p_chan s) < p_cap s"
    and "new_pool_loop env lazy (Suc n) s = (Ok (), t)"
  obtains u where "chan_ok u" "length (p_chan u) = Suc (length (p_chan s))" "p_cap u = p_cap s"
    "new_pool_loop env lazy n u = (Ok (), t)"
proof -
  obtain a s1 where a: "alloc_conn s = (Ok a, s1)" by (simp add: alloc_conn_def)
  note al = alloc_chan_ok [OF assms(1) a]
  let ?open = "if \<not> lazy then conn_init env (p_dns s) (p_id s) a else ret ()"
  from assms(3) a obtain u0 s2 where s2: "?open s1 = (Ok u0, s2)"
    and rest: "bindR (chan_send a) (\<lambda>_. new_pool_loop env lazy n) s2 = (Ok (), t)"
    by (auto simp: res_simps elim!: bindR_OkE)
  have s2ok: "chan_ok s2 \<and> p_chan s2 = p_chan s \<and> p_cap s2 = p_cap s \<and> p_next s2 = p_next s1 \<and>
      conn_idle (p_id s2) (p_heap s2 a)"
  proof (cases lazy)
    case True
    with s2 al show ?thesis by (auto simp: ret_def)
  next
    case False
    with s2 have i: "conn_init env (p_dns s) (p_id s1) a s1 = (Ok (), s2)" using al by simp
    have "chan_ok s2 \<and> conn_open (p_id s2) (p_heap s2 a)"
      using al by (intro init_chan_ok [OF _ _ _ i]) auto
    with conn_init_frame [OF i] al show ?thesis by (auto intro: conn_open_idle)
  qed
  then have send: "chan_send a s2 = (Ok (), s2\<lparr>p_chan := p_chan s2 @ [a]\<rparr>)"
    using assms(2) by (intro chan_send_room) simp
  have "chan_ok (s2\<lparr>p_chan := p_chan s2 @ [a]\<rparr>)"
    using s2ok al by (auto simp: chan_ok_def)
  with that rest send s2ok show ?thesis by (auto simp: res_simps)
qed

lemma new_pool_loop_ok:
  "new_pool_loop env lazy n s = (Ok (), t) \<Longrightarrow> chan_ok s \<Longrightarrow> length (p_chan s) + n = p_cap s \<Longrightarrow>
     chan_ok t \<and> length (p_chan t) = p_cap t"
proof (induction n arbitrary: s)
  case (Suc n)
  from Suc.prems obtain u where "chan_ok u" "length (p_chan u) = Suc (length (p_chan s))"
    "p_cap u = p_cap s" "new_pool_loop env lazy n u = (Ok (), t)"
    by (auto elim: new_pool_step)
  with Suc.IH [of u] Suc.prems(3) show ?case by simp
qed auto

lemma NewSQLitePool_inv: "NewSQLitePool env self dns n lazy = (Ok (), s) \<Longrightarrow> pool_inv s {}"
  using new_pool_loop_ok [of env lazy n]
  by (fastforce simp: NewSQLitePool_def pool_inv_def chan_ok_def)

text \<open>Both outcomes of \<open>Borrow\<close> on a pool that holds the invariant, spelled out.\<close>

lemma Borrow_OkE:
  assumes "Borrow env s = (Ok c, t)"
  obtains rest where "p_chan s = c # rest"
    and "conn_init env (p_dns s) (p_id s) c (s\<lparr>p_chan := rest\<rparr>) = (Ok (), t)"
  using assms
  by (auto simp: Borrow_def bindR_def alloc_conn_def Let_def chan_send_def
      split: list.splits prod.splits res.splits if_splits)

lemma Borrow_ErrE:
  assumes "Borrow env s = (Err e, t)"
  obtains c rest s2 where "p_chan s = c # rest"
    and "conn_init env (p_dns s) (p_id s) c (s\<lparr>p_chan := rest\<rparr>) = (Err e, s2)"
    and "t = s2\<lparr>p_heap := (p_heap s2)(p_next s2 := conn_zero), p_next := Suc (p_next s2),
                p_chan := p_chan s2 @ [p_next s2]\<rparr>"
  using assms
  by (auto simp: Borrow_def bindR_def alloc_conn_def Let_def chan_send_def
      split: list.splits prod.splits res.splits if_splits)

text \<open>Taking the head of the channel out and leaving the rest of the heap alone.\<close>

lemma pool_inv_take:
  assumes "pool_inv s B" and "p_chan s = c # rest"
    and "conn_init env dns d c (s\<lparr>p_chan := rest\<rparr>) = (r, t)"
  shows "c \<notin> B" "p_chan t = rest" "p_cap t = p_cap s" "p_id t = p_id s" "p_next t = p_next s" "c < p_next s"
    "\<And>b. b \<in> set rest \<Longrightarrow> conn_idle (p_id s) (p_heap t b)"
    "\<And>b. b \<in> B \<Longrightarrow> conn_open (p_id s) (p_heap t b)"
proof -
  note fr = conn_init_frame [OF assms(3), simplified]
  show "c \<notin> B" "p_chan t = rest" "p_cap t = p_cap s" "p_id t = p_id s" "p_next t = p_next s" "c < p_next s"
    using assms(1,2) fr by (auto simp: pool_inv_def)
  fix b
  show "b \<in> set rest \<Longrightarrow> conn_idle (p_id s) (p_heap t b)"
    using assms(1,2) fr by (cases "b = c") (auto simp: pool_inv_def)
  show "b \<in> B \<Longrightarrow> conn_open (p_id s) (p_heap t b)"
    using assms(1,2) fr by (cases "b = c") (auto simp: pool_inv_def)
qed

lemma Borrow_inv:
  assumes "pool_inv s B" and "Borrow env s = (Ok c, t)"
  shows "c \<notin> B \<and> pool_inv t (insert c B) \<and> p_cap t = p_cap s"
proof -
  from assms(2) obtain rest where ch: "p_chan s = c # rest"
    and i: "conn_init env (p_dns s) (p_id s) c (s\<lparr>p_chan := rest\<rparr>) = (Ok (), t)"
    by (rule Borrow_OkE)
  have "conn_open (p_id s) (p_heap t c)"
    using conn_init_opens [OF i] ch assms(1) by (simp add: pool_inv_def)
  with pool_inv_take [OF assms(1) ch i] assms(1) ch show ?thesis
    by (auto simp: pool_inv_def)
qed

lemma Borrow_err_inv:
  assumes "pool_inv s B" and "Borrow env s = (Err e, t)"
  shows "pool_inv t B \<and> p_cap t = p_cap s"
proof -
  from assms(2) obtain c rest s2 where ch: "p_chan s = c # rest"
    and i: "conn_init env (p_dns s) (p_id s) c (s\<lparr>p_chan := rest\<rparr>) = (Err e, s2)"
    and t: "t = s2\<lparr>p_heap := (p_heap s2)(p_next s2 := conn_zero), p_next := Suc (p_next s2),
                   p_chan := p_chan s2 @ [p_next s2]\<rparr>"
    by (rule Borrow_ErrE)
  note tk = pool_inv_take [OF assms(1) ch i]
  have "\<And>a. a \<in> set rest \<union> B \<Longrightarrow> a < p_next s"
    using assms(1) ch by (auto simp: pool_inv_def)
  with tk assms(1) ch show ?thesis
    by (auto simp: pool_inv_def t less_Suc_eq)
qed

lemma Borrow_returns:
  assumes "driver_returns env" and "pool_inv s B" and "card B < p_cap s"
  shows "returns (fst (Borrow env s))"
proof -
  from assms(2,3) obtain c rest where ch: "p_chan s = c # rest"
    by (cases "p_chan s") (auto simp: pool_inv_def)
  obtain r s2 where i: "conn_init env (p_dns s) (p_id s) c (s\<lparr>p_chan := rest\<rparr>) = (r, s2)"
    by (cases "conn_init env (p_dns s) (p_id s) c (s\<lparr>p_chan := rest\<rparr>)")
  have "returns r" using conn_init_returns [OF assms(1)] i by (metis fst_conv)
  moreover have "length (p_chan s2) < p_cap s2"
    using conn_init_frame [OF i] ch assms(2) by (simp add: pool_inv_def)
  ultimately show ?thesis
    by (auto simp: Borrow_def ch i bindR_def alloc_conn_def chan_send_def elim!: returnsE)
qed

lemma Borrow_returnsD:
  "Borrow env s = (r, t) \<Longrightarrow> driver_returns env \<Longrightarrow> pool_inv s B \<Longrightarrow> card B < p_cap s \<Longrightarrow> returns r"
  using Borrow_returns by fastforce

text \<open>With a driver that opens every database and room in the pool, borrowing succeeds.\<close>

definition driver_healthy :: "driver_env \<Rightarrow> bool" where
  "driver_healthy env \<longleftrightarrow> (\<forall>n. d_open env n = Ok () \<and> d_register env n = Ok ())"

lemma driver_healthy_returns: "driver_healthy env \<Longrightarrow> driver_returns env"
  by (simp add: driver_healthy_def driver_returns_def)

lemma conn_init_healthy: "driver_healthy env \<Longrightarrow> \<exists>t. conn_init env dns d a s = (Ok (), t)"
  by (auto simp: conn_init_def driver_healthy_def OpenRaw_def Let_def res_simps split: prod.splits)

lemma Borrow_healthy:
  assumes "driver_healthy env" and "pool_inv s B" and "card B < p_cap s"
  shows "\<exists>c t. Borrow env s = (Ok c, t)"
proof -
  from assms(2,3) have "p_chan s \<noteq> []" by (auto simp: pool_inv_def)
  then obtain c cs where c: "p_chan s = c # cs" by (cases "p_chan s") auto
  from conn_init_healthy [OF assms(1), of "p_dns s" "p_id s" c "s\<lparr>p_chan := cs\<rparr>"]
  obtain t where "conn_init env (p_dns s) (p_id s) c (s\<lparr>p_chan := cs\<rparr>) = (Ok (), t)" ..
  with c show ?thesis by (simp add: Borrow_def)
qed

lemma Return_inv:
  assumes "pool_inv s B" and "c \<in> B"
  shows "\<exists>t. Return c s = (Ok (), t) \<and> pool_inv t (B - {c}) \<and> p_cap t = p_cap s"
proof -
  from assms have "card B > 0" by (auto simp: pool_inv_def card_gt_0_iff)
  with assms have "length (p_chan s) < p_cap s" by (auto simp: pool_inv_def)
  then have "Return c s = (Ok (), s\<lparr>p_chan := p_chan s @ [c]\<rparr>)"
    using assms by (simp add: Return_def Dispose_def chan_send_def pool_inv_def conn_open_def)
  moreover have "pool_inv (s\<lparr>p_chan := p_chan s @ [c]\<rparr>) (B - {c})"
    using assms \<open>card B > 0\<close> by (auto simp: pool_inv_def intro: conn_open_idle)
  ultimately show ?thesis by simp
qed

lemma pool_reach_inv: "pool_reach env s B \<Longrightarrow> pool_inv s B"
proof (induction rule: pool_reach.induct)
  case (giveback s B c r t)
  with Return_inv [of s B c] show ?case by auto
qed (auto dest: NewSQLitePool_inv Borrow_inv Borrow_err_inv)

lemma pool_inv_finite: "pool_inv s B \<Longrightarrow> finite B"
  by (simp add: pool_inv_def)

text \<open>The SQLite pool meets the contract its clients rely on.\<close>

interpretation sqp: conn_pool "Borrow env" Return "\<lambda>s B. driver_returns env \<and> pool_inv s B" p_cap for env
  by unfold_locales
    (auto dest: pool_inv_finite Borrow_inv Borrow_err_inv Return_inv intro: Borrow_returns)

section \<open>Properties\<close>

text \<open>
  C18: whatever clients do with the pool, as long as they give back what they borrowed, no
  connection is lost or duplicated: idle and borrowed connections add up to the pool's size,
  giving one back never fails or blocks, and every borrowed connection is open with
  \<open>marmot_version\<close> registered (so the change-log triggers stay silent on it).
\<close>

theorem pool_conserves_connections:
  assumes "pool_reach env s B"
  shows "length (p_chan s) + card B = p_cap s \<and> distinct (p_chan s) \<and> set (p_chan s) \<inter> B = {} \<and>
     (\<forall>c \<in> B. fst (Return c s) = Ok ()) \<and>
     (\<forall>c \<in> B. \<exists>h. c_gSQL (p_heap s c) = Some h \<and> ''marmot_version'' \<in> set (h_funcs h))"
proof -
  from assms have inv: "pool_inv s B" by (rule pool_reach_inv)
  then have "fst (Return c s) = Ok ()" if "c \<in> B" for c
    using Return_inv [OF inv that] by auto
  with inv show ?thesis by (auto simp: pool_inv_def conn_open_def)
qed

definition wit_driver :: driver_env where
  "wit_driver = \<lparr>d_open = (\<lambda>n. if n = 0 then Err (External 5) else Ok ()), d_register = (\<lambda>_. Ok ())\<rparr>"

definition wit_pool0 :: SQLitePool where
  "wit_pool0 = snd (NewSQLitePool wit_driver 9 ''db'' 2 True)"

definition wit_pool1 :: SQLitePool where
  "wit_pool1 = snd (Borrow wit_driver wit_pool0)"

definition wit_pool2 :: SQLitePool where
  "wit_pool2 = snd (Borrow wit_driver wit_pool1)"

lemmas wit_pool_defs = wit_pool2_def wit_pool1_def wit_pool0_def wit_driver_def NewSQLitePool_def
  numeral_2_eq_2 alloc_conn_def chan_send_def bindR_def ret_def Borrow_def conn_init_def conn_zero_def
  OpenRaw_def bindE_def Let_def Return_def Dispose_def

lemma wit_pool_reach: "pool_reach wit_driver wit_pool2 {1}"
proof -
  have "pool_reach wit_driver wit_pool0 {}"
    by (rule pool_reach.new [where self = 9 and dns = "''db''" and n = 2 and lazy = True])
      (simp add: wit_pool_defs)
  then have "pool_reach wit_driver wit_pool1 {}"
    by (rule pool_reach.borrow_err [where e = "External 5"]) (simp add: wit_pool_defs)
  then show ?thesis
    by (rule pool_reach.borrow) (simp add: wit_pool_defs)
qed

theorem pool_conserves_connections_witness:
  "length (p_chan wit_pool2) + card {1 :: nat} = p_cap wit_pool2 \<and> p_chan wit_pool2 = [2] \<and>
   fst (Return 1 wit_pool2) = Ok ()"
  using pool_conserves_connections [OF wit_pool_reach] by (simp add: wit_pool_defs)

text \<open>
  C28: \<open>Borrow\<close> waits exactly when every connection is lent out, and an open that fails costs the
  pool nothing: the number of idle connections is what it was, so the next \<open>Borrow\<close> does not
  wait either.
\<close>

theorem borrow_blocks_only_when_exhausted:
  assumes "driver_returns env" and "pool_reach env s B"
  shows "(fst (Borrow env s) = Block \<longleftrightarrow> card B = p_cap s) \<and>
     (\<forall>e t. Borrow env s = (Err e, t) \<longrightarrow>
        length (p_chan t) = length (p_chan s) \<and> fst (Borrow env t) \<noteq> Block)"
proof -
  from assms(2) have inv: "pool_inv s B" by (rule pool_reach_inv)
  have noblock: "fst (Borrow env u) \<noteq> Block" if "pool_inv u B" "card B < p_cap u" for u
    using Borrow_returns [OF assms(1) that] by (auto simp: returns_def)
  have full: "fst (Borrow env s) = Block" if "card B = p_cap s"
  proof -
    from that inv have "p_chan s = []" by (simp add: pool_inv_def)
    then show ?thesis by (simp add: Borrow_def)
  qed
  have "card B \<le> p_cap s" using inv by (simp add: pool_inv_def)
  with noblock [OF inv] full have one: "fst (Borrow env s) = Block \<longleftrightarrow> card B = p_cap s" by linarith
  have "length (p_chan t) = length (p_chan s) \<and> fst (Borrow env t) \<noteq> Block"
    if "Borrow env s = (Err e, t)" for e t
  proof -
    have t: "pool_inv t B" "p_cap t = p_cap s" using Borrow_err_inv [OF inv that] by auto
    have "card B < p_cap t" using one that \<open>card B \<le> p_cap s\<close> t(2) by (auto simp: le_less)
    with noblock [OF t(1)] t inv show ?thesis by (auto simp: pool_inv_def)
  qed
  with one show ?thesis by blast
qed

theorem borrow_blocks_only_when_exhausted_witness:
  "fst (Borrow wit_driver wit_pool2) \<noteq> Block \<and> p_cap wit_pool2 = 2"
proof -
  have d: "driver_returns wit_driver" by (simp add: driver_returns_def wit_driver_def)
  from borrow_blocks_only_when_exhausted [OF d wit_pool_reach] show ?thesis
    by (simp add: wit_pool_defs)
qed

end
