(* ===== verification/SqlStore.thy ===== *)
theory SqlStore
  imports Values
begin

text \<open>
  The SQL the sources write, as a language: tables, the conditions and statements built with
  \<open>goqu\<close> or written out as text (\<open>INSERT OR REPLACE\<close>, the trigger bodies), and what they do.
  Only the statements that occur in \<open>db/*.go\<close> and its two templates are here. Cells hold driver
  values; type affinity is not modelled, \<open>NULL\<close> is (it equals nothing and never conflicts).
  The second half is the abstract view of a table, a map from primary key to row, with the locale
  \<open>keyed_store\<close> of stores whose operations each replace or remove one key.
\<close>

section \<open>Tables and statements\<close>

text \<open>
  \<open>t_keys\<close> are the PRIMARY KEY and UNIQUE constraints, \<open>t_seq\<close> the largest AUTOINCREMENT id
  given out. A table without a declared key has its implicit column \<open>rowid\<close> among \<open>t_cols\<close>.
\<close>

record sqltable =
  t_cols :: "string list"
  t_keys :: "string list list"
  t_seq :: int
  t_rows :: "drow list"

type_synonym sqldb = "string \<rightharpoonup> sqltable"

datatype cond =
    CEq string dval
  | CLte string int
  | CIn string "int list"
  | CIsNull string

fun cond_col :: "cond \<Rightarrow> string" where
  "cond_col (CEq c v) = c"
| "cond_col (CLte c n) = c"
| "cond_col (CIn c ns) = c"
| "cond_col (CIsNull c) = c"

fun sat :: "cond \<Rightarrow> drow \<Rightarrow> bool" where
  "sat (CEq c v) r = (cell r c = v \<and> v \<noteq> DNull)"
| "sat (CLte c n) r = (case cell r c of DInt i \<Rightarrow> i \<le> n | _ \<Rightarrow> False)"
| "sat (CIn c ns) r = (case cell r c of DInt i \<Rightarrow> i \<in> set ns | _ \<Rightarrow> False)"
| "sat (CIsNull c) r = (cell r c = DNull)"

definition sats :: "cond list \<Rightarrow> drow \<Rightarrow> bool" where
  "sats cs r = list_all (\<lambda>c. sat c r) cs"

text \<open>
  \<open>SelectFrom t cols conds order limit\<close>: columns with their aliases, an optional ascending
  order, and a limit where 0 means none (as \<open>goqu\<close>'s \<open>Limit(0)\<close> does).
\<close>

datatype stmt =
    SelectFrom string "(string \<times> string) list" "cond list" "string option" nat
  | CountFrom string
  | DeleteFrom string "cond list"
  | UpdateSet string "(string \<times> dval) list" "cond list"
  | InsertOrReplace string "string list" "dval list"
  | InsertAuto string "(string \<times> dval) list"

datatype sqlres = Rows "drow list" | CountIs int | Affected int | LastInsertRowid int

section \<open>What statements do\<close>

definition int_cell :: "string \<Rightarrow> drow \<Rightarrow> int" where
  "int_cell c r = (case cell r c of DInt i \<Rightarrow> i | _ \<Rightarrow> 0)"

definition order_rows :: "string option \<Rightarrow> drow list \<Rightarrow> drow list" where
  "order_rows ord rows = (case ord of None \<Rightarrow> rows | Some c \<Rightarrow> sort_key (int_cell c) rows)"

definition limit_rows :: "nat \<Rightarrow> 'a list \<Rightarrow> 'a list" where
  "limit_rows n rows = (if n = 0 then rows else take n rows)"

definition project :: "(string \<times> string) list \<Rightarrow> drow \<Rightarrow> drow" where
  "project cols r = map (\<lambda>(c, a). (a, cell r c)) cols"

definition set_cells :: "(string \<times> dval) list \<Rightarrow> drow \<Rightarrow> drow" where
  "set_cells us r = map (\<lambda>(c, v). (c, case map_of us c of None \<Rightarrow> v | Some u \<Rightarrow> u)) r"

text \<open>The row an insert makes: a value for every column of the table, \<open>NULL\<close> where none is given.\<close>

definition full_row :: "string list \<Rightarrow> (string \<times> dval) list \<Rightarrow> drow" where
  "full_row cols given = map (\<lambda>c. (c, cell given c)) cols"

definition key_of :: "string list \<Rightarrow> drow \<Rightarrow> dval list" where
  "key_of ks r = map (cell r) ks"

text \<open>Two rows conflict on a constraint when they agree on its columns and none is \<open>NULL\<close>.\<close>

definition conflicts :: "string list list \<Rightarrow> drow \<Rightarrow> drow \<Rightarrow> bool" where
  "conflicts keys new old =
     list_ex (\<lambda>ks. key_of ks new = key_of ks old \<and> DNull \<notin> set (key_of ks new)) keys"

definition insert_or_replace :: "drow \<Rightarrow> sqltable \<Rightarrow> sqltable" where
  "insert_or_replace new tb =
     tb\<lparr>t_rows := filter (\<lambda>old. \<not> conflicts (t_keys tb) new old) (t_rows tb) @ [new]\<rparr>"

definition delete_where :: "cond list \<Rightarrow> sqltable \<Rightarrow> sqltable" where
  "delete_where cs tb = tb\<lparr>t_rows := filter (\<lambda>r. \<not> sats cs r) (t_rows tb)\<rparr>"

definition update_where :: "(string \<times> dval) list \<Rightarrow> cond list \<Rightarrow> sqltable \<Rightarrow> sqltable" where
  "update_where us cs tb =
     tb\<lparr>t_rows := map (\<lambda>r. if sats cs r then set_cells us r else r) (t_rows tb)\<rparr>"

definition insert_auto :: "(string \<times> dval) list \<Rightarrow> sqltable \<Rightarrow> sqltable" where
  "insert_auto given tb =
     tb\<lparr>t_seq := t_seq tb + 1,
        t_rows := t_rows tb @ [full_row (t_cols tb) ((''id'', DInt (t_seq tb + 1)) # given)]\<rparr>"

definition known :: "string list \<Rightarrow> sqltable \<Rightarrow> bool" where
  "known cs tb = list_all (\<lambda>c. c \<in> set (t_cols tb)) cs"

text \<open>\<open>None\<close>: no such table, or no such column.\<close>

fun sql_sem :: "stmt \<Rightarrow> sqldb \<Rightarrow> (sqlres \<times> sqldb) option" where
  "sql_sem (SelectFrom t cols cs ord n) d =
     (case d t of
        None \<Rightarrow> None
      | Some tb \<Rightarrow>
          if known (map fst cols @ map cond_col cs) tb
          then Some (Rows (map (project cols) (limit_rows n (order_rows ord (filter (sats cs) (t_rows tb))))), d)
          else None)"
| "sql_sem (CountFrom t) d =
     (case d t of None \<Rightarrow> None | Some tb \<Rightarrow> Some (CountIs (int (length (t_rows tb))), d))"
| "sql_sem (DeleteFrom t cs) d =
     (case d t of
        None \<Rightarrow> None
      | Some tb \<Rightarrow>
          if known (map cond_col cs) tb
          then Some (Affected (int (length (filter (sats cs) (t_rows tb)))), d(t \<mapsto> delete_where cs tb))
          else None)"
| "sql_sem (UpdateSet t us cs) d =
     (case d t of
        None \<Rightarrow> None
      | Some tb \<Rightarrow>
          if known (map fst us @ map cond_col cs) tb
          then Some (Affected (int (length (filter (sats cs) (t_rows tb)))), d(t \<mapsto> update_where us cs tb))
          else None)"
| "sql_sem (InsertOrReplace t cols vals) d =
     (case d t of
        None \<Rightarrow> None
      | Some tb \<Rightarrow>
          if known cols tb \<and> length cols = length vals
          then Some (Affected 1, d(t \<mapsto> insert_or_replace (full_row (t_cols tb) (zip cols vals)) tb))
          else None)"
| "sql_sem (InsertAuto t given) d =
     (case d t of
        None \<Rightarrow> None
      | Some tb \<Rightarrow>
          if known (map fst given) tb
          then Some (LastInsertRowid (t_seq tb + 1), d(t \<mapsto> insert_auto given tb))
          else None)"

text \<open>The database after a statement (as it was when the statement fails).\<close>

definition sql_after :: "stmt \<Rightarrow> sqldb \<Rightarrow> sqldb" where
  "sql_after st d = (case sql_sem st d of Some (_, d') \<Rightarrow> d' | None \<Rightarrow> d)"

section \<open>A table as a map from key to row\<close>

definition view :: "string list \<Rightarrow> sqltable \<Rightarrow> dval list \<rightharpoonup> drow" where
  "view pks tb = map_of (map (\<lambda>r. (key_of pks r, r)) (t_rows tb))"

text \<open>A table whose only constraint is its primary key \<open>pks\<close>, with a row per key.\<close>

definition table_wf :: "string list \<Rightarrow> string list \<Rightarrow> sqltable \<Rightarrow> bool" where
  "table_wf pks cols tb \<longleftrightarrow>
     t_keys tb = [pks] \<and> t_cols tb = cols \<and> distinct cols \<and> pks \<noteq> [] \<and> set pks \<subseteq> set cols \<and>
     distinct (map (key_of pks) (t_rows tb)) \<and>
     (\<forall>r \<in> set (t_rows tb). map fst r = cols \<and> DNull \<notin> set (key_of pks r))"

section \<open>Stores with one effect per key\<close>

locale keyed_store =
  fixes look :: "'s \<Rightarrow> 'k \<Rightarrow> 'v option"
    and invar :: "'s \<Rightarrow> bool"
    and step :: "'op \<Rightarrow> 's \<Rightarrow> 's"
    and valid :: "'op \<Rightarrow> bool"
    and key :: "'op \<Rightarrow> 'k"
    and eff :: "'op \<Rightarrow> 'v option"
  assumes step_look: "invar s \<Longrightarrow> valid x \<Longrightarrow> look (step x s) = (look s)(key x := eff x)"
    and step_invar: "invar s \<Longrightarrow> valid x \<Longrightarrow> invar (step x s)"
begin

lemma fold_invar: "invar s \<Longrightarrow> list_all valid xs \<Longrightarrow> invar (fold step xs s)"
  by (induction xs arbitrary: s) (auto intro: step_invar)

text \<open>The last operation on a key decides what is there.\<close>

lemma fold_look:
  "invar s \<Longrightarrow> list_all valid xs \<Longrightarrow>
     look (fold step xs s) k =
       (if filter (\<lambda>x. key x = k) xs = [] then look s k
        else eff (last (filter (\<lambda>x. key x = k) xs)))"
proof (induction xs rule: rev_induct)
  case (snoc x xs)
  then have "look (fold step (xs @ [x]) s) = (look (fold step xs s))(key x := eff x)"
    by (simp add: step_look fold_invar)
  with snoc show ?case by auto
qed simp

text \<open>Runs that agree on each key's operations end alike, whatever the order across keys.\<close>

lemma converge:
  assumes "invar s" and "invar s'" and "look s = look s'" and "list_all valid xs" and "list_all valid ys"
    and "\<And>k. filter (\<lambda>x. key x = k) xs = filter (\<lambda>x. key x = k) ys"
  shows "look (fold step xs s) = look (fold step ys s')"
  by (rule ext) (simp add: fold_look assms)

text \<open>Redelivering the tail of what was already applied changes nothing.\<close>

lemma replay_suffix:
  assumes "invar s" and "list_all valid (xs @ ys)"
  shows "look (fold step (xs @ ys @ ys) s) = look (fold step (xs @ ys) s)"
proof
  fix k
  have *: "list_all valid (xs @ ys @ ys)" using assms(2) by simp
  show "look (fold step (xs @ ys @ ys) s) k = look (fold step (xs @ ys) s) k"
    unfolding fold_look [OF assms(1) *] fold_look [OF assms]
    by (auto simp: last_append)
qed

end

section \<open>Lemmas\<close>

lemma map_fst_full_row [simp]: "map fst (full_row cols g) = cols"
  by (simp add: full_row_def comp_def)

lemma cell_full_row [simp]: "cell (full_row cols g) c = (if c \<in> set cols then cell g c else DNull)"
  by (simp add: full_row_def cell_map_cols cell_map_cols_notin)

lemma key_of_cong: "(\<And>c. c \<in> set ks \<Longrightarrow> cell r c = cell r' c) \<Longrightarrow> key_of ks r = key_of ks r'"
  by (simp add: key_of_def)

lemma key_of_full_row: "set ks \<subseteq> set cols \<Longrightarrow> key_of ks (full_row cols g) = key_of ks g"
  by (intro key_of_cong) auto

lemma conflicts_pk: "conflicts [ks] new old \<longleftrightarrow> key_of ks new = key_of ks old \<and> DNull \<notin> set (key_of ks new)"
  by (simp add: conflicts_def)

lemma view_None_iff: "view pks tb k = None \<longleftrightarrow> k \<notin> key_of pks ` set (t_rows tb)"
  by (simp add: view_def map_of_eq_None_iff image_image)

lemma map_of_filter_keyed:
  "map_of (map (\<lambda>r. (f r, r)) (filter (\<lambda>r. f r \<noteq> k) xs)) = (map_of (map (\<lambda>r. (f r, r)) xs))(k := None)"
  by (induction xs) (auto simp: fun_eq_iff)

text \<open>\<open>INSERT OR REPLACE\<close> refines a map update.\<close>

lemma insert_or_replace_view:
  assumes "table_wf pks cols tb" and "map fst new = cols" and "DNull \<notin> set (key_of pks new)"
  shows "view pks (insert_or_replace new tb) = (view pks tb)(key_of pks new \<mapsto> new)"
    and "table_wf pks cols (insert_or_replace new tb)"
proof -
  have "filter (\<lambda>old. \<not> conflicts (t_keys tb) new old) (t_rows tb)
      = filter (\<lambda>r. key_of pks r \<noteq> key_of pks new) (t_rows tb)"
    using assms by (auto simp: table_wf_def conflicts_pk intro: filter_cong)
  then have rows: "t_rows (insert_or_replace new tb)
      = filter (\<lambda>r. key_of pks r \<noteq> key_of pks new) (t_rows tb) @ [new]"
    by (simp add: insert_or_replace_def)
  show "view pks (insert_or_replace new tb) = (view pks tb)(key_of pks new \<mapsto> new)"
    by (simp add: view_def rows map_of_filter_keyed map_add_def fun_eq_iff split: option.splits)
  show "table_wf pks cols (insert_or_replace new tb)"
    unfolding table_wf_def rows using assms
    by (auto simp: table_wf_def insert_or_replace_def intro: distinct_map_filter)
qed

text \<open>\<open>DELETE\<close> by the whole primary key refines removing it from the map.\<close>

lemma sats_pk: "DNull \<notin> set (map f pks) \<Longrightarrow> sats (map (\<lambda>c. CEq c (f c)) pks) r \<longleftrightarrow> key_of pks r = map f pks"
  by (force simp: sats_def list_all_iff key_of_def)

lemma delete_where_view:
  assumes "table_wf pks cols tb" and "\<And>r. sats cs r \<longleftrightarrow> key_of pks r = k"
  shows "view pks (delete_where cs tb) = (view pks tb)(k := None)"
    and "table_wf pks cols (delete_where cs tb)"
  using assms
  by (auto simp: delete_where_def view_def map_of_filter_keyed table_wf_def intro: distinct_map_filter)

end
