(* ===== verification/History.thy ===== *)
theory History
  imports Prelude
begin

text \<open>
  Histories of changes, abstractly: every change replaces or removes the value of one key, and is kept in one of
  several logs, the same for all changes of a key. Whoever replays the logs, interleaved in any way, from a
  snapshot or after writes of its own, ends with the same values. The locale \<open>keyed_log\<close> is what the proofs about
  replicas rely on; the change-log events with their hash meet it.
\<close>

section \<open>Replaying\<close>

definition replay :: "('e \<Rightarrow> 'k) \<Rightarrow> ('e \<Rightarrow> 'v option) \<Rightarrow> 'e list \<Rightarrow> ('k \<Rightarrow> 'v option) \<Rightarrow> 'k \<Rightarrow> 'v option" where
  "replay key eff es l = fold (\<lambda>e l. l(key e := eff e)) es l"

text \<open>The last change of a key decides.\<close>

lemma replay_eq:
  "replay key eff es l k = (if filter (\<lambda>e. key e = k) es = [] then l k else eff (last (filter (\<lambda>e. key e = k) es)))"
  unfolding replay_def by (induction es arbitrary: l rule: rev_induct) auto

lemma replay_other: "(\<forall>e\<in>set es. key e \<noteq> k) \<Longrightarrow> replay key eff (hs @ es) l k = replay key eff hs l k"
  by (auto simp: replay_eq filter_empty_conv)

definition log_part :: "('e \<Rightarrow> 's) \<Rightarrow> 's \<Rightarrow> 'e list \<Rightarrow> 'e list" where
  "log_part shard i es = filter (\<lambda>e. shard e = i) es"

lemma log_part_append: "log_part shard i (xs @ ys) = log_part shard i xs @ log_part shard i ys"
  by (simp add: log_part_def)

text \<open>
  \<open>hs\<close> is a whole history. On every log \<open>xs\<close> is what was replayed up to some point, and \<open>ys\<close> is
  everything from some point on, which is not after the first.
\<close>

definition overlap :: "('e \<Rightarrow> 's) \<Rightarrow> 'e list \<Rightarrow> 'e list \<Rightarrow> 'e list \<Rightarrow> bool" where
  "overlap shard xs ys hs \<longleftrightarrow>
     (\<forall>i. \<exists>k j. k \<le> j \<and> log_part shard i xs = take j (log_part shard i hs) \<and> log_part shard i ys = drop k (log_part shard i hs))"

lemma overlap_subset:
  assumes "overlap shard xs ys hs" shows "set xs \<subseteq> set hs" "set ys \<subseteq> set hs"
proof -
  have in_part: "e \<in> set zs \<longleftrightarrow> e \<in> set (log_part shard (shard e) zs)" for e zs by (simp add: log_part_def)
  have "set (log_part shard i xs) \<subseteq> set (log_part shard i hs)" "set (log_part shard i ys) \<subseteq> set (log_part shard i hs)" for i
    using assms unfolding overlap_def by (metis set_take_subset) (metis assms overlap_def set_drop_subset)
  then show "set xs \<subseteq> set hs" "set ys \<subseteq> set hs" using in_part by blast+
qed

text \<open>
  The value \<open>l\<close> of a replica, with changes \<open>pend\<close> of its own that are not in the logs yet, which has come to position
  \<open>pos i\<close> of log \<open>ix i\<close>: a key is settled once no change of its own waits for it and no change of it is still to be
  replayed; then it has the value the history leaves.
\<close>

definition key_settles ::
  "('e \<Rightarrow> 'k) \<Rightarrow> ('e \<Rightarrow> 'v option) \<Rightarrow> ('e \<Rightarrow> 's) \<Rightarrow> ('i \<Rightarrow> 's) \<Rightarrow> 'e list \<Rightarrow> ('k \<Rightarrow> 'v option) \<Rightarrow> 'e list \<Rightarrow> ('i \<Rightarrow> nat) \<Rightarrow> ('k \<Rightarrow> 'v option) \<Rightarrow> bool" where
  "key_settles key eff shard ix hs l0 pend pos l \<longleftrightarrow>
     (\<forall>k. (\<forall>e\<in>set pend. key e \<noteq> k) \<and> (\<forall>i. \<forall>e\<in>set (drop (pos i) (log_part shard (ix i) hs)). key e \<noteq> k) \<longrightarrow>
        l k = replay key eff hs l0 k)"

lemma key_settles_write:
  "key_settles key eff shard ix hs l0 pend pos l \<Longrightarrow> key_settles key eff shard ix hs l0 (pend @ [e]) pos (l(key e := v))"
  by (auto simp: key_settles_def)

lemma key_settles_publish:
  assumes st: "key_settles key eff shard ix hs l0 pend pos l" and pos: "\<And>i. pos i \<le> length (log_part shard (ix i) hs)"
    and sh: "\<forall>e\<in>set es. \<exists>i. shard e = ix i" and sub: "set pend \<subseteq> set es \<union> set pend'"
  shows "key_settles key eff shard ix (hs @ es) l0 pend' pos l"
  unfolding key_settles_def
proof (intro allI impI)
  fix k
  have part: "drop (pos i) (log_part shard (ix i) (hs @ es)) = drop (pos i) (log_part shard (ix i) hs) @ log_part shard (ix i) es" for i
    using pos [of i] by (simp add: log_part_def)
  assume a: "(\<forall>e\<in>set pend'. key e \<noteq> k) \<and> (\<forall>i. \<forall>e\<in>set (drop (pos i) (log_part shard (ix i) (hs @ es))). key e \<noteq> k)"
  then have d: "key e \<noteq> k" if "e \<in> set (drop (pos i) (log_part shard (ix i) hs)) \<union> set (log_part shard (ix i) es)" for i e
    using that unfolding part by auto
  have es: "key e \<noteq> k" if e: "e \<in> set es" for e
  proof -
    from e sh obtain i where "shard e = ix i" by blast
    with e have "e \<in> set (log_part shard (ix i) es)" by (simp add: log_part_def)
    with d [of e i] show ?thesis by blast
  qed
  with a sub have "\<forall>e\<in>set pend. key e \<noteq> k" by blast
  with st d have "l k = replay key eff hs l0 k" unfolding key_settles_def by blast
  with es show "l k = replay key eff (hs @ es) l0 k" by (subst replay_other) simp_all
qed

lemma settled:
  assumes "key_settles key eff shard ix hs l0 [] pos l" and "\<And>i. pos i = length (log_part shard (ix i) hs)"
  shows "l = replay key eff hs l0"
  using assms by (intro ext) (simp add: key_settles_def)

section \<open>Logs by key\<close>

locale keyed_log =
  fixes key :: "'e \<Rightarrow> 'k"
    and eff :: "'e \<Rightarrow> 'v option"
    and shard :: "'e \<Rightarrow> 's"
    and valid :: "'e \<Rightarrow> bool"
  assumes same_shard: "valid a \<Longrightarrow> valid b \<Longrightarrow> key a = key b \<Longrightarrow> shard a = shard b"
begin

text \<open>All changes of a key are in the log of any of them.\<close>

lemma key_part:
  assumes "e \<in> set hs" and "list_all valid hs" and "set zs \<subseteq> set hs"
  shows "filter (\<lambda>x. key x = key e) zs = filter (\<lambda>x. key x = key e) (log_part shard (shard e) zs)"
proof -
  have "shard x = shard e" if "x \<in> set zs" "key x = key e" for x
    using that assms same_shard [of x e] by (auto simp: list_all_iff)
  then show ?thesis unfolding log_part_def by (intro filter_filter_eq [symmetric]) auto
qed

text \<open>Replicas that have replayed the same logs agree, however they interleaved them.\<close>

lemma replay_same_parts:
  assumes "list_all valid xs" and "list_all valid ys" and "\<And>i. log_part shard i xs = log_part shard i ys"
  shows "replay key eff xs l = replay key eff ys l"
proof
  fix k
  have in_part: "e \<in> set zs \<longleftrightarrow> e \<in> set (log_part shard (shard e) zs)" for e zs by (simp add: log_part_def)
  have same: "set xs = set ys" using in_part [of _ xs] in_part [of _ ys] assms(3) by auto
  have "filter (\<lambda>e. key e = k) xs = filter (\<lambda>e. key e = k) ys"
  proof (cases "\<exists>e\<in>set xs. key e = k")
    case False
    with same show ?thesis by (auto simp: filter_empty_conv)
  next
    case True
    then obtain e where e: "e \<in> set xs" "key e = k" by blast
    with key_part [OF e(1) assms(1), of xs] key_part [OF e(1) assms(1), of ys] same assms(3) [of "shard e"] show ?thesis by simp
  qed
  then show "replay key eff xs l k = replay key eff ys l k" by (simp add: replay_eq)
qed

text \<open>Replaying the second part on top of the first leaves what the whole history leaves.\<close>

lemma replay_overlap:
  assumes val: "list_all valid hs" and ov: "overlap shard xs ys hs"
  shows "replay key eff ys (replay key eff xs l) = replay key eff hs l"
proof
  fix k
  let ?P = "\<lambda>e. key e = k"
  note sub = overlap_subset [OF ov]
  show "replay key eff ys (replay key eff xs l) k = replay key eff hs l k"
  proof (cases "\<exists>e\<in>set hs. ?P e")
    case False
    with sub have "filter ?P xs = []" "filter ?P ys = []" "filter ?P hs = []" by (auto simp: filter_empty_conv)
    then show ?thesis by (simp add: replay_eq)
  next
    case True
    then obtain e where e: "e \<in> set hs" "?P e" by blast
    let ?H = "log_part shard (shard e) hs"
    note part = key_part [OF e(1) val, unfolded e(2)]
    from ov obtain i j where ij: "i \<le> j" "log_part shard (shard e) xs = take j ?H" "log_part shard (shard e) ys = drop i ?H"
      unfolding overlap_def by blast
    have f: "filter ?P xs = filter ?P (take j ?H)" "filter ?P ys = filter ?P (drop i ?H)" "filter ?P hs = filter ?P (take i ?H) @ filter ?P (drop i ?H)"
      using part [OF sub(1)] part [OF sub(2)] part [OF order_refl] ij by (simp_all add: filter_append [symmetric])
    have "filter ?P (take j ?H) = filter ?P (take i ?H)" if none: "filter ?P (drop i ?H) = []"
    proof -
      have "take j ?H = take i ?H @ take (j - i) (drop i ?H)" using ij(1) by (metis le_add_diff_inverse take_add)
      moreover have "filter ?P (take (j - i) (drop i ?H)) = []" using none by (auto simp: filter_empty_conv dest: in_set_takeD)
      ultimately show ?thesis by simp
    qed
    then show ?thesis unfolding replay_eq f by (auto simp: last_append)
  qed
qed

text \<open>A replica that replays the next change of a log.\<close>

lemma key_settles_receive:
  assumes st: "key_settles key eff shard ix hs l0 pend pos l" and val: "list_all valid hs"
    and s: "pos s < length (log_part shard (ix s) hs)" and e: "e = log_part shard (ix s) hs ! pos s"
  shows "key_settles key eff shard ix hs l0 pend (pos(s := Suc (pos s))) (l(key e := eff e))"
  unfolding key_settles_def
proof (intro allI impI)
  fix k
  let ?H = "log_part shard (ix s) hs"
  have dr: "drop (pos s) ?H = e # drop (Suc (pos s)) ?H" using s e by (simp add: Cons_nth_drop_Suc)
  assume a: "(\<forall>e\<in>set pend. key e \<noteq> k) \<and> (\<forall>i. \<forall>e\<in>set (drop ((pos(s := Suc (pos s))) i) (log_part shard (ix i) hs)). key e \<noteq> k)"
  then have rest: "\<forall>x\<in>set (drop (Suc (pos s)) ?H). key x \<noteq> k" by (metis fun_upd_same)
  show "(l(key e := eff e)) k = replay key eff hs l0 k"
  proof (cases "key e = k")
    case False
    have "\<forall>x\<in>set (drop (pos i) (log_part shard (ix i) hs)). key x \<noteq> k" for i
      using a False dr rest by (cases "i = s") (auto split: if_splits)
    with a st have "l k = replay key eff hs l0 k" unfolding key_settles_def by blast
    with False show ?thesis by simp
  next
    case True
    have eH: "e \<in> set hs" "shard e = ix s" using e nth_mem [OF s] by (auto simp: log_part_def)
    have "filter (\<lambda>x. key x = k) hs = filter (\<lambda>x. key x = k) ?H"
      using key_part [OF eH(1) val order_refl] eH(2) True by simp
    also have "\<dots> = filter (\<lambda>x. key x = k) (take (pos s) ?H) @ filter (\<lambda>x. key x = k) (e # drop (Suc (pos s)) ?H)"
      by (metis append_take_drop_id dr filter_append)
    also have "filter (\<lambda>x. key x = k) (e # drop (Suc (pos s)) ?H) = [e]"
      using True rest by (auto simp: filter_empty_conv)
    finally show ?thesis using True by (simp add: replay_eq)
  qed
qed

end

end
