(* ===== verification/StreamDB.thy ===== *)
theory StreamDB
  imports Event Pool SqlStore
begin

text \<open>
  \<open>SqliteStreamDB\<close> of \<open>db/sqlite.go\<close> and the way its methods reach the database: borrow a
  connection, run statements, maybe inside a transaction. \<open>db_env\<close> is what is outside: how the
  driver opens databases, and which statements fail (\<open>e_fault n\<close> for the \<open>n\<close>-th call). A
  statement that fails leaves the database as it was; a transaction that fails is rolled back.
\<close>

section \<open>State\<close>

text \<open>
  \<open>sd_schema\<close> is \<open>watchTablesSchema\<close> (in the order a \<open>range\<close> over it takes), \<open>sd_db\<close> the
  database file, \<open>sd_tick\<close> counts the calls to the driver, \<open>sd_published\<close> and
  \<open>sd_pendingPublish\<close> are the two statistics the publisher writes, \<open>sd_ext\<close> is the state the
  \<open>OnChange\<close> callback works on (the replicator's).
\<close>

record 'x StreamDB =
  sd_prefix :: string
  sd_schema :: "(string \<times> ColumnInfo list) list"
  sd_publishLock :: bool
  sd_pool :: SQLitePool
  sd_db :: sqldb
  sd_tick :: nat
  sd_published :: nat
  sd_pendingPublish :: int
  sd_ext :: 'x

record db_env =
  e_driver :: driver_env
  e_fault :: "nat \<Rightarrow> go_error option"

definition MarmotPrefix :: string where
  "MarmotPrefix = ''__marmot__''"

section \<open>Running statements\<close>

definition drv_call :: "db_env \<Rightarrow> ('x StreamDB, unit) prog" where
  "drv_call env w =
     ((case e_fault env (sd_tick w) of Some e \<Rightarrow> Err e | None \<Rightarrow> Ok ()), w\<lparr>sd_tick := Suc (sd_tick w)\<rparr>)"

definition exec :: "db_env \<Rightarrow> stmt \<Rightarrow> ('x StreamDB, sqlres) prog" where
  "exec env st = bindR (drv_call env) (\<lambda>_ w.
     case sql_sem st (sd_db w) of
       None \<Rightarrow> (Err (Errorf ''no such table or column''), w)
     | Some (r, d) \<Rightarrow> (Ok r, w\<lparr>sd_db := d\<rparr>))"

text \<open>\<open>goqu\<close>'s \<open>WithTx\<close>: begin, the body, commit; rolled back on an error or a panic.\<close>

definition with_tx :: "db_env \<Rightarrow> ('x StreamDB, 'a) prog \<Rightarrow> ('x StreamDB, 'a) prog" where
  "with_tx env body = bindR (drv_call env) (\<lambda>_ w.
     case body w of
       (Ok a, w1) \<Rightarrow>
         (case drv_call env w1 of
            (Ok _, w2) \<Rightarrow> (Ok a, w2)
          | (Err e, w2) \<Rightarrow> (Err e, w2\<lparr>sd_db := sd_db w\<rparr>)
          | (Panic p, w2) \<Rightarrow> (Panic p, w2\<lparr>sd_db := sd_db w\<rparr>)
          | (Block, w2) \<Rightarrow> (Block, w2))
     | (Err e, w1) \<Rightarrow> (Err e, w1\<lparr>sd_db := sd_db w\<rparr>)
     | (Panic p, w1) \<Rightarrow> (Panic p, w1\<lparr>sd_db := sd_db w\<rparr>)
     | (Block, w1) \<Rightarrow> (Block, w1))"

definition db_borrow :: "db_env \<Rightarrow> ('x StreamDB, nat) prog" where
  "db_borrow env w = (case Borrow (e_driver env) (sd_pool w) of (r, p) \<Rightarrow> (r, w\<lparr>sd_pool := p\<rparr>))"

definition db_giveback :: "nat \<Rightarrow> ('x StreamDB, unit) prog" where
  "db_giveback c w = (case Return c (sd_pool w) of (r, p) \<Rightarrow> (r, w\<lparr>sd_pool := p\<rparr>))"

definition borrow_conn :: "db_env \<Rightarrow> ('x StreamDB, 'a) prog \<Rightarrow> ('x StreamDB, 'a) prog" where
  "borrow_conn env body = with_conn (db_borrow env) db_giveback (\<lambda>_. body)"

text \<open>A connection is free and the pool is sound, with \<open>B\<close> lent out.\<close>

definition db_ready :: "db_env \<Rightarrow> 'x StreamDB \<Rightarrow> nat set \<Rightarrow> bool" where
  "db_ready env w B \<longleftrightarrow>
     driver_returns (e_driver env) \<and> pool_inv (sd_pool w) B \<and> card B < p_cap (sd_pool w)"

section \<open>Lemmas\<close>

interpretation sdp: conn_pool "db_borrow env" db_giveback
  "\<lambda>w B. driver_returns (e_driver env) \<and> pool_inv (sd_pool w) B" "\<lambda>w. p_cap (sd_pool w)" for env
proof unfold_locales
  fix s :: "'a StreamDB" and B c
  assume "driver_returns (e_driver env) \<and> pool_inv (sd_pool s) B" and "c \<in> B"
  with Return_inv [of "sd_pool s" B c]
  show "\<exists>t. db_giveback c s = (Ok (), t) \<and> (driver_returns (e_driver env) \<and> pool_inv (sd_pool t) (B - {c})) \<and>
     p_cap (sd_pool t) = p_cap (sd_pool s)"
    by (auto simp: db_giveback_def)
qed (auto simp: db_borrow_def dest: pool_inv_finite Borrow_inv Borrow_err_inv split: prod.splits
    intro: Borrow_returnsD)

text \<open>
  Almost every method touches the pool only to borrow. For a body that does not look at it,
  borrowing changes nothing but the pool, or fails and changes nothing else.
\<close>

definition pool_free :: "('x StreamDB, 'a) prog \<Rightarrow> bool" where
  "pool_free body \<longleftrightarrow>
     (\<forall>w p. body (w\<lparr>sd_pool := p\<rparr>) = (fst (body w), (snd (body w))\<lparr>sd_pool := p\<rparr>))"

lemma pool_freeD: "pool_free body \<Longrightarrow> body (w\<lparr>sd_pool := p\<rparr>) = (fst (body w), (snd (body w))\<lparr>sd_pool := p\<rparr>)"
  by (simp add: pool_free_def)

lemma pool_free_ret [simp]: "pool_free (ret a)"
  by (simp add: pool_free_def ret_def)

lemma pool_free_lift_res [simp]: "pool_free (lift_res r)"
  by (simp add: pool_free_def lift_res_def)

lemma pool_free_drv_call [simp]: "pool_free (drv_call env)"
  by (simp add: pool_free_def drv_call_def)

lemma pool_free_bindR:
  assumes "pool_free f" and "\<And>a. pool_free (k a)"
  shows "pool_free (bindR f k)"
  unfolding pool_free_def
proof (intro allI)
  fix w p
  show "bindR f k (w\<lparr>sd_pool := p\<rparr>) = (fst (bindR f k w), (snd (bindR f k w))\<lparr>sd_pool := p\<rparr>)"
    by (cases "f w"; cases "fst (f w)")
      (simp_all add: bindR_def pool_freeD [OF assms(1)] pool_freeD [OF assms(2)])
qed

lemma pool_free_exec [simp]: "pool_free (exec env st)"
  unfolding exec_def
  by (intro pool_free_bindR pool_free_drv_call) (auto simp: pool_free_def split: option.splits prod.splits)

lemma pool_free_with_tx:
  assumes "pool_free body" shows "pool_free (with_tx env body)"
  unfolding with_tx_def
proof (intro pool_free_bindR pool_free_drv_call)
  fix u :: unit
  show "pool_free (\<lambda>w. case body w of
       (Ok a, w1) \<Rightarrow>
         (case drv_call env w1 of
            (Ok _, w2) \<Rightarrow> (Ok a, w2)
          | (Err e, w2) \<Rightarrow> (Err e, w2\<lparr>sd_db := sd_db w\<rparr>)
          | (Panic p, w2) \<Rightarrow> (Panic p, w2\<lparr>sd_db := sd_db w\<rparr>)
          | (Block, w2) \<Rightarrow> (Block, w2))
     | (Err e, w1) \<Rightarrow> (Err e, w1\<lparr>sd_db := sd_db w\<rparr>)
     | (Panic p, w1) \<Rightarrow> (Panic p, w1\<lparr>sd_db := sd_db w\<rparr>)
     | (Block, w1) \<Rightarrow> (Block, w1))"
    by (auto simp: pool_free_def pool_freeD [OF assms] drv_call_def split: prod.splits res.splits)
qed

text \<open>The outcome of a method that borrows: the body's, or an error with no other effect.\<close>

lemma borrow_conn_cases:
  assumes rdy: "db_ready env w B" and pf: "pool_free body" and nb: "fst (body w) \<noteq> Block"
  obtains p where "pool_inv p B" "p_cap p = p_cap (sd_pool w)"
      "borrow_conn env body w = (fst (body w), (snd (body w))\<lparr>sd_pool := p\<rparr>)"
  | e p where "pool_inv p B" "p_cap p = p_cap (sd_pool w)"
      "borrow_conn env body w = (Err e, w\<lparr>sd_pool := p\<rparr>)"
proof -
  obtain r p where b: "Borrow (e_driver env) (sd_pool w) = (r, p)"
    by (cases "Borrow (e_driver env) (sd_pool w)")
  from rdy have inv: "pool_inv (sd_pool w) B" by (simp add: db_ready_def)
  have "returns r"
    using Borrow_returns [of "e_driver env" "sd_pool w" B] rdy b by (simp add: db_ready_def)
  then show ?thesis
  proof (cases rule: returnsE)
    case (1 c)
    with Borrow_inv [OF inv] b have c: "c \<notin> B" "pool_inv p (insert c B)" "p_cap p = p_cap (sd_pool w)"
      by auto
    from Return_inv [OF c(2)] obtain q where q: "Return c p = (Ok (), q)"
      "pool_inv q (insert c B - {c})" "p_cap q = p_cap p" by blast
    have "pool_inv q B" using q(2) c(1) by (simp add: insert_Diff_if)
    moreover have "borrow_conn env body w = (fst (body w), (snd (body w))\<lparr>sd_pool := q\<rparr>)"
      using nb by (cases "fst (body w)")
        (simp_all add: borrow_conn_def with_conn_def db_borrow_def b 1 pool_freeD [OF pf] db_giveback_def q(1))
    ultimately show ?thesis using that(1) q(3) c(3) by simp
  next
    case (2 e)
    with Borrow_err_inv [OF inv] b that(2) [of p e] show ?thesis
      by (simp add: borrow_conn_def with_conn_def db_borrow_def)
  qed
qed

text \<open>Without faults: every database opens, no call to the driver fails.\<close>

definition healthy :: "db_env \<Rightarrow> bool" where
  "healthy env \<longleftrightarrow> driver_healthy (e_driver env) \<and> (\<forall>n. e_fault env n = None)"

lemma borrow_conn_healthy:
  assumes h: "healthy env" and rdy: "db_ready env w B" and pf: "pool_free body"
    and nb: "fst (body w) \<noteq> Block"
  shows "\<exists>p. pool_inv p B \<and> p_cap p = p_cap (sd_pool w) \<and>
     borrow_conn env body w = (fst (body w), (snd (body w))\<lparr>sd_pool := p\<rparr>)"
proof -
  from h rdy have "driver_healthy (e_driver env)" and inv: "pool_inv (sd_pool w) B"
    and room: "card B < p_cap (sd_pool w)" by (simp_all add: healthy_def db_ready_def)
  from Borrow_healthy [OF this] obtain c p where b: "Borrow (e_driver env) (sd_pool w) = (Ok c, p)"
    by blast
  with Borrow_inv [OF inv] have c: "c \<notin> B" "pool_inv p (insert c B)" "p_cap p = p_cap (sd_pool w)"
    by auto
  from Return_inv [OF c(2)] obtain q where q: "Return c p = (Ok (), q)"
    "pool_inv q (insert c B - {c})" "p_cap q = p_cap p" by blast
  have "pool_inv q B" using q(2) c(1) by (simp add: insert_Diff_if)
  moreover have "borrow_conn env body w = (fst (body w), (snd (body w))\<lparr>sd_pool := q\<rparr>)"
    using nb by (cases "fst (body w)")
      (simp_all add: borrow_conn_def with_conn_def db_borrow_def b pool_freeD [OF pf] db_giveback_def q(1))
  ultimately show ?thesis using q(3) c(3) by auto
qed

lemma borrow_conn_outcome:
  assumes "db_ready env w B" and "pool_free body" and "fst (body w) \<noteq> Block"
  shows "\<exists>p. pool_inv p B \<and> p_cap p = p_cap (sd_pool w) \<and>
     (borrow_conn env body w = (fst (body w), (snd (body w))\<lparr>sd_pool := p\<rparr>) \<or>
      (\<exists>e. borrow_conn env body w = (Err e, w\<lparr>sd_pool := p\<rparr>)) \<and> \<not> healthy env)"
  using borrow_conn_healthy [OF _ assms] borrow_conn_cases [OF assms] by metis

lemma exec_cases:
  obtains e where "exec env st w = (Err e, w\<lparr>sd_tick := Suc (sd_tick w)\<rparr>)"
  | r d where "sql_sem st (sd_db w) = Some (r, d)"
      "exec env st w = (Ok r, w\<lparr>sd_tick := Suc (sd_tick w), sd_db := d\<rparr>)"
  by (cases "e_fault env (sd_tick w)"; cases "sql_sem st (sd_db w)")
    (auto simp: exec_def bindR_def drv_call_def)

lemma exec_not_abnormal [simp]: "fst (exec env st w) \<noteq> Panic p" "fst (exec env st w) \<noteq> Block"
  by (rule exec_cases [of env st w]; simp)+

lemma exec_no_fault:
  "e_fault env (sd_tick w) = None \<Longrightarrow> sql_sem st (sd_db w) = Some (r, d) \<Longrightarrow>
     exec env st w = (Ok r, w\<lparr>sd_tick := Suc (sd_tick w), sd_db := d\<rparr>)"
  by (simp add: exec_def bindR_def drv_call_def)

text \<open>A body that only changes the database (and the call counter).\<close>

definition db_only :: "('x StreamDB, 'a) prog \<Rightarrow> bool" where
  "db_only body \<longleftrightarrow> (\<forall>w. \<exists>t d. snd (body w) = w\<lparr>sd_tick := t, sd_db := d\<rparr>)"

lemma db_onlyI: "(\<And>w. \<exists>t d. snd (body w) = w\<lparr>sd_tick := t, sd_db := d\<rparr>) \<Longrightarrow> db_only body"
  by (simp add: db_only_def)

lemma db_onlyD: "db_only body \<Longrightarrow> body w = (r, w') \<Longrightarrow> \<exists>t d. w' = w\<lparr>sd_tick := t, sd_db := d\<rparr>"
  unfolding db_only_def by (metis snd_conv)

lemma db_only_ret [simp]: "db_only (ret a :: ('x StreamDB, 'a) prog)"
proof (rule db_onlyI)
  fix w :: "'x StreamDB"
  have "snd (ret a w) = w\<lparr>sd_tick := sd_tick w, sd_db := sd_db w\<rparr>" by (simp add: ret_def)
  then show "\<exists>t d. snd (ret a w) = w\<lparr>sd_tick := t, sd_db := d\<rparr>" by blast
qed

lemma db_only_exec [simp]: "db_only (exec env st)"
proof (rule db_onlyI)
  fix w :: "'a StreamDB"
  show "\<exists>t d. snd (exec env st w) = w\<lparr>sd_tick := t, sd_db := d\<rparr>"
  proof (rule exec_cases [of env st w])
    fix e assume "exec env st w = (Err e, w\<lparr>sd_tick := Suc (sd_tick w)\<rparr>)"
    then have "snd (exec env st w) = w\<lparr>sd_tick := Suc (sd_tick w), sd_db := sd_db w\<rparr>" by simp
    then show ?thesis by blast
  qed auto
qed

lemma db_only_bindR:
  assumes "db_only f" and "\<And>a. db_only (k a)"
  shows "db_only (bindR f k)"
proof (rule db_onlyI)
  fix w
  obtain r w1 where f: "f w = (r, w1)" by (cases "f w")
  from db_onlyD [OF assms(1) f] obtain t d where w1: "w1 = w\<lparr>sd_tick := t, sd_db := d\<rparr>" by blast
  show "\<exists>t d. snd (bindR f k w) = w\<lparr>sd_tick := t, sd_db := d\<rparr>"
  proof (cases r)
    case (Ok a)
    obtain r2 w2 where k: "k a w1 = (r2, w2)" by (cases "k a w1")
    from db_onlyD [OF assms(2) k] w1 k show ?thesis
      by (auto simp: bindR_def f Ok)
  qed (auto simp: bindR_def f w1)
qed

text \<open>A transaction commits its body's effect or leaves the database alone.\<close>

lemma with_tx_cases:
  assumes ret: "\<And>w. returns (fst (body w))" and only: "db_only body"
  obtains a t d where "body (w\<lparr>sd_tick := Suc (sd_tick w)\<rparr>) = (Ok a, w\<lparr>sd_tick := t, sd_db := d\<rparr>)"
      "with_tx env body w = (Ok a, w\<lparr>sd_tick := Suc t, sd_db := d\<rparr>)"
  | e t where "with_tx env body w = (Err e, w\<lparr>sd_tick := t\<rparr>)"
proof (cases "e_fault env (sd_tick w)")
  case (Some e)
  then show ?thesis
    by (intro that(2) [of e "Suc (sd_tick w)"]) (simp add: with_tx_def bindR_def drv_call_def)
next
  case no: None
  let ?w = "w\<lparr>sd_tick := Suc (sd_tick w)\<rparr>"
  obtain r w1 where b: "body ?w = (r, w1)" by (cases "body ?w")
  from db_onlyD [OF only b] obtain t d where w1: "w1 = w\<lparr>sd_tick := t, sd_db := d\<rparr>" by auto
  have "returns r" using ret [of ?w] b by simp
  then show ?thesis
  proof (cases rule: returnsE)
    case (1 a)
    show ?thesis
    proof (cases "e_fault env t")
      case None
      with no b 1 w1 show ?thesis
        by (intro that(1) [of a d t]) (simp_all add: with_tx_def bindR_def drv_call_def)
    next
      case (Some e)
      with no b 1 w1 show ?thesis
        by (intro that(2) [of e "Suc t"]) (simp add: with_tx_def bindR_def drv_call_def)
    qed
  next
    case (2 e)
    with no b w1 show ?thesis
      by (intro that(2) [of e t]) (simp add: with_tx_def bindR_def drv_call_def)
  qed
qed

lemma with_tx_no_fault:
  assumes "e_fault env (sd_tick w) = None"
    and "body (w\<lparr>sd_tick := Suc (sd_tick w)\<rparr>) = (Ok a, w1)" and "e_fault env (sd_tick w1) = None"
  shows "with_tx env body w = (Ok a, w1\<lparr>sd_tick := Suc (sd_tick w1)\<rparr>)"
  using assms by (simp add: with_tx_def bindR_def drv_call_def)

end
