(* ===== verification/Replicate.thy ===== *)
theory Replicate
  imports StreamDB
begin

text \<open>
  The receiving half of \<open>db/change_log.go\<close>: \<open>Replicate\<close> applies one change to the local
  database, as an \<open>INSERT OR REPLACE\<close> or a \<open>DELETE\<close> by primary key, in a transaction. The
  abstract specification is a map from (table, primary key) to row; the refinement lemmas show
  that a change replaces or removes exactly its own key.
\<close>

section \<open>Operations\<close>

definition getPrimaryKeyMap :: "'x StreamDB \<Rightarrow> ChangeLogEvent \<Rightarrow> (string \<times> goval) list option" where
  "getPrimaryKeyMap w event =
     (case map_of (sd_schema w) (ev_TableName event) of
        None \<Rightarrow> None
      | Some tableColsSchema \<Rightarrow>
          Some (map (\<lambda>col. (ci_Name col, row_get (ev_Row event) (ci_Name col)))
                 (filter ci_IsPrimaryKey tableColsSchema)))"

text \<open>The WHERE clause \<open>goqu.Ex\<close> makes of a map: nil becomes \<open>IS NULL\<close>.\<close>

fun ex_conds :: "(string \<times> goval) list \<Rightarrow> cond list res" where
  "ex_conds [] = Ok []"
| "ex_conds ((k, v) # kvs) =
     bindE (to_driver v) (\<lambda>d. bindE (ex_conds kvs) (\<lambda>cs.
       Ok ((if d = DNull then CIsNull k else CEq k d) # cs)))"

text \<open>
  Without a column the statement text is \<open>INSERT OR REPLACE INTO t() VALUES ()\<close>, which does not
  parse. The first call to the driver is \<open>Prepare\<close>.
\<close>

definition replicateUpsert ::
  "db_env \<Rightarrow> ChangeLogEvent \<Rightarrow> (string \<times> goval) list \<Rightarrow> ('x StreamDB, unit) prog" where
  "replicateUpsert env event _ =
     (let columnNames = map fst (ev_Row event); columnValues = map snd (ev_Row event) in
      bindR (drv_call env) (\<lambda>_.
      bindR (lift_res (if columnNames = [] then Err (Errorf ''syntax error'') else Ok ())) (\<lambda>_.
      bindR (lift_res (to_drivers columnValues)) (\<lambda>args.
      bindR (exec env (InsertOrReplace (ev_TableName event) columnNames args)) (\<lambda>_.
        ret ())))))"

definition replicateDelete ::
  "db_env \<Rightarrow> ChangeLogEvent \<Rightarrow> (string \<times> goval) list \<Rightarrow> ('x StreamDB, unit) prog" where
  "replicateDelete env event pkMap =
     bindR (lift_res (ex_conds pkMap)) (\<lambda>cs.
     bindR (exec env (DeleteFrom (ev_TableName event) cs)) (\<lambda>_. ret ()))"

definition replicateRow ::
  "db_env \<Rightarrow> ChangeLogEvent \<Rightarrow> (string \<times> goval) list \<Rightarrow> ('x StreamDB, unit) prog" where
  "replicateRow env event pkMap =
     (if ev_Type event = ''insert'' \<or> ev_Type event = ''update'' then replicateUpsert env event pkMap
      else if ev_Type event = ''delete'' then replicateDelete env event pkMap
      else lift_res (Err (Errorf (''invalid operation type '' @ ev_Type event))))"

definition consumeReplicationEvent :: "db_env \<Rightarrow> ChangeLogEvent \<Rightarrow> ('x StreamDB, unit) prog" where
  "consumeReplicationEvent env event =
     borrow_conn env (with_tx env (\<lambda>w.
       case getPrimaryKeyMap w event of
         None \<Rightarrow> (Err ErrNoTableMapping, w)
       | Some primaryKeyMap \<Rightarrow> replicateRow env event primaryKeyMap w))"

definition Replicate :: "db_env \<Rightarrow> ChangeLogEvent \<Rightarrow> ('x StreamDB, unit) prog" where
  "Replicate env event = bindR (consumeReplicationEvent env event) (\<lambda>_. ret ())"

section \<open>The abstract store\<close>

type_synonym schema = "(string \<times> ColumnInfo list) list"

text \<open>The columns of an event's row as the driver gets them (for rows it accepts).\<close>

definition driver_row :: "gorow \<Rightarrow> drow" where
  "driver_row r = map (\<lambda>(k, v). (k, case to_driver v of Ok d \<Rightarrow> d | _ \<Rightarrow> DNull)) r"

definition pks_in :: "schema \<Rightarrow> string \<Rightarrow> string list" where
  "pks_in sch t = (case map_of sch t of None \<Rightarrow> [] | Some info \<Rightarrow> pk_names info)"

definition cols_in :: "schema \<Rightarrow> string \<Rightarrow> string list" where
  "cols_in sch t = (case map_of sch t of None \<Rightarrow> [] | Some info \<Rightarrow> map ci_Name info)"

text \<open>What identifies the row a change is about: the table and the primary-key values.\<close>

definition ev_key :: "schema \<Rightarrow> ChangeLogEvent \<Rightarrow> string \<times> dval list" where
  "ev_key sch e = (ev_TableName e, key_of (pks_in sch (ev_TableName e)) (driver_row (ev_Row e)))"

text \<open>What a change leaves at its key.\<close>

definition ev_effect :: "schema \<Rightarrow> ChangeLogEvent \<Rightarrow> drow option" where
  "ev_effect sch e =
     (if ev_Type e = ''delete'' then None
      else Some (full_row (cols_in sch (ev_TableName e)) (driver_row (ev_Row e))))"

definition look :: "schema \<Rightarrow> sqldb \<Rightarrow> string \<times> dval list \<Rightarrow> drow option" where
  "look sch d tk =
     (case (map_of sch (fst tk), d (fst tk)) of
        (Some info, Some tb) \<Rightarrow> view (pk_names info) tb (snd tk)
      | _ \<Rightarrow> None)"

text \<open>Every watched table is there, keyed by its primary key only.\<close>

definition db_wf :: "schema \<Rightarrow> sqldb \<Rightarrow> bool" where
  "db_wf sch d \<longleftrightarrow>
     (\<forall>t info. map_of sch t = Some info \<longrightarrow>
        (\<exists>tb. d t = Some tb \<and> table_wf (pk_names info) (map ci_Name info) tb))"

text \<open>A change the captured schema can produce: known table and type, known columns, a key.\<close>

definition event_ok :: "schema \<Rightarrow> ChangeLogEvent \<Rightarrow> bool" where
  "event_ok sch e \<longleftrightarrow>
     map_of sch (ev_TableName e) \<noteq> None \<and>
     ev_Type e \<in> {''insert'', ''update'', ''delete''} \<and>
     ev_Row e \<noteq> [] \<and> distinct (map fst (ev_Row e)) \<and>
     set (map fst (ev_Row e)) \<subseteq> set (cols_in sch (ev_TableName e)) \<and>
     list_all (\<lambda>(k, v). is_ok (to_driver v)) (ev_Row e) \<and>
     DNull \<notin> set (snd (ev_key sch e))"

text \<open>The one statement a change runs, and what it does to a database.\<close>

definition event_stmt :: "schema \<Rightarrow> ChangeLogEvent \<Rightarrow> stmt res" where
  "event_stmt sch e =
     (if ev_Type e = ''insert'' \<or> ev_Type e = ''update'' then
        (if ev_Row e = [] then Err (Errorf ''syntax error'')
         else bindE (to_drivers (map snd (ev_Row e))) (\<lambda>args.
           Ok (InsertOrReplace (ev_TableName e) (map fst (ev_Row e)) args)))
      else if ev_Type e = ''delete'' then
        bindE (ex_conds (map (\<lambda>c. (c, row_get (ev_Row e) c)) (pks_in sch (ev_TableName e)))) (\<lambda>cs.
          Ok (DeleteFrom (ev_TableName e) cs))
      else Err (Errorf (''invalid operation type '' @ ev_Type e)))"

definition apply_event :: "schema \<Rightarrow> ChangeLogEvent \<Rightarrow> sqldb \<Rightarrow> sqldb" where
  "apply_event sch e d =
     (case event_stmt sch e of Ok st \<Rightarrow> sql_after st d | _ \<Rightarrow> d)"

section \<open>Lemmas\<close>

lemma ex_conds_returns [simp]: "ex_conds kvs \<noteq> Panic p" "ex_conds kvs \<noteq> Block"
  by (induction kvs) (auto simp: bindE_def split: res.splits)

lemma cell_driver_row:
  "cell (driver_row r) c = (case to_driver (row_get r c) of Ok d \<Rightarrow> d | _ \<Rightarrow> DNull)"
  by (induction r) (auto simp: driver_row_def row_get_def)

lemma to_drivers_row:
  "list_all (\<lambda>(k, v). is_ok (to_driver v)) r \<Longrightarrow> to_drivers (map snd r) = Ok (map snd (driver_row r))"
  by (induction r) (auto simp: driver_row_def is_ok_iff res_simps split: res.splits)

lemma zip_driver_row: "zip (map fst r) (map snd (driver_row r)) = driver_row r"
  by (induction r) (auto simp: driver_row_def)

lemma ex_conds_pk:
  assumes "DNull \<notin> set (key_of cs (driver_row r))"
  shows "ex_conds (map (\<lambda>c. (c, row_get r c)) cs) = Ok (map (\<lambda>c. CEq c (cell (driver_row r) c)) cs)"
  using assms
proof (induction cs)
  case (Cons c cs)
  have "\<exists>d. to_driver (row_get r c) = Ok d \<and> d \<noteq> DNull"
    using Cons.prems by (cases "to_driver (row_get r c)") (auto simp: key_of_def cell_driver_row)
  with Cons show ?case by (auto simp: key_of_def res_simps cell_driver_row)
qed simp

lemma table_in_wf:
  assumes "db_wf sch d" and "map_of sch t = Some info"
  obtains tb where "d t = Some tb" "table_wf (pk_names info) (map ci_Name info) tb"
  using assms by (auto simp: db_wf_def)

text \<open>The statement of an acceptable change, and its effect on its table.\<close>

lemma event_stmt_upsert:
  "event_ok sch e \<Longrightarrow> ev_Type e \<noteq> ''delete'' \<Longrightarrow>
     event_stmt sch e = Ok (InsertOrReplace (ev_TableName e) (map fst (ev_Row e)) (map snd (driver_row (ev_Row e))))"
  by (auto simp: event_ok_def event_stmt_def to_drivers_row res_simps)

lemma event_stmt_delete:
  "event_ok sch e \<Longrightarrow> ev_Type e = ''delete'' \<Longrightarrow>
     event_stmt sch e = Ok (DeleteFrom (ev_TableName e)
       (map (\<lambda>c. CEq c (cell (driver_row (ev_Row e)) c)) (pks_in sch (ev_TableName e))))"
  by (simp add: event_ok_def event_stmt_def ev_key_def ex_conds_pk res_simps)

text \<open>What an acceptable change does to its table: \<open>tb'\<close> is the table afterwards.\<close>

definition event_step :: "schema \<Rightarrow> sqldb \<Rightarrow> ChangeLogEvent \<Rightarrow> ColumnInfo list \<Rightarrow> sqltable \<Rightarrow> sqltable \<Rightarrow> bool" where
  "event_step sch d e info tb tb' \<longleftrightarrow>
     (\<exists>st r. event_stmt sch e = Ok st \<and> sql_sem st d = Some (r, d(ev_TableName e \<mapsto> tb'))) \<and>
     table_wf (pk_names info) (map ci_Name info) tb' \<and>
     view (pk_names info) tb' = (view (pk_names info) tb)(snd (ev_key sch e) := ev_effect sch e)"

lemma ev_key_info:
  "map_of sch (ev_TableName e) = Some info \<Longrightarrow>
     snd (ev_key sch e) = key_of (pk_names info) (driver_row (ev_Row e))"
  by (simp add: ev_key_def pks_in_def)

lemma event_step_delete:
  assumes ok: "event_ok sch e" and del: "ev_Type e = ''delete''"
    and info: "map_of sch (ev_TableName e) = Some info"
    and tb: "d (ev_TableName e) = Some tb" "table_wf (pk_names info) (map ci_Name info) tb"
  shows "\<exists>tb'. event_step sch d e info tb tb'"
proof -
  let ?cs = "map (\<lambda>c. CEq c (cell (driver_row (ev_Row e)) c)) (pk_names info)"
  have pks: "pks_in sch (ev_TableName e) = pk_names info" by (simp add: pks_in_def info)
  have "DNull \<notin> set (snd (ev_key sch e))" using ok by (simp add: event_ok_def)
  then have sat: "\<And>r. sats ?cs r \<longleftrightarrow> key_of (pk_names info) r = snd (ev_key sch e)"
    using sats_pk [of "cell (driver_row (ev_Row e))" "pk_names info"]
    by (simp add: ev_key_info [OF info] key_of_def)
  have "known (map cond_col ?cs) tb"
    using tb(2) by (auto simp: known_def list_all_iff comp_def table_wf_def)
  then have "sql_sem (DeleteFrom (ev_TableName e) ?cs) d =
      Some (Affected (int (length (filter (sats ?cs) (t_rows tb)))), d(ev_TableName e \<mapsto> delete_where ?cs tb))"
    by (simp add: tb(1))
  with event_stmt_delete [OF ok del, unfolded pks] delete_where_view [OF tb(2) sat] del
  show ?thesis unfolding event_step_def by (auto simp: ev_effect_def)
qed

lemma event_step_upsert:
  assumes ok: "event_ok sch e" and ups: "ev_Type e \<noteq> ''delete''"
    and info: "map_of sch (ev_TableName e) = Some info"
    and tb: "d (ev_TableName e) = Some tb" "table_wf (pk_names info) (map ci_Name info) tb"
  shows "\<exists>tb'. event_step sch d e info tb tb'"
proof -
  let ?new = "full_row (map ci_Name info) (driver_row (ev_Row e))"
  have cols: "cols_in sch (ev_TableName e) = map ci_Name info" by (simp add: cols_in_def info)
  have tc: "t_cols tb = map ci_Name info" "set (pk_names info) \<subseteq> set (map ci_Name info)"
    using tb(2) by (auto simp: table_wf_def)
  have k: "key_of (pk_names info) ?new = snd (ev_key sch e)"
    unfolding ev_key_info [OF info] by (rule key_of_full_row [OF tc(2)])
  have "known (map fst (ev_Row e)) tb"
    using ok by (auto simp: event_ok_def known_def list_all_iff cols tc)
  then have "sql_sem (InsertOrReplace (ev_TableName e) (map fst (ev_Row e)) (map snd (driver_row (ev_Row e)))) d =
      Some (Affected 1, d(ev_TableName e \<mapsto> insert_or_replace ?new tb))"
    by (simp add: tb(1) tc zip_driver_row) (simp add: driver_row_def)
  moreover have "DNull \<notin> set (key_of (pk_names info) ?new)"
    using ok k by (simp add: event_ok_def)
  ultimately show ?thesis
    using event_stmt_upsert [OF ok ups] insert_or_replace_view [OF tb(2) map_fst_full_row] k ups
    unfolding event_step_def by (auto simp: ev_effect_def cols)
qed

lemma event_table:
  assumes "db_wf sch d" and "event_ok sch e"
  obtains info tb tb' where "map_of sch (ev_TableName e) = Some info" "d (ev_TableName e) = Some tb"
    "event_step sch d e info tb tb'"
proof -
  from assms(2) obtain info where info: "map_of sch (ev_TableName e) = Some info"
    by (auto simp: event_ok_def)
  from table_in_wf [OF assms(1) info] obtain tb where
    tb: "d (ev_TableName e) = Some tb" "table_wf (pk_names info) (map ci_Name info) tb" .
  have "\<exists>tb'. event_step sch d e info tb tb'"
    using event_step_delete [of sch e info d tb] event_step_upsert [of sch e info d tb] assms(2) info tb
    by blast
  then show ?thesis using that [OF info tb(1)] by blast
qed

lemma apply_event_step: "event_step sch d e info tb tb' \<Longrightarrow> apply_event sch e d = d(ev_TableName e \<mapsto> tb')"
  by (auto simp: event_step_def apply_event_def sql_after_def)

text \<open>Applying changes refines updating a map, key by key.\<close>

interpretation node: keyed_store "look sch" "db_wf sch" "apply_event sch" "event_ok sch" "ev_key sch" "ev_effect sch"
  for sch
proof unfold_locales
  fix d e assume wf: "db_wf sch d" and ok: "event_ok sch e"
  from event_table [OF wf ok] obtain info tb tb' where
    i: "map_of sch (ev_TableName e) = Some info" "d (ev_TableName e) = Some tb"
    and st: "event_step sch d e info tb tb'" .
  note app = apply_event_step [OF st]
  show "look sch (apply_event sch e d) = (look sch d)(ev_key sch e := ev_effect sch e)"
  proof
    fix tk :: "string \<times> dval list"
    obtain t k where tk: "tk = (t, k)" by (cases tk)
    obtain kk where key: "ev_key sch e = (ev_TableName e, kk)" by (simp add: ev_key_def)
    show "look sch (apply_event sch e d) tk = ((look sch d)(ev_key sch e := ev_effect sch e)) tk"
      unfolding app tk using st i key
      by (cases "t = ev_TableName e") (auto simp: look_def event_step_def split: option.splits)
  qed
  show "db_wf sch (apply_event sch e d)"
    unfolding app using wf st i by (auto simp: db_wf_def event_step_def)
qed

subsection \<open>From \<open>Replicate\<close> to the statement it runs\<close>

text \<open>The body of the transaction.\<close>

definition repl_body :: "db_env \<Rightarrow> ChangeLogEvent \<Rightarrow> ('x StreamDB, unit) prog" where
  "repl_body env event w =
     (case getPrimaryKeyMap w event of
        None \<Rightarrow> (Err ErrNoTableMapping, w)
      | Some primaryKeyMap \<Rightarrow> replicateRow env event primaryKeyMap w)"

lemma pk_map_eq:
  "map_of (sd_schema w) (ev_TableName e) = Some info \<Longrightarrow>
     getPrimaryKeyMap w e = Some (map (\<lambda>c. (c, row_get (ev_Row e) c)) (pks_in (sd_schema w) (ev_TableName e)))"
  by (simp add: getPrimaryKeyMap_def pks_in_def pk_names_def comp_def)

text \<open>
  \<open>settles w d' r w'\<close>: the call ended with database \<open>d'\<close>, or with an error and the database
  as it was; nothing else moved but the call counter.
\<close>

definition settles :: "'x StreamDB \<Rightarrow> sqldb \<Rightarrow> unit res \<Rightarrow> 'x StreamDB \<Rightarrow> bool" where
  "settles w d' r w' \<longleftrightarrow>
     (\<exists>t. (\<exists>e. r = Err e \<and> w' = w\<lparr>sd_tick := t\<rparr>) \<or> (r = Ok () \<and> w' = w\<lparr>sd_tick := t, sd_db := d'\<rparr>))"

lemma settles_Err: "settles w d' (Err e) (w\<lparr>sd_tick := t\<rparr>)"
  by (auto simp: settles_def)

lemma settles_tick: "settles (w\<lparr>sd_tick := t\<rparr>) d' r w' \<Longrightarrow> settles w d' r w'"
  by (auto simp: settles_def)

lemma exec_settles:
  assumes "bindR (exec env st) (\<lambda>_. ret ()) w = (r, w')"
  shows "settles w (sql_after st (sd_db w)) r w'"
  using assms
  by (rule_tac exec_cases [of env st w]) (auto simp: bindR_def ret_def settles_def sql_after_def)

lemma drv_call_eq:
  "drv_call env w = (case e_fault env (sd_tick w) of
     Some e \<Rightarrow> (Err e, w\<lparr>sd_tick := Suc (sd_tick w)\<rparr>) | None \<Rightarrow> (Ok (), w\<lparr>sd_tick := Suc (sd_tick w)\<rparr>))"
  by (simp add: drv_call_def split: option.splits)

lemma replicateUpsert_settles:
  assumes "ev_Type event = ''insert'' \<or> ev_Type event = ''update''"
    and "replicateUpsert env event pks w = (r, w')"
  shows "settles w (apply_event sch event (sd_db w)) r w'"
proof (cases "e_fault env (sd_tick w)")
  case (Some e)
  with assms(2) show ?thesis
    by (auto simp: replicateUpsert_def Let_def bindR_def drv_call_eq settles_Err)
next
  case None
  let ?w = "w\<lparr>sd_tick := Suc (sd_tick w)\<rparr>"
  consider (args) ds where "ev_Row event \<noteq> []" "to_drivers (map snd (ev_Row event)) = Ok ds"
    | (bad) e where "ev_Row event = [] \<or> to_drivers (map snd (ev_Row event)) = Err e"
    by (cases "to_drivers (map snd (ev_Row event))") auto
  then show ?thesis
  proof cases
    case args
    with None assms(2) have
      "bindR (exec env (InsertOrReplace (ev_TableName event) (map fst (ev_Row event)) ds)) (\<lambda>_. ret ()) ?w = (r, w')"
      by (simp add: replicateUpsert_def Let_def drv_call_eq bindR_def lift_res_def)
    from exec_settles [OF this] args assms(1) show ?thesis
      by (intro settles_tick [where w = w and t = "Suc (sd_tick w)"])
        (simp add: apply_event_def event_stmt_def res_simps)
  next
    case bad
    with None assms(2) show ?thesis
      by (auto simp: replicateUpsert_def Let_def drv_call_eq bindR_def lift_res_def settles_Err
          split: if_splits)
  qed
qed

lemma replicateDelete_settles:
  assumes "ev_Type event = ''delete''"
    and "replicateDelete env event (map (\<lambda>c. (c, row_get (ev_Row event) c)) (pks_in sch (ev_TableName event))) w = (r, w')"
  shows "settles w (apply_event sch event (sd_db w)) r w'"
proof (cases "ex_conds (map (\<lambda>c. (c, row_get (ev_Row event) c)) (pks_in sch (ev_TableName event)))")
  case (Ok cs)
  with assms(2) have "bindR (exec env (DeleteFrom (ev_TableName event) cs)) (\<lambda>_. ret ()) w = (r, w')"
    by (simp add: replicateDelete_def bindR_def lift_res_def)
  from exec_settles [OF this] Ok assms(1) show ?thesis
    by (simp add: apply_event_def event_stmt_def res_simps)
next
  case (Err e)
  with assms(2) show ?thesis
    using settles_Err [of w _ e "sd_tick w"] by (auto simp: replicateDelete_def bindR_def lift_res_def)
qed simp_all

lemma repl_body_settles:
  assumes "repl_body env event w = (r, w')"
  shows "settles w (apply_event (sd_schema w) event (sd_db w)) r w'"
proof (cases "map_of (sd_schema w) (ev_TableName event)")
  case None
  with assms settles_Err [of w _ ErrNoTableMapping "sd_tick w"] show ?thesis
    by (auto simp: repl_body_def getPrimaryKeyMap_def)
next
  case (Some info)
  with assms replicateUpsert_settles [of event env] replicateDelete_settles [of event env]
    settles_Err [of w _ _ "sd_tick w"]
  show ?thesis
    by (auto simp: repl_body_def pk_map_eq replicateRow_def lift_res_def split: if_splits)
qed


lemma settles_returns: "settles w d' r w' \<Longrightarrow> returns r"
  by (auto simp: settles_def)

lemma settles_db_only: "settles w d' r w' \<Longrightarrow> \<exists>t d. w' = w\<lparr>sd_tick := t, sd_db := d\<rparr>"
proof -
  assume "settles w d' r w'"
  then obtain t where "w' = w\<lparr>sd_tick := t\<rparr> \<or> w' = w\<lparr>sd_tick := t, sd_db := d'\<rparr>"
    by (auto simp: settles_def)
  moreover have "w\<lparr>sd_tick := t\<rparr> = w\<lparr>sd_tick := t, sd_db := sd_db w\<rparr>" by simp
  ultimately show ?thesis by metis
qed

lemma repl_body_returns: "returns (fst (repl_body env event w))"
  by (cases "repl_body env event w") (auto dest: repl_body_settles settles_returns)

lemma repl_body_db_only: "db_only (repl_body env event)"
proof (rule db_onlyI)
  fix w :: "'a StreamDB"
  show "\<exists>t d. snd (repl_body env event w) = w\<lparr>sd_tick := t, sd_db := d\<rparr>"
    by (cases "repl_body env event w") (auto dest!: repl_body_settles settles_db_only)
qed

lemma repl_body_pool_free: "pool_free (repl_body env event)"
proof -
  have row: "pool_free (replicateRow env event pks :: ('a StreamDB, unit) prog)" for pks
    by (auto simp: replicateRow_def replicateUpsert_def replicateDelete_def Let_def intro!: pool_free_bindR)
  show ?thesis
    unfolding pool_free_def
    by (auto simp: repl_body_def getPrimaryKeyMap_def pool_freeD [OF row] split: option.splits)
qed

lemma Replicate_eq: "Replicate env event = borrow_conn env (with_tx env (repl_body env event))"
proof -
  have "bindR f (\<lambda>_. ret ()) = f" for f :: "('a StreamDB, unit) prog"
    by (rule ext) (simp add: bindR_def ret_def split: prod.splits res.splits)
  then show ?thesis
    by (simp add: Replicate_def consumeReplicationEvent_def repl_body_def [abs_def])
qed

text \<open>The transaction around the body: the statement's effect, or an error and nothing.\<close>

lemma repl_tx_cases:
  obtains t where "with_tx env (repl_body env event) w =
      (Ok (), w\<lparr>sd_tick := t, sd_db := apply_event (sd_schema w) event (sd_db w)\<rparr>)"
  | e t where "with_tx env (repl_body env event) w = (Err e, w\<lparr>sd_tick := t\<rparr>)"
proof (rule with_tx_cases [OF repl_body_returns [of env event] repl_body_db_only, of w env])
  fix a t d
  assume b: "repl_body env event (w\<lparr>sd_tick := Suc (sd_tick w)\<rparr>) = (Ok a, w\<lparr>sd_tick := t, sd_db := d\<rparr>)"
    and tx: "with_tx env (repl_body env event) w = (Ok a, w\<lparr>sd_tick := Suc t, sd_db := d\<rparr>)"
  obtain ta where "w\<lparr>sd_tick := t, sd_db := d\<rparr> =
      w\<lparr>sd_tick := ta, sd_db := apply_event (sd_schema w) event (sd_db w)\<rparr>"
    using repl_body_settles [OF b] by (auto simp: settles_def)
  then have "d = apply_event (sd_schema w) event (sd_db w)"
    by (drule_tac f = sd_db in arg_cong) simp
  with tx that(1) [of "Suc t"] show ?thesis by simp
qed (rule that(2))

lemma Replicate_cases:
  assumes rdy: "db_ready env w B"
  obtains p t where "pool_inv p B" "p_cap p = p_cap (sd_pool w)"
      "Replicate env event w =
        (Ok (), w\<lparr>sd_tick := t, sd_db := apply_event (sd_schema w) event (sd_db w), sd_pool := p\<rparr>)"
  | e p t where "pool_inv p B" "p_cap p = p_cap (sd_pool w)"
      "Replicate env event w = (Err e, w\<lparr>sd_tick := t, sd_pool := p\<rparr>)"
proof -
  let ?tx = "with_tx env (repl_body env event)"
  have nb: "fst (?tx w) \<noteq> Block" by (rule repl_tx_cases [of env event w]) simp_all
  note pf = pool_free_with_tx [OF repl_body_pool_free, of env env event]
  show ?thesis
  proof (rule borrow_conn_cases [OF rdy pf nb])
    fix p assume p: "pool_inv p B" "p_cap p = p_cap (sd_pool w)"
      and eq: "borrow_conn env ?tx w = (fst (?tx w), (snd (?tx w))\<lparr>sd_pool := p\<rparr>)"
    show thesis
      by (rule repl_tx_cases [of env event w]) (use that p eq in \<open>auto simp: Replicate_eq\<close>)
  next
    fix e p assume p: "pool_inv p B" "p_cap p = p_cap (sd_pool w)"
      and "borrow_conn env ?tx w = (Err e, w\<lparr>sd_pool := p\<rparr>)"
    then show thesis using that(2) [OF p, of e "sd_tick w"] by (simp add: Replicate_eq)
  qed
qed


lemma Replicate_Ok:
  assumes rdy: "db_ready env w B" and eq: "Replicate env event w = (Ok (), w')"
  shows "sd_db w' = apply_event (sd_schema w) event (sd_db w) \<and> sd_schema w' = sd_schema w \<and> db_ready env w' B"
  by (rule Replicate_cases [OF rdy, of event]) (use eq rdy in \<open>auto simp: db_ready_def\<close>)

lemma Replicate_Err:
  assumes rdy: "db_ready env w B" and eq: "Replicate env event w = (Err e, w')"
  shows "sd_db w' = sd_db w \<and> sd_schema w' = sd_schema w \<and> db_ready env w' B"
  by (rule Replicate_cases [OF rdy, of event]) (use eq rdy in \<open>auto simp: db_ready_def\<close>)

text \<open>Without faults an acceptable change is applied.\<close>

lemma exec_healthy:
  "healthy env \<Longrightarrow> sql_sem st (sd_db w) = Some (r, d) \<Longrightarrow>
     exec env st w = (Ok r, w\<lparr>sd_tick := Suc (sd_tick w), sd_db := d\<rparr>)"
  by (simp add: healthy_def exec_no_fault)

lemma repl_body_healthy:
  assumes h: "healthy env" and wf: "db_wf (sd_schema w) (sd_db w)" and ok: "event_ok (sd_schema w) event"
  shows "fst (repl_body env event w) = Ok ()"
proof -
  from event_table [OF wf ok] obtain info tb tb' where info: "map_of (sd_schema w) (ev_TableName event) = Some info"
    and "event_step (sd_schema w) (sd_db w) event info tb tb'" by metis
  then obtain st r d where st: "event_stmt (sd_schema w) event = Ok st" "sql_sem st (sd_db w) = Some (r, d)"
    by (auto simp: event_step_def)
  note ex = exec_healthy [OF h, of st "w\<lparr>sd_tick := t\<rparr>" r d for t, simplified, OF st(2)] exec_healthy [OF h st(2)]
  have "e_fault env n = None" for n using h by (simp add: healthy_def)
  then show ?thesis
    using ok st(1) ex info
    by (auto simp: repl_body_def pk_map_eq replicateRow_def replicateUpsert_def replicateDelete_def
        event_ok_def event_stmt_def Let_def bindR_def drv_call_eq lift_res_def ret_def bindE_def
        split: if_splits res.splits simp del: sql_sem.simps)
qed

lemma Replicate_healthy:
  assumes h: "healthy env" and rdy: "db_ready env w B"
    and wf: "db_wf (sd_schema w) (sd_db w)" and ok: "event_ok (sd_schema w) event"
  shows "fst (Replicate env event w) = Ok ()"
proof -
  let ?w = "w\<lparr>sd_tick := Suc (sd_tick w)\<rparr>"
  obtain w1 where b: "repl_body env event ?w = (Ok (), w1)"
    using repl_body_healthy [OF h, of ?w event] wf ok by (cases "repl_body env event ?w") auto
  have tx: "fst (with_tx env (repl_body env event) w) = Ok ()"
    using with_tx_no_fault [of env w "repl_body env event" "()" w1] b h by (simp add: healthy_def)
  from borrow_conn_healthy [OF h rdy pool_free_with_tx [OF repl_body_pool_free], of env env event] tx
  show ?thesis by (auto simp: Replicate_eq)
qed

text \<open>Applying a sequence of changes in order, stopping at the first error.\<close>

fun replicate_all :: "db_env \<Rightarrow> ChangeLogEvent list \<Rightarrow> ('x StreamDB, unit) prog" where
  "replicate_all env [] = ret ()"
| "replicate_all env (e # es) = bindR (Replicate env e) (\<lambda>_. replicate_all env es)"

lemma replicate_all_fold:
  assumes "db_ready env w B" and "replicate_all env es w = (Ok (), w')"
  shows "sd_db w' = fold (apply_event (sd_schema w)) es (sd_db w) \<and> sd_schema w' = sd_schema w \<and> db_ready env w' B"
  using assms
proof (induction es arbitrary: w)
  case Nil
  then show ?case by (simp add: ret_def)
next
  case (Cons e es)
  from Cons.prems(2) obtain w1 where r: "Replicate env e w = (Ok (), w1)" and rest: "replicate_all env es w1 = (Ok (), w')"
    by (auto elim: bindR_OkE)
  have w1: "sd_db w1 = apply_event (sd_schema w) e (sd_db w)" "sd_schema w1 = sd_schema w" "db_ready env w1 B"
    using Replicate_Ok [OF Cons.prems(1) r] by simp_all
  with Cons.IH [OF w1(3) rest] show ?case by simp
qed

lemma replicate_all_healthy:
  assumes "healthy env" and "db_ready env w B"
    and "db_wf (sd_schema w) (sd_db w)" and "list_all (event_ok (sd_schema w)) es"
  shows "fst (replicate_all env es w) = Ok ()"
  using assms
proof (induction es arbitrary: w)
  case (Cons e es)
  from Cons.prems have ok: "event_ok (sd_schema w) e" by simp
  with Cons.prems Replicate_healthy obtain w1 where r: "Replicate env e w = (Ok (), w1)"
    by (metis prod.collapse)
  note w1 = Replicate_Ok [OF Cons.prems(2) r]
  with Cons.prems Cons.IH [of w1] node.step_invar [OF Cons.prems(3) ok] show ?case
    by (simp add: bindR_def r)
qed (simp add: ret_def)


section \<open>Concrete data\<close>

definition wit_repl_env :: db_env where
  "wit_repl_env = \<lparr>e_driver = \<lparr>d_open = (\<lambda>_. Ok ()), d_register = (\<lambda>_. Ok ())\<rparr>, e_fault = (\<lambda>_. None)\<rparr>"

definition wit_repl_cols :: "ColumnInfo list" where
  "wit_repl_cols =
     [\<lparr>ci_Name = ''id'', ci_Type = ''INT'', ci_NotNull = True, ci_DefaultValue = DNull,
       ci_PrimaryKeyIndex = 1, ci_IsPrimaryKey = True\<rparr>,
      \<lparr>ci_Name = ''v'', ci_Type = ''TEXT'', ci_NotNull = False, ci_DefaultValue = DNull,
       ci_PrimaryKeyIndex = 0, ci_IsPrimaryKey = False\<rparr>]"

definition wit_repl_table :: sqltable where
  "wit_repl_table =
     \<lparr>t_cols = [''id'', ''v''], t_keys = [[''id'']], t_seq = 0,
      t_rows = [[(''id'', DInt 1), (''v'', DText ''old'')], [(''id'', DInt 2), (''v'', DNull)]]\<rparr>"

definition wit_repl_world :: "unit StreamDB" where
  "wit_repl_world =
     \<lparr>sd_prefix = MarmotPrefix, sd_schema = [(''t'', wit_repl_cols)], sd_publishLock = False,
      sd_pool = snd (NewSQLitePool (e_driver wit_repl_env) 1 ''db'' 1 True),
      sd_db = [''t'' \<mapsto> wit_repl_table], sd_tick = 0, sd_published = 0, sd_pendingPublish = 0, sd_ext = ()\<rparr>"

definition wit_change :: "string \<Rightarrow> int \<Rightarrow> string \<Rightarrow> ChangeLogEvent" where
  "wit_change ty i v =
     \<lparr>ev_Id = 1, ev_Type = ty, ev_TableName = ''t'',
      ev_Row = [(''v'', GVal (DText v)), (''id'', GVal (DInt i))], ev_tableInfo = []\<rparr>"

lemma wit_healthy: "healthy wit_repl_env"
  by (simp add: healthy_def driver_healthy_def wit_repl_env_def)

lemma wit_ready: "db_ready wit_repl_env wit_repl_world {}"
proof -
  have "NewSQLitePool (e_driver wit_repl_env) 1 ''db'' 1 True = (Ok (), sd_pool wit_repl_world)"
    and "p_cap (sd_pool wit_repl_world) = 1"
    by (simp_all add: wit_repl_world_def NewSQLitePool_def alloc_conn_def chan_send_def bindR_def ret_def)
  moreover have "driver_returns (e_driver wit_repl_env)"
    using wit_healthy by (simp add: healthy_def driver_healthy_returns)
  ultimately show ?thesis using NewSQLitePool_inv by (simp add: db_ready_def)
qed

lemma wit_cols_eval [simp]: "pk_names wit_repl_cols = [''id'']" "map ci_Name wit_repl_cols = [''id'', ''v'']"
  "ci_Name ` set wit_repl_cols = {''id'', ''v''}"
  by (simp_all add: wit_repl_cols_def pk_names_def)

lemma wit_wf: "db_wf (sd_schema wit_repl_world) (sd_db wit_repl_world)"
  by (simp add: db_wf_def wit_repl_world_def wit_repl_table_def table_wf_def key_of_def)

lemmas wit_event_ok_simps = event_ok_def wit_change_def wit_repl_world_def cols_in_def
  ev_key_def pks_in_def key_of_def driver_row_def

section \<open>Properties\<close>



text \<open>
  A change for a table the node does not watch, or of an unknown operation type, is refused
  with the sources' errors and leaves the database alone.
\<close>

lemma replicate_rejects:
  assumes "db_ready env w B"
    and "map_of (sd_schema w) (ev_TableName event) = None \<or> ev_Type event \<notin> {''insert'', ''update'', ''delete''}"
  shows "\<exists>e w'. Replicate env event w = (Err e, w') \<and> sd_db w' = sd_db w \<and> db_ready env w' B \<and>
     (healthy env \<longrightarrow> e = (if map_of (sd_schema w) (ev_TableName event) = None then ErrNoTableMapping
                       else Errorf (''invalid operation type '' @ ev_Type event)))"
proof -
  let ?e = "if map_of (sd_schema w) (ev_TableName event) = None then ErrNoTableMapping
            else Errorf (''invalid operation type '' @ ev_Type event)"
  have body: "repl_body env event (w\<lparr>sd_tick := t\<rparr>) = (Err ?e, w\<lparr>sd_tick := t\<rparr>)" for t
    using assms(2) by (auto simp: repl_body_def getPrimaryKeyMap_def replicateRow_def lift_res_def split: option.splits)
  have tx: "\<exists>e. fst (with_tx env (repl_body env event) w) = Err e \<and> (healthy env \<longrightarrow> e = ?e)"
    by (auto simp: with_tx_def bindR_def drv_call_eq body healthy_def split: option.splits)
  have "\<exists>e. fst (Replicate env event w) = Err e \<and> (healthy env \<longrightarrow> e = ?e)"
  proof (cases "healthy env")
    case True
    from borrow_conn_healthy [OF True assms(1) pool_free_with_tx [OF repl_body_pool_free], of env env event] tx
    show ?thesis using True by (auto simp: Replicate_eq)
  next
    case False
    show ?thesis
      by (rule borrow_conn_cases [OF assms(1) pool_free_with_tx [OF repl_body_pool_free], of env env event])
        (use tx False in \<open>auto simp: Replicate_eq\<close>)
  qed
  then show ?thesis
    using Replicate_Err [OF assms(1), of event] by (metis prod.collapse)
qed

text \<open>
  Redelivery is harmless: a node that applied the changes \<open>xs @ ys\<close> and is then sent the
  tail \<open>ys\<close> again (as after a restart from an older sequence number) ends with the same rows,
  and no call fails.
\<close>

lemma redelivery_harmless:
  assumes "healthy env" and "db_ready env w B" and "db_wf (sd_schema w) (sd_db w)"
    and "list_all (event_ok (sd_schema w)) (xs @ ys)"
  shows "\<exists>wa wb. replicate_all env (xs @ ys) w = (Ok (), wa) \<and> replicate_all env (xs @ ys @ ys) w = (Ok (), wb) \<and>
     look (sd_schema w) (sd_db wb) = look (sd_schema w) (sd_db wa)"
proof -
  have all: "list_all (event_ok (sd_schema w)) (xs @ ys @ ys)" using assms(4) by simp
  obtain wa where wa: "replicate_all env (xs @ ys) w = (Ok (), wa)"
    using replicate_all_healthy [OF assms] by (metis prod.collapse)
  obtain wb where wb: "replicate_all env (xs @ ys @ ys) w = (Ok (), wb)"
    using replicate_all_healthy [OF assms(1-3) all] by (metis prod.collapse)
  from replicate_all_fold [OF assms(2) wa] replicate_all_fold [OF assms(2) wb]
    node.replay_suffix [OF assms(3,4)] wa wb show ?thesis by auto
qed

end
