(* ===== verification/ChangeLog.thy ===== *)
theory ChangeLog
  imports StreamDB
begin

text \<open>
  The capturing and publishing half of \<open>db/change_log.go\<close>, with \<open>fetchRow\<close> of
  \<open>db/utils.go\<close> and the two SQL templates. A trigger writes every change of a watched table
  into that table's change log and queues it in the global change log; \<open>publishChangeLog\<close> reads
  the queue in order, hands each change to \<open>OnChange\<close> and takes it off the queue;
  \<open>CleanupChangeLogs\<close> deletes old published entries.
\<close>

section \<open>Names and entries\<close>

definition Pending :: int where
  "Pending = 0"

definition Published :: int where
  "Published = 1"

definition changeLogName :: string where
  "changeLogName = ''change_log''"

definition metaTable :: "string \<Rightarrow> string \<Rightarrow> string \<Rightarrow> string" where
  "metaTable prefix tableName name = prefix @ tableName @ ''_'' @ name"

definition globalMetaTable :: "string \<Rightarrow> string" where
  "globalMetaTable prefix = prefix @ ''_change_log_global''"

record globalChangeLogEntry =
  g_Id :: int
  g_ChangeTableId :: int
  g_TableName :: string

record changeLogEntry =
  l_Id :: int
  l_Type :: string
  l_State :: string

section \<open>Capture: the triggers of \<open>table_change_log_script.tmpl\<close>\<close>

text \<open>The columns of the two tables the templates create.\<close>

definition val_col :: "string \<Rightarrow> string" where
  "val_col name = ''val_'' @ name"

definition log_cols :: "ColumnInfo list \<Rightarrow> string list" where
  "log_cols info = ''id'' # map (\<lambda>c. val_col (ci_Name c)) info @ [''type'', ''created_at'', ''state'']"

definition global_cols :: "string list" where
  "global_cols = [''id'', ''change_table_id'', ''table_name'']"

text \<open>
  What a statement on a watched table does to one row, with the row the trigger reads: \<open>NEW\<close> for
  insert and update, \<open>OLD\<close> for delete.
\<close>

datatype row_change = RowInsert drow | RowUpdate drow drow | RowDelete drow

fun trigger_name :: "row_change \<Rightarrow> string" where
  "trigger_name (RowInsert _) = ''insert''"
| "trigger_name (RowUpdate _ _) = ''update''"
| "trigger_name (RowDelete _) = ''delete''"

fun read_target :: "row_change \<Rightarrow> drow" where
  "read_target (RowInsert new) = new"
| "read_target (RowUpdate old new) = new"
| "read_target (RowDelete old) = old"

definition log_given :: "ColumnInfo list \<Rightarrow> int \<Rightarrow> row_change \<Rightarrow> drow" where
  "log_given info now rc =
     map (\<lambda>c. (val_col (ci_Name c), cell (read_target rc) (ci_Name c))) info @
       [(''type'', DText (trigger_name rc)), (''created_at'', DInt now), (''state'', DInt Pending)]"

definition log_insert :: "string \<Rightarrow> string \<Rightarrow> ColumnInfo list \<Rightarrow> int \<Rightarrow> row_change \<Rightarrow> stmt" where
  "log_insert prefix t info now rc = InsertAuto (metaTable prefix t changeLogName) (log_given info now rc)"

definition global_insert :: "string \<Rightarrow> string \<Rightarrow> int \<Rightarrow> stmt" where
  "global_insert prefix t rowid =
     InsertAuto (globalMetaTable prefix) [(''change_table_id'', DInt rowid), (''table_name'', DText t)]"

text \<open>
  The trigger's WHEN clause looks for the SQL function \<open>marmot_version\<close> on the connection that
  writes: the node's own connections have it, an application's have not. An error in a trigger
  fails the whole statement (\<open>None\<close>).
\<close>

definition change_trigger ::
  "string \<Rightarrow> sqlhandle \<Rightarrow> string \<Rightarrow> ColumnInfo list \<Rightarrow> int \<Rightarrow> row_change \<Rightarrow> sqldb \<Rightarrow> sqldb option" where
  "change_trigger prefix h t info now rc d =
     (if ''marmot_version'' \<in> set (h_funcs h) then Some d
      else
        (case sql_sem (log_insert prefix t info now rc) d of
           Some (LastInsertRowid i, d1) \<Rightarrow> map_option snd (sql_sem (global_insert prefix t i) d1)
         | _ \<Rightarrow> None))"

section \<open>Reading result rows\<close>

text \<open>\<open>fetchRow\<close>: a map from column to value; a repeated column keeps its last value.\<close>

definition fetchRow :: "drow \<Rightarrow> gorow" where
  "fetchRow r = fold (\<lambda>(column, v) row. AList.update column (GVal v) row) r []"

text \<open>
  Scanning a column into an \<open>int64\<close> or a \<open>string\<close> field; these columns are only ever written
  with integers and texts, anything else is a conversion error.
\<close>

fun scan_int64 :: "dval \<Rightarrow> int res" where
  "scan_int64 (DInt i) = Ok i"
| "scan_int64 _ = Err (Errorf ''converting driver.Value type to a int64'')"

fun scan_string :: "dval \<Rightarrow> string res" where
  "scan_string (DText s) = Ok s"
| "scan_string (DInt i) = Ok (if i < 0 then ''-'' @ show_nat (nat (- i)) else show_nat (nat i))"
| "scan_string _ = Err (Errorf ''converting driver.Value type to a string'')"

definition scan_global :: "drow \<Rightarrow> globalChangeLogEntry res" where
  "scan_global r =
     bindE (scan_int64 (cell r ''id'')) (\<lambda>i.
     bindE (scan_int64 (cell r ''change_table_id'')) (\<lambda>c.
     bindE (scan_string (cell r ''table_name'')) (\<lambda>t.
       Ok \<lparr>g_Id = i, g_ChangeTableId = c, g_TableName = t\<rparr>)))"

definition scan_log :: "drow \<Rightarrow> changeLogEntry res" where
  "scan_log r =
     bindE (scan_int64 (cell r ''id'')) (\<lambda>i.
     bindE (scan_string (cell r ''type'')) (\<lambda>t.
     bindE (scan_string (cell r ''state'')) (\<lambda>s.
       Ok \<lparr>l_Id = i, l_Type = t, l_State = s\<rparr>)))"

fun scan_all :: "(drow \<Rightarrow> 'a res) \<Rightarrow> drow list \<Rightarrow> 'a list res" where
  "scan_all f [] = Ok []"
| "scan_all f (r # rs) = bindE (f r) (\<lambda>x. bindE (scan_all f rs) (\<lambda>xs. Ok (x # xs)))"

section \<open>Publishing\<close>

text \<open>A statement on a borrowed connection, and what is made of its result.\<close>

definition select :: "db_env \<Rightarrow> stmt \<Rightarrow> (sqlres \<Rightarrow> 'a res) \<Rightarrow> ('x StreamDB, 'a) prog" where
  "select env st k = bindR (exec env st) (\<lambda>r. lift_res (k r))"

definition rows_in :: "sqlres \<Rightarrow> drow list res" where
  "rows_in r = (case r of Rows rows \<Rightarrow> Ok rows | _ \<Rightarrow> Err (Errorf ''not a query''))"

definition getGlobalChanges :: "db_env \<Rightarrow> u32 \<Rightarrow> ('x StreamDB, globalChangeLogEntry list) prog" where
  "getGlobalChanges env limit = borrow_conn env (\<lambda>w.
     select env (SelectFrom (globalMetaTable (sd_prefix w))
         [(''id'', ''id''), (''change_table_id'', ''change_table_id''), (''table_name'', ''table_name'')]
         [] (Some ''id'') (unat limit))
       (\<lambda>r. bindE (rows_in r) (scan_all scan_global)) w)"

definition countChanges :: "db_env \<Rightarrow> ('x StreamDB, int) prog" where
  "countChanges env = borrow_conn env (\<lambda>w.
     select env (CountFrom (globalMetaTable (sd_prefix w)))
       (\<lambda>r. case r of CountIs n \<Rightarrow> Ok n | _ \<Rightarrow> Err (Errorf ''not a query'')) w)"

text \<open>\<open>ScanStruct\<close> asks for one row; \<open>None\<close> is \<open>found = false\<close>.\<close>

definition getChangeEntry ::
  "db_env \<Rightarrow> globalChangeLogEntry \<Rightarrow> ('x StreamDB, changeLogEntry option) prog" where
  "getChangeEntry env change = borrow_conn env (\<lambda>w.
     select env (SelectFrom (metaTable (sd_prefix w) (g_TableName change) changeLogName)
         [(''id'', ''id''), (''type'', ''type''), (''state'', ''state'')]
         [CEq ''state'' (DInt Pending), CEq ''id'' (DInt (g_ChangeTableId change))] None 1)
       (\<lambda>r. bindE (rows_in r) (\<lambda>rows.
          case rows of [] \<Rightarrow> Ok None | x # _ \<Rightarrow> bindE (scan_log x) (\<lambda>e. Ok (Some e)))) w)"

definition watched :: "'x StreamDB \<Rightarrow> string \<Rightarrow> ColumnInfo list" where
  "watched w t = (case map_of (sd_schema w) t of None \<Rightarrow> [] | Some info \<Rightarrow> info)"

definition fetchChangeRows ::
  "db_env \<Rightarrow> string \<Rightarrow> string \<Rightarrow> int list \<Rightarrow> ('x StreamDB, drow list) prog" where
  "fetchChangeRows env tableName idColumnName rowIds = borrow_conn env (\<lambda>w.
     select env (SelectFrom (metaTable (sd_prefix w) tableName changeLogName)
         ((''id'', idColumnName) # map (\<lambda>col. (val_col (ci_Name col), ci_Name col)) (watched w tableName))
         [CIn ''id'' rowIds] None 0)
       rows_in w)"

text \<open>The callback works on its own state.\<close>

definition with_ext :: "('x, 'a) prog \<Rightarrow> ('x StreamDB, 'a) prog" where
  "with_ext f w = (case f (sd_ext w) of (r, x) \<Rightarrow> (r, w\<lparr>sd_ext := x\<rparr>))"

type_synonym 'x on_change = "(ChangeLogEvent \<Rightarrow> ('x, unit) prog) option"

text \<open>
  The loop over the rows. \<open>rows.Next()\<close> is a call to the driver; when it fails the loop ends as
  if there were no more rows (\<open>rows.Err()\<close> is not looked at).
\<close>

fun consume_rows ::
  "db_env \<Rightarrow> 'x on_change \<Rightarrow> string \<Rightarrow> string \<Rightarrow> (int \<rightharpoonup> changeLogEntry) \<Rightarrow> drow list \<Rightarrow> ('x StreamDB, unit) prog" where
  "consume_rows env cb tableName idCol changeMap [] w = (Ok (), snd (drv_call env w))"
| "consume_rows env cb tableName idCol changeMap (r # rs) w =
     (case drv_call env w of
        (Ok _, w1) \<Rightarrow>
          (let row = fetchRow r in
           case row_get row idCol of
             GVal (DInt changeRowID) \<Rightarrow>
               (case changeMap changeRowID of
                  None \<Rightarrow> (Panic ''nil pointer dereference'', w1)
                | Some changeRow \<Rightarrow>
                    (case cb of
                       None \<Rightarrow> consume_rows env cb tableName idCol changeMap rs w1
                     | Some OnChange \<Rightarrow>
                         bindR (with_ext (OnChange
                             \<lparr>ev_Id = changeRowID, ev_Type = l_Type changeRow, ev_TableName = tableName,
                              ev_Row = AList.delete idCol row, ev_tableInfo = watched w1 tableName\<rparr>))
                           (\<lambda>_. consume_rows env cb tableName idCol changeMap rs) w1))
           | _ \<Rightarrow> (Panic ''interface conversion'', w1))
      | (_, w1) \<Rightarrow> (Ok (), w1))"

definition consumeChangeLogs ::
  "db_env \<Rightarrow> 'x on_change \<Rightarrow> string \<Rightarrow> changeLogEntry list \<Rightarrow> ('x StreamDB, unit) prog" where
  "consumeChangeLogs env cb tableName changes w =
     (let rowIds = map l_Id changes;
          changeMap = map_of (rev (map (\<lambda>l. (l_Id l, l)) changes));
          idColumnName = sd_prefix w @ ''change_log_id'' in
      bindR (fetchChangeRows env tableName idColumnName rowIds)
        (\<lambda>rows. consume_rows env cb tableName idColumnName changeMap rows) w)"

definition markChangePublished :: "db_env \<Rightarrow> globalChangeLogEntry \<Rightarrow> ('x StreamDB, unit) prog" where
  "markChangePublished env change = borrow_conn env (with_tx env (\<lambda>w.
     bindR (exec env (UpdateSet (metaTable (sd_prefix w) (g_TableName change) changeLogName)
              [(''state'', DInt Published)] [CEq ''id'' (DInt (g_ChangeTableId change))])) (\<lambda>_.
     bindR (exec env (DeleteFrom (globalMetaTable (sd_prefix w)) [CEq ''id'' (DInt (g_Id change))])) (\<lambda>_.
       ret ())) w))"

fun publish_loop :: "db_env \<Rightarrow> 'x on_change \<Rightarrow> globalChangeLogEntry list \<Rightarrow> ('x StreamDB, unit) prog" where
  "publish_loop env cb [] w = (Ok (), w)"
| "publish_loop env cb (change # changes) w =
     (case getChangeEntry env change w of
        (Ok (Some logEntry), w1) \<Rightarrow>
          (case consumeChangeLogs env cb (g_TableName change) [logEntry] w1 of
             (Panic p, w2) \<Rightarrow> (Panic p, w2)
           | (Block, w2) \<Rightarrow> (Block, w2)
           | (r, w2) \<Rightarrow>
               if (case r of Err e \<Rightarrow> errors_Is e ErrLogNotReadyToPublish \<or> errors_Is e ContextCanceled
                   | _ \<Rightarrow> False)
               then (Ok (), w2)
               else
                 (case markChangePublished env change w2 of
                    (Panic p, w3) \<Rightarrow> (Panic p, w3)
                  | (Block, w3) \<Rightarrow> (Block, w3)
                  | (_, w3) \<Rightarrow>
                      publish_loop env cb changes (w3\<lparr>sd_published := Suc (sd_published w3)\<rparr>)))
      | (Ok None, w1) \<Rightarrow> (Panic ''Global change log row not found in corresponding table'', w1)
      | (Err e, w1) \<Rightarrow> (Ok (), w1)
      | (Panic p, w1) \<Rightarrow> (Panic p, w1)
      | (Block, w1) \<Rightarrow> (Block, w1))"

definition publish_locked :: "db_env \<Rightarrow> u32 \<Rightarrow> 'x on_change \<Rightarrow> ('x StreamDB, unit) prog" where
  "publish_locked env scanMaxChanges cb w =
     (case countChanges env w of
        (Ok cnt, w1) \<Rightarrow>
          (let w2 = w1\<lparr>sd_pendingPublish := cnt\<rparr> in
           if cnt \<le> 0 then (Ok (), w2)
           else
             (case getGlobalChanges env scanMaxChanges w2 of
                (Ok changes, w3) \<Rightarrow> publish_loop env cb changes w3
              | (Err e, w3) \<Rightarrow> (Ok (), w3)
              | (Panic p, w3) \<Rightarrow> (Panic p, w3)
              | (Block, w3) \<Rightarrow> (Block, w3)))
      | (Err e, w1) \<Rightarrow> (Ok (), w1)
      | (Panic p, w1) \<Rightarrow> (Panic p, w1)
      | (Block, w1) \<Rightarrow> (Block, w1))"

text \<open>\<open>TryLock\<close>, then the work, then the deferred \<open>Unlock\<close>.\<close>

definition publishChangeLog :: "db_env \<Rightarrow> u32 \<Rightarrow> 'x on_change \<Rightarrow> ('x StreamDB, unit) prog" where
  "publishChangeLog env scanMaxChanges cb w =
     (if sd_publishLock w then (Ok (), w)
      else
        (case publish_locked env scanMaxChanges cb (w\<lparr>sd_publishLock := True\<rparr>) of
           (Block, w1) \<Rightarrow> (Block, w1)
         | (r, w1) \<Rightarrow> (r, w1\<lparr>sd_publishLock := False\<rparr>)))"

section \<open>Cleaning up\<close>

fun cleanup_tables :: "db_env \<Rightarrow> int \<Rightarrow> string list \<Rightarrow> int \<Rightarrow> ('x StreamDB, int) prog" where
  "cleanup_tables env before [] tot w = (Ok tot, w)"
| "cleanup_tables env before (name # names) tot w =
     bindR (exec env (DeleteFrom (metaTable (sd_prefix w) name changeLogName)
              [CEq ''state'' (DInt Published), CLte ''created_at'' before]))
       (\<lambda>rs. case rs of
          Affected n \<Rightarrow> cleanup_tables env before names (tot + n)
        | _ \<Rightarrow> lift_res (Err (Errorf ''not an update''))) w"

definition CleanupChangeLogs :: "db_env \<Rightarrow> int \<Rightarrow> ('x StreamDB, int) prog" where
  "CleanupChangeLogs env beforeTime =
     borrow_conn env (\<lambda>w. cleanup_tables env beforeTime (map fst (sd_schema w)) 0 w)"

end
