(* ===== verification/Cdc.thy ===== *)
theory Cdc
  imports ChangeLog
begin

text \<open>
  The change log as a queue. \<open>pending\<close> reads off a database the changes that wait to be
  published, oldest first; \<open>cdc_wf\<close> is the invariant of the change-log tables. Capturing a
  change appends to the queue, marking one published removes its head; the locale
  \<open>fifo_queue\<close> states what follows for any sequence of the two.
\<close>

section \<open>The abstract queue\<close>

definition text_cell :: "string \<Rightarrow> drow \<Rightarrow> string" where
  "text_cell c r = (case cell r c of DText s \<Rightarrow> s | _ \<Rightarrow> '''')"

definition entry_of :: "drow \<Rightarrow> globalChangeLogEntry" where
  "entry_of r = \<lparr>g_Id = int_cell ''id'' r, g_ChangeTableId = int_cell ''change_table_id'' r,
                 g_TableName = text_cell ''table_name'' r\<rparr>"

definition grow :: "globalChangeLogEntry \<Rightarrow> drow" where
  "grow g = [(''id'', DInt (g_Id g)), (''change_table_id'', DInt (g_ChangeTableId g)),
             (''table_name'', DText (g_TableName g))]"

definition rows_of :: "sqldb \<Rightarrow> string \<Rightarrow> drow list" where
  "rows_of d t = (case d t of None \<Rightarrow> [] | Some tb \<Rightarrow> t_rows tb)"

definition queue :: "string \<Rightarrow> sqldb \<Rightarrow> globalChangeLogEntry list" where
  "queue p d = map entry_of (rows_of d (globalMetaTable p))"

definition log_row :: "string \<Rightarrow> sqldb \<Rightarrow> globalChangeLogEntry \<Rightarrow> drow" where
  "log_row p d g =
     (case find (\<lambda>r. cell r ''id'' = DInt (g_ChangeTableId g))
             (rows_of d (metaTable p (g_TableName g) changeLogName)) of
        None \<Rightarrow> [] | Some r \<Rightarrow> r)"

definition event_of_row :: "ColumnInfo list \<Rightarrow> string \<Rightarrow> drow \<Rightarrow> ChangeLogEvent" where
  "event_of_row info t r =
     \<lparr>ev_Id = int_cell ''id'' r, ev_Type = text_cell ''type'' r, ev_TableName = t,
      ev_Row = map (\<lambda>c. (ci_Name c, GVal (cell r (val_col (ci_Name c))))) info, ev_tableInfo = info\<rparr>"

definition info_of :: "(string \<times> ColumnInfo list) list \<Rightarrow> string \<Rightarrow> ColumnInfo list" where
  "info_of sch t = (case map_of sch t of None \<Rightarrow> [] | Some info \<Rightarrow> info)"

definition change_event ::
  "string \<Rightarrow> (string \<times> ColumnInfo list) list \<Rightarrow> sqldb \<Rightarrow> globalChangeLogEntry \<Rightarrow> ChangeLogEvent" where
  "change_event p sch d g = event_of_row (info_of sch (g_TableName g)) (g_TableName g) (log_row p d g)"

definition pending :: "string \<Rightarrow> (string \<times> ColumnInfo list) list \<Rightarrow> sqldb \<Rightarrow> ChangeLogEvent list" where
  "pending p sch d = map (change_event p sch d) (queue p d)"

section \<open>The invariant\<close>

text \<open>A table's change log: unique ids below the AUTOINCREMENT counter, an operation on each row.\<close>

definition log_wf :: "ColumnInfo list \<Rightarrow> sqltable \<Rightarrow> bool" where
  "log_wf info lt \<longleftrightarrow>
     t_cols lt = log_cols info \<and> distinct (map (int_cell ''id'') (t_rows lt)) \<and>
     (\<forall>r \<in> set (t_rows lt). map fst r = log_cols info \<and>
        cell r ''id'' = DInt (int_cell ''id'' r) \<and> int_cell ''id'' r \<le> t_seq lt \<and>
        cell r ''type'' = DText (text_cell ''type'' r))"

text \<open>The global change log: ascending ids, no change queued twice.\<close>

definition global_wf :: "sqltable \<Rightarrow> bool" where
  "global_wf gt \<longleftrightarrow>
     t_cols gt = global_cols \<and> (\<forall>r \<in> set (t_rows gt). r = grow (entry_of r)) \<and>
     sorted_wrt (<) (map (int_cell ''id'') (t_rows gt)) \<and>
     (\<forall>r \<in> set (t_rows gt). int_cell ''id'' r \<le> t_seq gt) \<and>
     distinct (map (\<lambda>r. (g_TableName (entry_of r), g_ChangeTableId (entry_of r))) (t_rows gt))"

text \<open>Column names are distinct, and none is the name the publisher gives the change id.\<close>

definition cdc_schema :: "string \<Rightarrow> (string \<times> ColumnInfo list) list \<Rightarrow> bool" where
  "cdc_schema p sch \<longleftrightarrow>
     distinct (map fst sch) \<and>
     (\<forall>(t, info) \<in> set sch. distinct (map ci_Name info) \<and> p @ ''change_log_id'' \<notin> set (map ci_Name info))"

text \<open>Every queued change has a watched table and a pending row in its change log.\<close>

definition queued_ok :: "string \<Rightarrow> (string \<times> ColumnInfo list) list \<Rightarrow> sqldb \<Rightarrow> globalChangeLogEntry \<Rightarrow> bool" where
  "queued_ok p sch d g \<longleftrightarrow>
     map_of sch (g_TableName g) \<noteq> None \<and>
     (\<exists>r \<in> set (rows_of d (metaTable p (g_TableName g) changeLogName)).
        cell r ''id'' = DInt (g_ChangeTableId g) \<and> cell r ''state'' = DInt Pending)"

definition cdc_wf :: "string \<Rightarrow> (string \<times> ColumnInfo list) list \<Rightarrow> sqldb \<Rightarrow> bool" where
  "cdc_wf p sch d \<longleftrightarrow>
     cdc_schema p sch \<and>
     (\<exists>gt. d (globalMetaTable p) = Some gt \<and> global_wf gt) \<and>
     (\<forall>t info. map_of sch t = Some info \<longrightarrow>
        (\<exists>lt. d (metaTable p t changeLogName) = Some lt \<and> log_wf info lt)) \<and>
     (\<forall>g \<in> set (queue p d). queued_ok p sch d g)"

section \<open>A queue, abstractly\<close>

datatype 'e queue_op = Enq 'e | Deq

fun enqueued :: "'e queue_op list \<Rightarrow> 'e list" where
  "enqueued [] = []"
| "enqueued (Enq e # ops) = e # enqueued ops"
| "enqueued (Deq # ops) = enqueued ops"

fun dequeues :: "'e queue_op list \<Rightarrow> nat" where
  "dequeues [] = 0"
| "dequeues (Enq e # ops) = dequeues ops"
| "dequeues (Deq # ops) = Suc (dequeues ops)"

text \<open>Interleavings of the two operations; a dequeue of an empty queue does nothing.\<close>

fun queue_run :: "('s \<Rightarrow> 'v list) \<Rightarrow> ('e \<Rightarrow> 's \<Rightarrow> 's) \<Rightarrow> ('s \<Rightarrow> 's) \<Rightarrow> 'e queue_op list \<Rightarrow> 's \<Rightarrow> 's" where
  "queue_run pend enq deq [] s = s"
| "queue_run pend enq deq (Enq e # ops) s = queue_run pend enq deq ops (enq e s)"
| "queue_run pend enq deq (Deq # ops) s =
     (if pend s = [] then queue_run pend enq deq ops s else queue_run pend enq deq ops (deq s))"

locale fifo_queue =
  fixes pend :: "'s \<Rightarrow> 'v list"
    and invar :: "'s \<Rightarrow> bool"
    and enq :: "'e \<Rightarrow> 's \<Rightarrow> 's"
    and deq :: "'s \<Rightarrow> 's"
    and okay :: "'e \<Rightarrow> bool"
    and val :: "'e \<Rightarrow> 'v \<Rightarrow> bool"
  assumes enq_invar: "invar s \<Longrightarrow> okay e \<Longrightarrow> invar (enq e s)"
    and enq_pend: "invar s \<Longrightarrow> okay e \<Longrightarrow> \<exists>v. val e v \<and> pend (enq e s) = pend s @ [v]"
    and deq_invar: "invar s \<Longrightarrow> pend s \<noteq> [] \<Longrightarrow> invar (deq s)"
    and deq_pend: "invar s \<Longrightarrow> pend s \<noteq> [] \<Longrightarrow> pend (deq s) = tl (pend s)"
begin

lemma run_invar: "invar s \<Longrightarrow> list_all okay (enqueued ops) \<Longrightarrow> invar (queue_run pend enq deq ops s)"
  by (induction ops arbitrary: s rule: enqueued.induct) (auto intro: enq_invar deq_invar)

text \<open>
  Whatever the interleaving, what is left is a suffix of everything that was there or came in, in
  the order it came in: nothing is lost before its turn, repeated or reordered.
\<close>

lemma run_suffix:
  assumes "invar s" and "list_all okay (enqueued ops)"
  shows "\<exists>k vs. k \<le> dequeues ops \<and> list_all2 val (enqueued ops) vs \<and> pend (queue_run pend enq deq ops s) = drop k (pend s @ vs)"
  using assms
proof (induction ops arbitrary: s rule: enqueued.induct)
  case 1
  then show ?case by (intro exI [of _ 0]) simp
next
  case (2 e ops)
  from 2 obtain v where v: "val e v" "pend (enq e s) = pend s @ [v]" using enq_pend [of s e] by auto
  from 2 have "invar (enq e s)" by (simp add: enq_invar)
  with 2(1) [of "enq e s"] 2(3) obtain k vs where "k \<le> dequeues ops" "list_all2 val (enqueued ops) vs"
    "pend (queue_run pend enq deq ops (enq e s)) = drop k (pend (enq e s) @ vs)" by force
  with v show ?case by (intro exI [of _ k] exI [of _ "v # vs"]) simp
next
  case (3 ops)
  show ?case
  proof (cases "pend s = []")
    case True
    with 3(1) [of s] 3(2,3) obtain k vs where "k \<le> dequeues ops" "list_all2 val (enqueued ops) vs"
      "pend (queue_run pend enq deq ops s) = drop k (pend s @ vs)" by force
    with True show ?thesis by (intro exI [of _ k] exI [of _ vs]) simp
  next
    case False
    with 3(1) [of "deq s"] 3(2,3) obtain k vs where "k \<le> dequeues ops" "list_all2 val (enqueued ops) vs"
      "pend (queue_run pend enq deq ops (deq s)) = drop k (pend (deq s) @ vs)" using deq_invar by force
    moreover have "drop k (tl (pend s) @ vs) = drop (Suc k) (pend s @ vs)"
      using False by (cases "pend s") simp_all
    ultimately show ?thesis
      using False 3 by (intro exI [of _ "Suc k"] exI [of _ vs]) (simp add: deq_pend del: drop_append)
  qed
qed

end

section \<open>Names\<close>

lemma metaTable_inject [simp]: "metaTable p t n = metaTable p t' n \<longleftrightarrow> t = t'"
  by (simp add: metaTable_def)

lemma metaTable_not_global [simp]: "metaTable p t changeLogName \<noteq> globalMetaTable p"
proof
  assume "metaTable p t changeLogName = globalMetaTable p"
  then have "last (metaTable p t changeLogName) = last (globalMetaTable p)" by simp
  then show False by (simp add: metaTable_def globalMetaTable_def changeLogName_def)
qed

lemmas global_not_metaTable [simp] = metaTable_not_global [symmetric]

section \<open>Reading the invariant\<close>

lemma rows_of_upd: "rows_of (d(t \<mapsto> tb)) t' = (if t' = t then t_rows tb else rows_of d t')"
  by (simp add: rows_of_def)

lemma rows_of_upd_other [simp]: "t' \<noteq> t \<Longrightarrow> rows_of (d(t \<mapsto> tb)) t' = rows_of d t'"
  by (simp add: rows_of_upd)

lemma rows_of_upd_same [simp]: "rows_of (d(t \<mapsto> tb)) t = t_rows tb"
  by (simp add: rows_of_upd)

lemma rows_of_Some: "d t = Some tb \<Longrightarrow> rows_of d t = t_rows tb"
  by (simp add: rows_of_def)

lemma entry_of_grow [simp]: "entry_of (grow g) = g"
  by (simp add: entry_of_def grow_def int_cell_def text_cell_def)

lemma cell_grow [simp]:
  "cell (grow g) ''id'' = DInt (g_Id g)" "cell (grow g) ''change_table_id'' = DInt (g_ChangeTableId g)"
  "cell (grow g) ''table_name'' = DText (g_TableName g)"
  by (simp_all add: grow_def)

lemma scan_global_grow [simp]: "scan_global (grow g) = Ok g"
  by (simp add: scan_global_def res_simps)

lemma find_unique:
  "distinct (map f xs) \<Longrightarrow> x \<in> set xs \<Longrightarrow> find (\<lambda>y. f y = f x) xs = Some x"
  by (induction xs) (auto simp: rev_image_eqI)

text \<open>The row of a queued change, with what is known of it.\<close>

lemma queued_row:
  assumes wf: "cdc_wf p sch d" and g: "g \<in> set (queue p d)"
  obtains info lt r where "map_of sch (g_TableName g) = Some info"
    "d (metaTable p (g_TableName g) changeLogName) = Some lt" "log_wf info lt"
    "r \<in> set (t_rows lt)" "cell r ''id'' = DInt (g_ChangeTableId g)" "cell r ''state'' = DInt Pending"
    "log_row p d g = r"
proof -
  from wf g have q: "queued_ok p sch d g" by (simp add: cdc_wf_def)
  then obtain info where info: "map_of sch (g_TableName g) = Some info" by (auto simp: queued_ok_def)
  with wf obtain lt where lt: "d (metaTable p (g_TableName g) changeLogName) = Some lt" "log_wf info lt"
    unfolding cdc_wf_def by blast
  from q obtain r where r: "r \<in> set (t_rows lt)" "cell r ''id'' = DInt (g_ChangeTableId g)"
    "cell r ''state'' = DInt Pending" by (auto simp: queued_ok_def rows_of_Some [of d _ lt, OF lt(1)])
  have id: "cell y ''id'' = DInt (int_cell ''id'' y)" if "y \<in> set (t_rows lt)" for y
    using lt(2) that by (simp add: log_wf_def)
  have "int_cell ''id'' r = g_ChangeTableId g" by (simp add: int_cell_def r(2))
  then have "find (\<lambda>y. cell y ''id'' = DInt (g_ChangeTableId g)) (t_rows lt)
      = find (\<lambda>y. int_cell ''id'' y = int_cell ''id'' r) (t_rows lt)"
    by (intro find_cong refl) (simp add: id)
  also have "\<dots> = Some r" using lt(2) r(1) by (intro find_unique) (simp_all add: log_wf_def)
  finally have "log_row p d g = r" by (simp add: log_row_def rows_of_Some [of d _ lt, OF lt(1)])
  with that info lt r show ?thesis by blast
qed


section \<open>Marking a change published\<close>

definition mark_log :: "string \<Rightarrow> globalChangeLogEntry \<Rightarrow> stmt" where
  "mark_log p g = UpdateSet (metaTable p (g_TableName g) changeLogName) [(''state'', DInt Published)]
     [CEq ''id'' (DInt (g_ChangeTableId g))]"

definition mark_global :: "string \<Rightarrow> globalChangeLogEntry \<Rightarrow> stmt" where
  "mark_global p g = DeleteFrom (globalMetaTable p) [CEq ''id'' (DInt (g_Id g))]"

definition mark_db :: "string \<Rightarrow> globalChangeLogEntry \<Rightarrow> sqldb \<Rightarrow> sqldb" where
  "mark_db p g d = sql_after (mark_global p g) (sql_after (mark_log p g) d)"

lemma map_fst_set_cells [simp]: "map fst (set_cells us r) = map fst r"
  by (simp add: set_cells_def comp_def case_prod_beta)

lemma cell_set_state [simp]: "c \<noteq> ''state'' \<Longrightarrow> cell (set_cells [(''state'', v)] r) c = cell r c"
  by (induction r) (auto simp: set_cells_def)

lemma typed_cell_set_state [simp]:
  "c \<noteq> ''state'' \<Longrightarrow> int_cell c (set_cells [(''state'', v)] r) = int_cell c r"
  "c \<noteq> ''state'' \<Longrightarrow> text_cell c (set_cells [(''state'', v)] r) = text_cell c r"
  by (simp_all add: int_cell_def text_cell_def)

lemma find_map_id:
  "(\<And>x. x \<in> set xs \<Longrightarrow> P (f x) = P x) \<Longrightarrow> (\<And>x. x \<in> set xs \<Longrightarrow> P x \<Longrightarrow> f x = x) \<Longrightarrow> find P (map f xs) = find P xs"
  by (induction xs) auto

lemma log_wf_update:
  assumes "log_wf info lt"
  shows "log_wf info (update_where [(''state'', v)] cs lt)"
proof -
  have id: "int_cell ''id'' (if b then set_cells [(''state'', v)] r else r) = int_cell ''id'' r" for r b
    by simp
  from assms show ?thesis by (auto simp: log_wf_def update_where_def comp_def id)
qed

text \<open>Both statements run, each on its own table.\<close>

lemma mark_sem:
  assumes wf: "cdc_wf p sch d" and g: "g \<in> set (queue p d)"
  obtains info lt gt where "map_of sch (g_TableName g) = Some info"
    "d (metaTable p (g_TableName g) changeLogName) = Some lt" "log_wf info lt"
    "d (globalMetaTable p) = Some gt" "global_wf gt"
    "\<exists>n. sql_sem (mark_log p g) d = Some (Affected n, d(metaTable p (g_TableName g) changeLogName \<mapsto>
        update_where [(''state'', DInt Published)] [CEq ''id'' (DInt (g_ChangeTableId g))] lt))"
    "\<exists>n. sql_sem (mark_global p g) (sql_after (mark_log p g) d) = Some (Affected n, mark_db p g d)"
    "mark_db p g d = d(metaTable p (g_TableName g) changeLogName \<mapsto>
        update_where [(''state'', DInt Published)] [CEq ''id'' (DInt (g_ChangeTableId g))] lt,
        globalMetaTable p \<mapsto> delete_where [CEq ''id'' (DInt (g_Id g))] gt)"
proof -
  from queued_row [OF wf g] obtain info lt where
    lt: "map_of sch (g_TableName g) = Some info" "d (metaTable p (g_TableName g) changeLogName) = Some lt"
      "log_wf info lt" by metis
  from wf obtain gt where gt: "d (globalMetaTable p) = Some gt" "global_wf gt" by (auto simp: cdc_wf_def)
  have "known [''state'', ''id''] lt" "known [''id''] gt"
    using lt(3) gt(2) by (simp_all add: log_wf_def global_wf_def known_def log_cols_def global_cols_def)
  then have a: "sql_sem (mark_log p g) d = Some (Affected (int (length (filter (sats [CEq ''id'' (DInt (g_ChangeTableId g))]) (t_rows lt)))),
      d(metaTable p (g_TableName g) changeLogName \<mapsto>
        update_where [(''state'', DInt Published)] [CEq ''id'' (DInt (g_ChangeTableId g))] lt))"
    by (simp add: mark_log_def lt(2))
  with \<open>known [''id''] gt\<close> have "sql_sem (mark_global p g) (sql_after (mark_log p g) d)
      = Some (Affected (int (length (filter (sats [CEq ''id'' (DInt (g_Id g))]) (t_rows gt)))),
          d(metaTable p (g_TableName g) changeLogName \<mapsto>
        update_where [(''state'', DInt Published)] [CEq ''id'' (DInt (g_ChangeTableId g))] lt,
        globalMetaTable p \<mapsto> delete_where [CEq ''id'' (DInt (g_Id g))] gt))"
    by (simp add: mark_global_def sql_after_def gt(1))
  with a that [OF lt gt] show ?thesis by (auto simp: mark_db_def sql_after_def)
qed


lemma sats_eq_int [simp]: "sats [CEq c (DInt i)] r \<longleftrightarrow> cell r c = DInt i"
  by (simp add: sats_def)

lemma global_wfD:
  assumes "global_wf gt"
  shows "t_cols gt = global_cols" "sorted (map (int_cell ''id'') (t_rows gt))"
    "distinct (map (int_cell ''id'') (t_rows gt))"
  using assms strict_sorted_iff unfolding global_wf_def by blast+

lemma global_wf_cell:
  "global_wf gt \<Longrightarrow> r \<in> set (t_rows gt) \<Longrightarrow> cell r ''id'' = DInt (g_Id (entry_of r))"
  unfolding global_wf_def by (metis cell_grow(1))

lemma global_wf_inj:
  assumes "global_wf gt" and "r \<in> set (t_rows gt)" and "r' \<in> set (t_rows gt)"
    and "g_Id (entry_of r) = g_Id (entry_of r')"
  shows "r = r'"
proof -
  have "distinct (map (int_cell ''id'') (t_rows gt))" by (rule global_wfD(3) [OF assms(1)])
  moreover have "int_cell ''id'' r = int_cell ''id'' r'" using assms(4) by (simp add: entry_of_def)
  ultimately show ?thesis using assms(2,3) by (auto simp: distinct_map dest: inj_onD)
qed

lemma global_wf_inj_change:
  assumes "global_wf gt" and "r \<in> set (t_rows gt)" and "r' \<in> set (t_rows gt)"
    and "g_TableName (entry_of r) = g_TableName (entry_of r')"
    and "g_ChangeTableId (entry_of r) = g_ChangeTableId (entry_of r')"
  shows "r = r'"
  using assms by (auto simp: global_wf_def distinct_map dest: inj_onD)

lemma mark_queue:
  assumes wf: "cdc_wf p sch d" and g: "g \<in> set (queue p d)"
  shows "queue p (mark_db p g d) = filter (\<lambda>x. x \<noteq> g) (queue p d)"
proof (rule mark_sem [OF wf g])
  fix info lt gt
  assume gt: "d (globalMetaTable p) = Some gt" "global_wf gt"
    and md: "mark_db p g d = d(metaTable p (g_TableName g) changeLogName \<mapsto>
        update_where [(''state'', DInt Published)] [CEq ''id'' (DInt (g_ChangeTableId g))] lt,
        globalMetaTable p \<mapsto> delete_where [CEq ''id'' (DInt (g_Id g))] gt)"
  have q: "queue p d = map entry_of (t_rows gt)" by (simp add: queue_def rows_of_Some [of d _ gt, OF gt(1)])
  from g q obtain r0 where r0: "r0 \<in> set (t_rows gt)" "g = entry_of r0" by auto
  have "cell r ''id'' = DInt (g_Id g) \<longleftrightarrow> entry_of r = g" if "r \<in> set (t_rows gt)" for r
    using global_wf_cell [OF gt(2) that] global_wf_inj [OF gt(2) that r0(1)] r0(2) by auto
  then have "filter (\<lambda>r. cell r ''id'' \<noteq> DInt (g_Id g)) (t_rows gt) = filter (\<lambda>r. entry_of r \<noteq> g) (t_rows gt)"
    by (intro filter_cong) auto
  then show ?thesis
    by (simp add: md q queue_def [of p "d(_ \<mapsto> _, _ \<mapsto> _)"] delete_where_def filter_map comp_def)
qed

text \<open>The rows of the other queued changes stay as they are.\<close>

lemma mark_log_row:
  assumes wf: "cdc_wf p sch d" and g: "g \<in> set (queue p d)" and g': "g' \<in> set (queue p d)" "g' \<noteq> g"
  shows "log_row p (mark_db p g d) g' = log_row p d g' \<and>
     (log_row p d g' \<in> set (rows_of (mark_db p g d) (metaTable p (g_TableName g') changeLogName)))"
proof (rule mark_sem [OF wf g], rule queued_row [OF wf g'(1)])
  fix info lt gt info' lt' r
  assume lt: "d (metaTable p (g_TableName g) changeLogName) = Some lt"
    and gt: "d (globalMetaTable p) = Some gt" "global_wf gt"
    and md: "mark_db p g d = d(metaTable p (g_TableName g) changeLogName \<mapsto>
        update_where [(''state'', DInt Published)] [CEq ''id'' (DInt (g_ChangeTableId g))] lt,
        globalMetaTable p \<mapsto> delete_where [CEq ''id'' (DInt (g_Id g))] gt)"
    and r: "d (metaTable p (g_TableName g') changeLogName) = Some lt'" "r \<in> set (t_rows lt')"
      "cell r ''id'' = DInt (g_ChangeTableId g')" "log_row p d g' = r"
  let ?F = "\<lambda>r. if cell r ''id'' = DInt (g_ChangeTableId g) then set_cells [(''state'', DInt Published)] r else r"
  show ?thesis
  proof (cases "g_TableName g' = g_TableName g")
    case False
    then show ?thesis using r by (simp add: md log_row_def rows_of_Some)
  next
    case True
    have "g_ChangeTableId g' \<noteq> g_ChangeTableId g"
      using g g' gt True global_wf_inj_change [OF gt(2)] by (auto simp: queue_def rows_of_Some)
    then have "find (\<lambda>r. cell r ''id'' = DInt (g_ChangeTableId g')) (map ?F (t_rows lt))
        = find (\<lambda>r. cell r ''id'' = DInt (g_ChangeTableId g')) (t_rows lt)" and "?F r = r"
      using r(3) by (auto intro!: find_map_id split: if_splits)
    with True lt r show ?thesis
      by (auto simp: md log_row_def rows_of_Some update_where_def image_iff intro!: bexI [of _ r])
  qed
qed

lemma mark_wf:
  assumes wf: "cdc_wf p sch d" and g: "g \<in> set (queue p d)"
  shows "cdc_wf p sch (mark_db p g d)"
proof (rule mark_sem [OF wf g])
  fix info lt gt
  assume lt: "map_of sch (g_TableName g) = Some info" "d (metaTable p (g_TableName g) changeLogName) = Some lt" "log_wf info lt"
    and gt: "d (globalMetaTable p) = Some gt" "global_wf gt"
    and md: "mark_db p g d = d(metaTable p (g_TableName g) changeLogName \<mapsto>
        update_where [(''state'', DInt Published)] [CEq ''id'' (DInt (g_ChangeTableId g))] lt,
        globalMetaTable p \<mapsto> delete_where [CEq ''id'' (DInt (g_Id g))] gt)"
  have "queued_ok p sch (mark_db p g d) g'" if "g' \<in> set (queue p (mark_db p g d))" for g'
  proof -
    from that have g': "g' \<in> set (queue p d)" "g' \<noteq> g" by (auto simp: mark_queue [OF wf g])
    with mark_log_row [OF wf g g'] show ?thesis
      by (rule_tac queued_row [OF wf g'(1)]) (auto simp: queued_ok_def)
  qed
  moreover have "global_wf (delete_where [CEq ''id'' (DInt (g_Id g))] gt)"
    using gt(2) by (auto simp: global_wf_def delete_where_def sorted_wrt_map intro: sorted_wrt_filter distinct_map_filter)
  moreover have "\<exists>lt'. mark_db p g d (metaTable p t changeLogName) = Some lt' \<and> log_wf i lt'"
    if "map_of sch t = Some i" for t i
    using wf that lt log_wf_update [OF lt(3)] by (cases "t = g_TableName g") (auto simp: md cdc_wf_def)
  ultimately show ?thesis using wf by (auto simp: cdc_wf_def md)
qed

lemma mark_pending:
  assumes wf: "cdc_wf p sch d" and g: "g \<in> set (queue p d)"
  shows "pending p sch (mark_db p g d) = map (change_event p sch d) (filter (\<lambda>x. x \<noteq> g) (queue p d))"
  unfolding pending_def mark_queue [OF wf g]
  using mark_log_row [OF wf g] by (auto simp: change_event_def)


section \<open>Capturing a change\<close>

text \<open>The event a captured change becomes.\<close>

definition captured_event :: "ColumnInfo list \<Rightarrow> string \<Rightarrow> row_change \<Rightarrow> ChangeLogEvent \<Rightarrow> bool" where
  "captured_event info t rc e \<longleftrightarrow>
     ev_Type e = trigger_name rc \<and> ev_TableName e = t \<and> ev_tableInfo e = info \<and>
     ev_Row e = map (\<lambda>c. (ci_Name c, GVal (cell (read_target rc) (ci_Name c)))) info"

definition log_new :: "ColumnInfo list \<Rightarrow> int \<Rightarrow> row_change \<Rightarrow> sqltable \<Rightarrow> drow" where
  "log_new info now rc lt = full_row (log_cols info) ((''id'', DInt (t_seq lt + 1)) # log_given info now rc)"

lemma val_col_simps [simp]:
  "val_col a = val_col b \<longleftrightarrow> a = b" "''id'' \<noteq> val_col a" "''type'' \<noteq> val_col a" "''state'' \<noteq> val_col a"
  "''created_at'' \<noteq> val_col a" "val_col a \<noteq> ''id''" "val_col a \<noteq> ''type''" "val_col a \<noteq> ''state''"
  by (auto simp: val_col_def)

lemma cell_vals:
  "c \<in> set info \<Longrightarrow>
     cell (map (\<lambda>c. (val_col (ci_Name c), f (ci_Name c))) info @ ys) (val_col (ci_Name c)) = f (ci_Name c)"
  by (induction info) auto

lemma cell_not_val:
  "(\<And>s. k \<noteq> val_col s) \<Longrightarrow> cell (map (\<lambda>c. (val_col (ci_Name c), g c)) info @ ys) k = cell ys k"
  by (induction info) auto

lemma cell_log_new:
  "cell (log_new info now rc lt) ''id'' = DInt (t_seq lt + 1)"
  "cell (log_new info now rc lt) ''type'' = DText (trigger_name rc)"
  "cell (log_new info now rc lt) ''state'' = DInt Pending"
  "c \<in> set info \<Longrightarrow> cell (log_new info now rc lt) (val_col (ci_Name c)) = cell (read_target rc) (ci_Name c)"
  by (simp_all add: log_new_def log_cols_def log_given_def cell_not_val cell_vals)

lemma find_append_Some: "find P xs = Some x \<Longrightarrow> find P (xs @ ys) = Some x"
  by (induction xs) (auto split: if_splits)

lemma find_append_new: "(\<And>x. x \<in> set xs \<Longrightarrow> \<not> P x) \<Longrightarrow> P y \<Longrightarrow> find P (xs @ [y]) = Some y"
  by (induction xs) auto

lemma log_wf_insert:
  assumes "log_wf info lt"
  shows "log_wf info (insert_auto (log_given info now rc) lt)"
proof -
  have *: "t_rows (insert_auto (log_given info now rc) lt) = t_rows lt @ [log_new info now rc lt]"
    "t_seq (insert_auto (log_given info now rc) lt) = t_seq lt + 1"
    using assms by (simp_all add: insert_auto_def log_new_def log_wf_def)
  have new: "int_cell ''id'' (log_new info now rc lt) = t_seq lt + 1"
    "text_cell ''type'' (log_new info now rc lt) = trigger_name rc"
    by (simp_all add: int_cell_def text_cell_def cell_log_new)
  have "int_cell ''id'' r \<noteq> t_seq lt + 1" if "r \<in> set (t_rows lt)" for r
    using assms that by (fastforce simp: log_wf_def)
  with assms show ?thesis
    unfolding log_wf_def * by (auto simp: insert_auto_def new cell_log_new intro: order_trans)
       (auto simp: log_new_def)
qed

lemma global_new:
  "global_wf gt \<Longrightarrow> full_row (t_cols gt) [(''id'', DInt i), (''change_table_id'', DInt c), (''table_name'', DText t)]
     = grow \<lparr>g_Id = i, g_ChangeTableId = c, g_TableName = t\<rparr>"
  by (simp add: global_wf_def global_cols_def full_row_def grow_def)

text \<open>Where the two inserts of a capture lead.\<close>

lemma capture_sem:
  assumes wf: "cdc_wf p sch d" and info: "map_of sch t = Some info" and app: "''marmot_version'' \<notin> set (h_funcs h)"
  obtains lt gt where "d (metaTable p t changeLogName) = Some lt" "log_wf info lt"
    "d (globalMetaTable p) = Some gt" "global_wf gt"
    "change_trigger p h t info now rc d = Some (d(metaTable p t changeLogName \<mapsto> insert_auto (log_given info now rc) lt,
       globalMetaTable p \<mapsto> insert_auto [(''change_table_id'', DInt (t_seq lt + 1)), (''table_name'', DText t)] gt))"
proof -
  from wf obtain gt where gt: "d (globalMetaTable p) = Some gt" "global_wf gt" by (auto simp: cdc_wf_def)
  from wf info obtain lt where lt: "d (metaTable p t changeLogName) = Some lt" "log_wf info lt"
    unfolding cdc_wf_def by blast
  have "known (map fst (log_given info now rc)) lt" "known [''change_table_id'', ''table_name''] gt"
    using lt(2) gt(2)
    by (auto simp: known_def log_wf_def global_wf_def log_cols_def global_cols_def log_given_def list_all_iff)
  then have "change_trigger p h t info now rc d = Some (d(metaTable p t changeLogName \<mapsto> insert_auto (log_given info now rc) lt,
       globalMetaTable p \<mapsto> insert_auto [(''change_table_id'', DInt (t_seq lt + 1)), (''table_name'', DText t)] gt))"
    using app lt gt
    by (simp add: change_trigger_def log_insert_def global_insert_def)
  with that lt gt show ?thesis by blast
qed


text \<open>The database after a capture.\<close>

definition capture_db :: "string \<Rightarrow> string \<Rightarrow> ColumnInfo list \<Rightarrow> int \<Rightarrow> row_change \<Rightarrow> sqltable \<Rightarrow> sqltable \<Rightarrow> sqldb \<Rightarrow> sqldb" where
  "capture_db p t info now rc lt gt d =
     d(metaTable p t changeLogName \<mapsto> insert_auto (log_given info now rc) lt,
       globalMetaTable p \<mapsto> insert_auto [(''change_table_id'', DInt (t_seq lt + 1)), (''table_name'', DText t)] gt)"

lemma capture_rows:
  assumes lt: "d (metaTable p t changeLogName) = Some lt" "log_wf info lt"
    and gt: "d (globalMetaTable p) = Some gt" "global_wf gt"
  shows "rows_of (capture_db p t info now rc lt gt d) (metaTable p t' changeLogName) =
      rows_of d (metaTable p t' changeLogName) @ (if t' = t then [log_new info now rc lt] else [])"
    and "rows_of (capture_db p t info now rc lt gt d) (globalMetaTable p) = t_rows gt @
      [grow \<lparr>g_Id = t_seq gt + 1, g_ChangeTableId = t_seq lt + 1, g_TableName = t\<rparr>]"
  using lt(2) gt(2)
  by (simp_all add: capture_db_def insert_auto_def global_new rows_of_Some [of d _ lt, OF lt(1)] log_wf_def
      log_new_def)

lemma capture_queue:
  assumes lt: "d (metaTable p t changeLogName) = Some lt" "log_wf info lt"
    and gt: "d (globalMetaTable p) = Some gt" "global_wf gt"
  shows "queue p (capture_db p t info now rc lt gt d) =
     queue p d @ [\<lparr>g_Id = t_seq gt + 1, g_ChangeTableId = t_seq lt + 1, g_TableName = t\<rparr>]"
  using capture_rows(2) [OF assms] by (simp add: queue_def rows_of_Some [of d _ gt, OF gt(1)])

lemma capture_log_row:
  assumes wf: "cdc_wf p sch d" and lt: "d (metaTable p t changeLogName) = Some lt" "log_wf info lt"
    and gt: "d (globalMetaTable p) = Some gt" "global_wf gt" and g: "g \<in> set (queue p d)"
  shows "log_row p (capture_db p t info now rc lt gt d) g = log_row p d g"
proof -
  from queued_row [OF wf g] obtain r where "r \<in> set (rows_of d (metaTable p (g_TableName g) changeLogName))"
    "cell r ''id'' = DInt (g_ChangeTableId g)" by (metis rows_of_Some)
  then have "find (\<lambda>r. cell r ''id'' = DInt (g_ChangeTableId g)) (rows_of d (metaTable p (g_TableName g) changeLogName)) \<noteq> None"
    by (auto simp: find_None_iff)
  then show ?thesis
    by (auto simp: log_row_def capture_rows(1) [OF lt gt] find_append_Some)
qed

lemma capture_new_row:
  assumes lt: "d (metaTable p t changeLogName) = Some lt" "log_wf info lt"
    and gt: "d (globalMetaTable p) = Some gt" "global_wf gt"
  shows "log_row p (capture_db p t info now rc lt gt d) \<lparr>g_Id = i, g_ChangeTableId = t_seq lt + 1, g_TableName = t\<rparr>
     = log_new info now rc lt"
proof -
  have "cell r ''id'' \<noteq> DInt (t_seq lt + 1)" if "r \<in> set (t_rows lt)" for r
    using lt(2) that by (force simp: log_wf_def)
  then show ?thesis
    by (simp add: log_row_def capture_rows(1) [OF lt gt] rows_of_Some [of d _ lt, OF lt(1)] find_append_new cell_log_new)
qed

lemma capture_wf:
  assumes wf: "cdc_wf p sch d" and info: "map_of sch t = Some info"
    and lt: "d (metaTable p t changeLogName) = Some lt" "log_wf info lt"
    and gt: "d (globalMetaTable p) = Some gt" "global_wf gt"
  shows "cdc_wf p sch (capture_db p t info now rc lt gt d)" (is "cdc_wf p sch ?d")
proof -
  let ?g = "\<lparr>g_Id = t_seq gt + 1, g_ChangeTableId = t_seq lt + 1, g_TableName = t\<rparr>"
  let ?gt = "insert_auto [(''change_table_id'', DInt (t_seq lt + 1)), (''table_name'', DText t)] gt"
  have rows: "t_rows ?gt = t_rows gt @ [grow ?g]" using gt(2) by (simp add: insert_auto_def global_new)
  have fresh: "\<not> (g_TableName (entry_of r) = t \<and> g_ChangeTableId (entry_of r) = t_seq lt + 1)"
    if r: "r \<in> set (t_rows gt)" for r
  proof
    assume eq: "g_TableName (entry_of r) = t \<and> g_ChangeTableId (entry_of r) = t_seq lt + 1"
    have "entry_of r \<in> set (queue p d)" using r by (simp add: queue_def rows_of_Some [of d _ gt, OF gt(1)])
    with queued_row [OF wf this] obtain x where "x \<in> set (t_rows lt)" "cell x ''id'' = DInt (t_seq lt + 1)"
      using eq lt(1) by auto
    with lt(2) show False by (force simp: log_wf_def)
  qed
  have "(t, t_seq lt + 1) \<notin> (\<lambda>r. (g_TableName (entry_of r), g_ChangeTableId (entry_of r))) ` set (t_rows gt)"
    by (force dest: fresh)
  then have "global_wf ?gt"
    using gt(2) unfolding global_wf_def rows
    by (auto simp: insert_auto_def sorted_wrt_append int_cell_def [of _ "grow ?g"])
  moreover have "\<exists>lt'. ?d (metaTable p t' changeLogName) = Some lt' \<and> log_wf i lt'"
    if "map_of sch t' = Some i" for t' i
    using wf that info log_wf_insert [OF lt(2)] by (cases "t' = t") (auto simp: capture_db_def cdc_wf_def)
  moreover have "queued_ok p sch ?d g" if "g \<in> set (queue p ?d)" for g
    using that wf info unfolding capture_queue [OF lt gt]
    by (auto simp: queued_ok_def capture_rows(1) [OF lt gt] cell_log_new cdc_wf_def)
  ultimately show ?thesis using wf by (auto simp: cdc_wf_def capture_db_def)
qed

lemma capture_pending:
  assumes wf: "cdc_wf p sch d" and info: "map_of sch t = Some info"
    and lt: "d (metaTable p t changeLogName) = Some lt" "log_wf info lt"
    and gt: "d (globalMetaTable p) = Some gt" "global_wf gt"
  shows "\<exists>e. captured_event info t rc e \<and> pending p sch (capture_db p t info now rc lt gt d) = pending p sch d @ [e]"
  using capture_log_row [OF wf lt gt, of _ now rc] info
  by (auto simp: pending_def capture_queue [OF lt gt] change_event_def capture_new_row [OF lt gt] info_of_def
      captured_event_def event_of_row_def cell_log_new text_cell_def)


section \<open>The change log is a queue\<close>

text \<open>A connection of an application: it does not have the node's SQL function.\<close>

definition app_handle :: sqlhandle where
  "app_handle = \<lparr>h_id = 0, h_funcs = []\<rparr>"

text \<open>A committed change of an application, and the publisher's acknowledgement of the oldest change.\<close>

definition capture ::
  "string \<Rightarrow> (string \<times> ColumnInfo list) list \<Rightarrow> string \<times> int \<times> row_change \<Rightarrow> sqldb \<Rightarrow> sqldb" where
  "capture p sch x d =
     (case x of (t, now, rc) \<Rightarrow>
        (case change_trigger p app_handle t (info_of sch t) now rc d of None \<Rightarrow> d | Some d' \<Rightarrow> d'))"

definition ack :: "string \<Rightarrow> sqldb \<Rightarrow> sqldb" where
  "ack p d = (case queue p d of [] \<Rightarrow> d | g # _ \<Rightarrow> mark_db p g d)"

lemma queue_distinct: "cdc_wf p sch d \<Longrightarrow> distinct (queue p d)"
  by (auto simp: cdc_wf_def global_wf_def queue_def rows_of_def distinct_map inj_on_def)

lemma mark_head_pending:
  assumes wf: "cdc_wf p sch d" and q: "queue p d = g # gs"
  shows "pending p sch (mark_db p g d) = tl (pending p sch d)" and "queue p (mark_db p g d) = gs"
proof -
  have f: "filter (\<lambda>x. x \<noteq> g) (queue p d) = gs"
    using queue_distinct [OF wf] q by (auto simp: filter_id_conv)
  show "pending p sch (mark_db p g d) = tl (pending p sch d)"
    using mark_pending [OF wf, of g] f q by (simp add: pending_def)
  show "queue p (mark_db p g d) = gs"
    using mark_queue [OF wf, of g] f q by simp
qed

interpretation cdcq: fifo_queue "pending p sch" "cdc_wf p sch" "capture p sch" "ack p"
  "\<lambda>(t, now, rc). map_of sch t \<noteq> None" "\<lambda>(t, now, rc). captured_event (info_of sch t) t rc" for p sch
proof unfold_locales
  fix d and x :: "string \<times> int \<times> row_change"
  assume wf: "cdc_wf p sch d" and ok: "case x of (t, now, rc) \<Rightarrow> map_of sch t \<noteq> None"
  obtain t now rc where x: "x = (t, now, rc)" by (cases x)
  with ok obtain info where info: "map_of sch t = Some info" by auto
  have app: "''marmot_version'' \<notin> set (h_funcs app_handle)" by (simp add: app_handle_def)
  from capture_sem [OF wf info app, of now rc] obtain lt gt where
    c: "d (metaTable p t changeLogName) = Some lt" "log_wf info lt" "d (globalMetaTable p) = Some gt" "global_wf gt"
    and cap: "change_trigger p app_handle t info now rc d = Some (capture_db p t info now rc lt gt d)"
    unfolding capture_db_def by metis
  have "capture p sch x d = capture_db p t info now rc lt gt d"
    using cap info by (simp add: capture_def x info_of_def)
  with capture_wf [OF wf info c] capture_pending [OF wf info c] info
  show "cdc_wf p sch (capture p sch x d)"
    and "\<exists>e. (case x of (t, now, rc) \<Rightarrow> captured_event (info_of sch t) t rc) e \<and>
        pending p sch (capture p sch x d) = pending p sch d @ [e]"
    by (simp_all add: x info_of_def)
next
  fix d assume wf: "cdc_wf p sch d" and "pending p sch d \<noteq> []"
  then obtain g gs where q: "queue p d = g # gs" by (cases "queue p d") (auto simp: pending_def)
  with mark_wf [OF wf, of g] mark_head_pending [OF wf q]
  show "cdc_wf p sch (ack p d)" and "pending p sch (ack p d) = tl (pending p sch d)"
    by (simp_all add: ack_def)
qed

end
