(* ===== verification/Publish.thy ===== *)
theory Publish
  imports Cdc Replicate "HOL-Library.Sublist"
begin

text \<open>
  Correctness of \<open>publishChangeLog\<close>: each call it makes is shown to read or change exactly what
  the queue of \<open>Cdc\<close> says, with and without faults of the driver, and the loop is shown to hand
  the waiting changes to \<open>OnChange\<close> oldest first.
\<close>

section \<open>Reading calls\<close>

text \<open>Nothing moved but the call counter, the pool and the callback's state.\<close>

definition moved :: "db_env \<Rightarrow> nat set \<Rightarrow> 'x StreamDB \<Rightarrow> 'x \<Rightarrow> 'x StreamDB \<Rightarrow> bool" where
  "moved env B w x w' \<longleftrightarrow> 
     db_ready env w' B \<and> w' = w\<lparr>sd_tick := sd_tick w', sd_pool := sd_pool w', sd_ext := x\<rparr>"

text \<open>A call that reads \<open>v\<close>, or fails because the driver did.\<close>

definition reads :: "db_env \<Rightarrow> nat set \<Rightarrow> 'x StreamDB \<Rightarrow> 'a \<Rightarrow> 'a res \<times> 'x StreamDB \<Rightarrow> bool" where
  "reads env B w v rw \<longleftrightarrow>
     moved env B w (sd_ext w) (snd rw) \<and> (fst rw = Ok v \<or> (\<exists>e. fst rw = Err e) \<and> \<not> healthy env)"

lemma movedI:
  "w' = w\<lparr>sd_tick := t, sd_pool := p, sd_ext := x\<rparr> \<Longrightarrow> driver_returns (e_driver env) \<Longrightarrow> pool_inv p B \<Longrightarrow>
     card B < p_cap p \<Longrightarrow> moved env B w x w'"
  by (simp add: moved_def db_ready_def)

lemma movedE:
  assumes "moved env B w x w'"
  obtains t p where "w' = w\<lparr>sd_tick := t, sd_pool := p, sd_ext := x\<rparr>" "driver_returns (e_driver env)"
    "pool_inv p B" "card B < p_cap p"
  using assms by (auto simp: moved_def db_ready_def)

lemma moved_fields:
  assumes "moved env B w x w'"
  shows "sd_db w' = sd_db w \<and> sd_schema w' = sd_schema w \<and> sd_prefix w' = sd_prefix w \<and>
     sd_ext w' = x \<and> db_ready env w' B \<and> sd_published w' = sd_published w \<and> sd_publishLock w' = sd_publishLock w \<and>
     sd_pendingPublish w' = sd_pendingPublish w"
  using assms by (elim movedE) (simp add: db_ready_def)

lemma moved_trans: "moved env B w x w1 \<Longrightarrow> moved env B w1 y w2 \<Longrightarrow> moved env B w y w2"
  by (elim movedE) (rule movedI, simp_all)

lemma moved_ext: "moved env B w x w' \<Longrightarrow> moved env B w y (w'\<lparr>sd_ext := y\<rparr>)"
  by (elim movedE) (rule movedI, simp_all)

lemma moved_db: "moved env B w x w' \<Longrightarrow> moved env B (w\<lparr>sd_db := d\<rparr>) x (w'\<lparr>sd_db := d\<rparr>)"
  by (elim movedE) (rule movedI [where t = "sd_tick w'" and p = "sd_pool w'"], simp_all)

lemma moved_tick: "db_ready env w B \<Longrightarrow> moved env B w (sd_ext w) (w\<lparr>sd_tick := t\<rparr>)"
  by (rule movedI [where t = t and p = "sd_pool w"]) (simp_all add: db_ready_def)

lemma pool_free_dep:
  assumes "\<And>st. pool_free (f st)" and "\<And>w p. S (w\<lparr>sd_pool := p\<rparr>) = S w"
  shows "pool_free (\<lambda>w. f (S w) w)"
  using assms by (simp add: pool_free_def)

lemma pool_free_select [simp]: "pool_free (select env st k)"
  unfolding select_def by (intro pool_free_bindR pool_free_exec pool_free_lift_res)

lemma reads_select:
  assumes rdy: "db_ready env w B" and sem: "sql_sem (S w) (sd_db w) = Some (r, sd_db w)" and k: "k r = Ok v"
    and S: "\<And>w p. S (w\<lparr>sd_pool := p\<rparr>) = S w"
  shows "reads env B w v (borrow_conn env (\<lambda>w. select env (S w) k w) w)"
proof -
  let ?body = "\<lambda>w. select env (S w) k w" and ?w = "w\<lparr>sd_tick := Suc (sd_tick w)\<rparr>"
  have pf: "pool_free ?body" by (rule pool_free_dep [OF pool_free_select S])
  have b: "?body w = (if e_fault env (sd_tick w) = None then Ok v else Err (the (e_fault env (sd_tick w))), ?w)"
    using sem k by (auto simp: select_def exec_def bindR_def drv_call_def lift_res_def)
  then have nb: "fst (?body w) \<noteq> Block" by simp
  have mv: "moved env B w (sd_ext w) (?w\<lparr>sd_pool := p\<rparr>)" if "pool_inv p B" "p_cap p = p_cap (sd_pool w)" for p
    using that rdy by (intro movedI [where t = "Suc (sd_tick w)" and p = p]) (simp_all add: db_ready_def)
  show ?thesis
  proof (cases "healthy env")
    case True
    with borrow_conn_healthy [OF True rdy pf nb] b mv show ?thesis
      by (auto simp: reads_def healthy_def)
  next
    case False
    show ?thesis
    proof (rule borrow_conn_cases [OF rdy pf nb])
      fix p assume "pool_inv p B" "p_cap p = p_cap (sd_pool w)"
        "borrow_conn env ?body w = (fst (?body w), (snd (?body w))\<lparr>sd_pool := p\<rparr>)"
      with b mv False show ?thesis by (auto simp: reads_def)
    next
      fix e p assume p: "pool_inv p B" "p_cap p = p_cap (sd_pool w)"
        and eq: "borrow_conn env ?body w = (Err e, w\<lparr>sd_pool := p\<rparr>)"
      have "moved env B w (sd_ext w) (w\<lparr>sd_pool := p\<rparr>)"
        using p rdy by (intro movedI [where t = "sd_tick w" and p = p]) (simp_all add: db_ready_def)
      with eq False show ?thesis by (simp add: reads_def)
    qed
  qed
qed


subsection \<open>The queue\<close>

lemma scan_all_map: "(\<And>r. r \<in> set rs \<Longrightarrow> f r = Ok (g r)) \<Longrightarrow> scan_all f rs = Ok (map g rs)"
  by (induction rs) (auto simp: res_simps)

lemma set_limit_rows: "set (limit_rows n xs) \<subseteq> set xs"
  by (auto simp: limit_rows_def dest: in_set_takeD)

lemma limit_rows_Nil [simp]: "limit_rows n [] = []"
  by (simp add: limit_rows_def)

lemma map_limit_rows: "map f (limit_rows n xs) = limit_rows n (map f xs)"
  by (simp add: limit_rows_def take_map)

lemma project_global:
  "global_wf gt \<Longrightarrow> r \<in> set (t_rows gt) \<Longrightarrow>
     project [(''id'', ''id''), (''change_table_id'', ''change_table_id''), (''table_name'', ''table_name'')] r
       = grow (entry_of r)"
proof -
  assume "global_wf gt" and "r \<in> set (t_rows gt)"
  then obtain g where "r = grow g" by (auto simp: global_wf_def)
  then show ?thesis by (simp add: project_def) (simp add: grow_def)
qed

lemma sats_Nil [simp]: "sats [] = (\<lambda>_. True)"
  by (simp add: sats_def fun_eq_iff)

lemma countChanges_reads:
  assumes rdy: "db_ready env w B" and wf: "cdc_wf (sd_prefix w) sch (sd_db w)"
  shows "reads env B w (int (length (queue (sd_prefix w) (sd_db w)))) (countChanges env w)"
proof -
  from wf obtain gt where gt: "sd_db w (globalMetaTable (sd_prefix w)) = Some gt" by (auto simp: cdc_wf_def)
  show ?thesis
    unfolding countChanges_def
    by (rule reads_select [OF rdy, where S = "\<lambda>w. CountFrom (globalMetaTable (sd_prefix w))"
          and r = "CountIs (int (length (t_rows gt)))"])
      (simp_all add: gt queue_def rows_of_def)
qed

lemma getGlobalChanges_reads:
  assumes rdy: "db_ready env w B" and wf: "cdc_wf (sd_prefix w) sch (sd_db w)"
  shows "reads env B w (limit_rows (unat limit) (queue (sd_prefix w) (sd_db w))) (getGlobalChanges env limit w)"
proof -
  let ?cols = "[(''id'', ''id''), (''change_table_id'', ''change_table_id''), (''table_name'', ''table_name'')]"
  from wf obtain gt where gt: "sd_db w (globalMetaTable (sd_prefix w)) = Some gt" "global_wf gt"
    by (auto simp: cdc_wf_def)
  let ?rows = "limit_rows (unat limit) (t_rows gt)"
  have k: "known (map fst ?cols) gt" by (simp add: global_wfD(1) [OF gt(2)] global_cols_def known_def)
  have srt: "order_rows (Some ''id'') (t_rows gt) = t_rows gt"
    by (simp add: order_rows_def sort_key_id_if_sorted global_wfD(2) [OF gt(2)])
  have pr: "project ?cols r = grow (entry_of r)" if "r \<in> set ?rows" for r
    by (rule project_global [OF gt(2) subsetD [OF set_limit_rows that]])
  have "scan_all scan_global (map (project ?cols) ?rows) = Ok (map entry_of (map (project ?cols) ?rows))"
    using pr by (intro scan_all_map) auto
  also have "map entry_of (map (project ?cols) ?rows) = limit_rows (unat limit) (queue (sd_prefix w) (sd_db w))"
    using pr by (simp add: queue_def rows_of_Some [of "sd_db w" _ gt, OF gt(1)] map_limit_rows [symmetric])
  finally have sc: "bindE (rows_in (Rows (map (project ?cols) ?rows))) (scan_all scan_global)
      = Ok (limit_rows (unat limit) (queue (sd_prefix w) (sd_db w)))"
    by (simp add: rows_in_def res_simps)
  have "sql_sem (SelectFrom (globalMetaTable (sd_prefix w)) ?cols [] (Some ''id'') (unat limit)) (sd_db w)
      = Some (Rows (map (project ?cols) ?rows), sd_db w)"
    using k by (simp add: gt(1) srt)
  from reads_select [OF rdy, where S = "\<lambda>w. SelectFrom (globalMetaTable (sd_prefix w)) ?cols [] (Some ''id'') (unat limit)"
        and k = "\<lambda>r. bindE (rows_in r) (scan_all scan_global)", OF this sc] show ?thesis by (simp add: getGlobalChanges_def)
qed

subsection \<open>One change\<close>

definition log_entry :: "string \<Rightarrow> sqldb \<Rightarrow> globalChangeLogEntry \<Rightarrow> changeLogEntry" where
  "log_entry p d g = \<lparr>l_Id = g_ChangeTableId g, l_Type = text_cell ''type'' (log_row p d g), l_State = ''0''\<rparr>"

lemma filter_unique:
  "distinct (map f xs) \<Longrightarrow> x \<in> set xs \<Longrightarrow> filter (\<lambda>y. f y = f x) xs = [x]"
  by (induction xs) (auto simp: filter_empty_conv rev_image_eqI)

lemma filter_log_id:
  assumes "log_wf info lt" and "r \<in> set (t_rows lt)" and "cell r ''id'' = DInt i"
    and "P r" and "\<And>y. P y \<Longrightarrow> cell y ''id'' = DInt i"
  shows "filter P (t_rows lt) = [r]"
proof -
  have i: "int_cell ''id'' r = i" by (simp add: int_cell_def assms(3))
  have inj: "int_cell ''id'' y = int_cell ''id'' r \<Longrightarrow> y \<in> set (t_rows lt) \<Longrightarrow> y = r" for y
    using assms(1,2) by (auto simp: log_wf_def distinct_map dest: inj_onD)
  have "filter P (t_rows lt) = filter (\<lambda>y. int_cell ''id'' y = int_cell ''id'' r) (t_rows lt)"
    using assms(4,5) inj by (intro filter_cong) (auto simp: int_cell_def)
  with filter_unique [of "int_cell ''id''" "t_rows lt" r] assms(1,2) show ?thesis by (simp add: log_wf_def)
qed

text \<open>Columns of a change log.\<close>

lemma known_log:
  "log_wf info lt \<Longrightarrow> known [''id'', ''type'', ''state'', ''state'', ''id''] lt"
  "log_wf info lt \<Longrightarrow> known (''id'' # map (\<lambda>c. val_col (ci_Name c)) info @ [''id'']) lt"
  by (auto simp: log_wf_def known_def log_cols_def list_all_iff)

lemma getChangeEntry_reads:
  assumes rdy: "db_ready env w B" and wf: "cdc_wf (sd_prefix w) sch (sd_db w)"
    and g: "g \<in> set (queue (sd_prefix w) (sd_db w))"
  shows "reads env B w (Some (log_entry (sd_prefix w) (sd_db w) g)) (getChangeEntry env g w)"
proof (rule queued_row [OF wf g])
  fix info lt r
  let ?t = "metaTable (sd_prefix w) (g_TableName g) changeLogName"
  let ?cs = "[CEq ''state'' (DInt Pending), CEq ''id'' (DInt (g_ChangeTableId g))]"
  let ?cols = "[(''id'', ''id''), (''type'', ''type''), (''state'', ''state'')]"
  let ?k = "\<lambda>r. bindE (rows_in r) (\<lambda>rows. case rows of [] \<Rightarrow> Ok None | x # _ \<Rightarrow> bindE (scan_log x) (\<lambda>e. Ok (Some e)))"
  assume lt: "sd_db w ?t = Some lt" "log_wf info lt"
    and r: "r \<in> set (t_rows lt)" "cell r ''id'' = DInt (g_ChangeTableId g)" "cell r ''state'' = DInt Pending"
      "log_row (sd_prefix w) (sd_db w) g = r"
  have "filter (sats ?cs) (t_rows lt) = [r]"
    using r by (intro filter_log_id [OF lt(2) r(1,2)]) (simp_all add: sats_def)
  with known_log(1) [OF lt(2)] have sem: "sql_sem (SelectFrom ?t ?cols ?cs None 1) (sd_db w)
      = Some (Rows [project ?cols r], sd_db w)"
    by (simp add: lt(1) order_rows_def limit_rows_def)
  have "cell r ''type'' = DText (text_cell ''type'' r)" using lt(2) r(1) by (simp add: log_wf_def)
  then have "?k (Rows [project ?cols r]) = Ok (Some (log_entry (sd_prefix w) (sd_db w) g))"
    by (simp add: rows_in_def res_simps project_def scan_log_def r log_entry_def Pending_def)
  from reads_select [OF rdy, where S = "\<lambda>w. SelectFrom (metaTable (sd_prefix w) (g_TableName g) changeLogName) ?cols ?cs None 1"
        and k = ?k, OF sem this] show ?thesis by (simp add: getChangeEntry_def)
qed


lemma AList_update_new: "k \<notin> fst ` set al \<Longrightarrow> AList.update k v al = al @ [(k, v)]"
  by (induction al) auto

lemma fetchRow_distinct:
  assumes "distinct (map fst r)"
  shows "fetchRow r = map (apsnd GVal) r"
proof -
  have "fold (\<lambda>(column, v) row. AList.update column (GVal v) row) r acc = acc @ map (apsnd GVal) r"
    if "distinct (map fst r)" "fst ` set acc \<inter> fst ` set r = {}" for acc
    using that by (induction r arbitrary: acc) (auto simp: AList_update_new)
  with assms show ?thesis by (simp add: fetchRow_def)
qed

text \<open>The row of a change, as the query gives it.\<close>

definition change_row :: "string \<Rightarrow> ColumnInfo list \<Rightarrow> drow \<Rightarrow> drow" where
  "change_row idCol info r =
     (idCol, cell r ''id'') # map (\<lambda>c. (ci_Name c, cell r (val_col (ci_Name c)))) info"

lemma fetchChangeRows_reads:
  assumes rdy: "db_ready env w B" and wf: "cdc_wf (sd_prefix w) (sd_schema w) (sd_db w)"
    and g: "g \<in> set (queue (sd_prefix w) (sd_db w))"
  shows "reads env B w [change_row idCol (info_of (sd_schema w) (g_TableName g)) (log_row (sd_prefix w) (sd_db w) g)]
     (fetchChangeRows env (g_TableName g) idCol [g_ChangeTableId g] w)"
proof (rule queued_row [OF wf g])
  fix info :: "ColumnInfo list" and lt r
  let ?t = "metaTable (sd_prefix w) (g_TableName g) changeLogName"
  let ?cols = "(''id'', idCol) # map (\<lambda>col. (val_col (ci_Name col), ci_Name col)) info"
  assume info: "map_of (sd_schema w) (g_TableName g) = Some info"
    and lt: "sd_db w ?t = Some lt" "log_wf info lt"
    and r: "r \<in> set (t_rows lt)" "cell r ''id'' = DInt (g_ChangeTableId g)" "log_row (sd_prefix w) (sd_db w) g = r"
  have "filter (sats [CIn ''id'' [g_ChangeTableId g]]) (t_rows lt) = [r]"
    using r by (intro filter_log_id [OF lt(2) r(1,2)]) (auto simp: sats_def split: dval.splits)
  then have sem: "sql_sem (SelectFrom ?t ?cols [CIn ''id'' [g_ChangeTableId g]] None 0) (sd_db w)
      = Some (Rows [project ?cols r], sd_db w)"
    using known_log(2) [OF lt(2)] by (simp add: lt(1) order_rows_def limit_rows_def comp_def)
  have k: "rows_in (Rows [project ?cols r]) = Ok [change_row idCol info r]"
    by (simp add: rows_in_def project_def change_row_def)
  have wd: "watched w (g_TableName g) = info" by (simp add: watched_def info)
  have "reads env B w [change_row idCol info r] (fetchChangeRows env (g_TableName g) idCol [g_ChangeTableId g] w)"
    unfolding fetchChangeRows_def
  proof (rule reads_select [OF rdy, where r = "Rows [project ?cols r]"], unfold wd)
    show "sql_sem (SelectFrom ?t ?cols [CIn ''id'' [g_ChangeTableId g]] None 0) (sd_db w)
      = Some (Rows [project ?cols r], sd_db w)" by (rule sem)
  qed (simp_all add: k watched_def)
  with info r(3) show ?thesis by (simp add: info_of_def)
qed


lemma consume_rows_one:
  assumes cb: "cb = Some f" and wd: "watched w t = info"
    and sch: "distinct (map ci_Name info)" "idCol \<notin> set (map ci_Name info)"
    and r: "cell r ''id'' = DInt i"
  shows "consume_rows env cb t idCol [i \<mapsto> l] [change_row idCol info r] w =
     (case drv_call env w of
        (Ok _, w1) \<Rightarrow> bindR (with_ext (f \<lparr>ev_Id = i, ev_Type = l_Type l, ev_TableName = t,
            ev_Row = map (\<lambda>c. (ci_Name c, GVal (cell r (val_col (ci_Name c))))) info, ev_tableInfo = info\<rparr>))
          (\<lambda>_ w2. (Ok (), snd (drv_call env w2))) w1
      | (_, w1) \<Rightarrow> (Ok (), w1))"
proof -
  have "distinct (map fst (change_row idCol info r))"
    using sch by (simp add: change_row_def comp_def)
  from fetchRow_distinct [OF this] have f: "fetchRow (change_row idCol info r) =
      (idCol, GVal (DInt i)) # map (\<lambda>c. (ci_Name c, GVal (cell r (val_col (ci_Name c))))) info"
    by (simp add: change_row_def r comp_def)
  have d: "AList.delete idCol (map (\<lambda>c. (ci_Name c, v c)) info) = map (\<lambda>c. (ci_Name c, v c)) info" for v :: "ColumnInfo \<Rightarrow> goval"
    using sch(2) by (auto simp: AList.delete_eq filter_id_conv)
  have n: "consume_rows env cb t idCol m [] = (\<lambda>w. (Ok (), snd (drv_call env w)))" for cb :: "'a on_change" and m
    by (rule ext) simp
  have "watched (w\<lparr>sd_tick := n\<rparr>) t = info" for n using wd by (simp add: watched_def)
  then show ?thesis
    using n by (cases "e_fault env (sd_tick w)") (simp_all add: f d cb drv_call_def [of env w] row_get_def Let_def)
qed


lemma cdc_schema_info:
  "cdc_schema p sch \<Longrightarrow> map_of sch t = Some info \<Longrightarrow>
     distinct (map ci_Name info) \<and> p @ ''change_log_id'' \<notin> set (map ci_Name info)"
  unfolding cdc_schema_def by (auto dest!: map_of_SomeD)

text \<open>
  Consuming one change hands its event to the callback; a fault of the driver on the way means
  the callback was not called (and may go unreported: the outcome can be \<open>Ok\<close>).
\<close>

definition consumed ::
  "db_env \<Rightarrow> nat set \<Rightarrow> (ChangeLogEvent \<Rightarrow> ('x, unit) prog) \<Rightarrow> 'x StreamDB \<Rightarrow> ChangeLogEvent \<Rightarrow> unit res \<times> 'x StreamDB \<Rightarrow> bool" where
  "consumed env B f w e rw \<longleftrightarrow>
     (\<exists>x. f e (sd_ext w) = (fst rw, x) \<and> moved env B w x (snd rw)) \<or>
     (\<not> healthy env \<and> returns (fst rw) \<and> moved env B w (sd_ext w) (snd rw))"

lemma moved_drv_call:
  assumes "moved env B w x w'" shows "moved env B w x (snd (drv_call env w'))"
  using moved_trans [OF assms moved_tick [of env w' B "Suc (sd_tick w')"]] moved_fields [OF assms]
  by (simp add: drv_call_def)

lemma consume_change:
  assumes rdy: "db_ready env w B" and wf: "cdc_wf (sd_prefix w) (sd_schema w) (sd_db w)"
    and g: "g \<in> set (queue (sd_prefix w) (sd_db w))"
  shows "consumed env B f w (change_event (sd_prefix w) (sd_schema w) (sd_db w) g)
     (consumeChangeLogs env (Some f) (g_TableName g) [log_entry (sd_prefix w) (sd_db w) g] w)"
proof (rule queued_row [OF wf g])
  fix info lt r
  let ?id = "sd_prefix w @ ''change_log_id''" and ?l = "log_entry (sd_prefix w) (sd_db w) g"
  let ?e = "change_event (sd_prefix w) (sd_schema w) (sd_db w) g"
  assume info: "map_of (sd_schema w) (g_TableName g) = Some info"
    and r: "cell r ''id'' = DInt (g_ChangeTableId g)" "log_row (sd_prefix w) (sd_db w) g = r"
  have i: "info_of (sd_schema w) (g_TableName g) = info" by (simp add: info_of_def info)
  have sch: "distinct (map ci_Name info)" "?id \<notin> set (map ci_Name info)"
    using wf cdc_schema_info [OF _ info] by (auto simp: cdc_wf_def)
  have e: "?e = \<lparr>ev_Id = g_ChangeTableId g, ev_Type = l_Type ?l, ev_TableName = g_TableName g,
      ev_Row = map (\<lambda>c. (ci_Name c, GVal (cell r (val_col (ci_Name c))))) info, ev_tableInfo = info\<rparr>"
    by (simp add: change_event_def i r event_of_row_def int_cell_def log_entry_def)
  obtain rs w1 where fc: "fetchChangeRows env (g_TableName g) ?id [g_ChangeTableId g] w = (rs, w1)"
    by (cases "fetchChangeRows env (g_TableName g) ?id [g_ChangeTableId g] w")
  with fetchChangeRows_reads [OF rdy wf g, of ?id] have mv: "moved env B w (sd_ext w) w1"
    and rs: "rs = Ok [change_row ?id info r] \<or> (\<exists>err. rs = Err err) \<and> \<not> healthy env"
    by (simp_all add: reads_def i r(2))
  have c: "consumeChangeLogs env (Some f) (g_TableName g) [?l] w =
      bindR (\<lambda>_. (rs, w1)) (consume_rows env (Some f) (g_TableName g) ?id [g_ChangeTableId g \<mapsto> ?l]) w"
    by (simp add: consumeChangeLogs_def Let_def log_entry_def bindR_def fc)
  from rs show "consumed env B f w ?e (consumeChangeLogs env (Some f) (g_TableName g) [?l] w)"
  proof
    assume "(\<exists>err. rs = Err err) \<and> \<not> healthy env"
    then show ?thesis using mv by (auto simp: c bindR_def consumed_def)
  next
    assume ok: "rs = Ok [change_row ?id info r]"
    have wd: "watched w1 (g_TableName g) = info" using moved_fields [OF mv] info by (simp add: watched_def)
    note one = consume_rows_one [OF refl wd sch r(1), of env f ?l, folded e]
    show ?thesis
    proof (cases "e_fault env (sd_tick w1)")
      case (Some err)
      then show ?thesis
        using moved_drv_call [OF mv] by (auto simp: c ok bindR_def one drv_call_def consumed_def healthy_def)
    next
      case None
      then obtain w2 where d: "drv_call env w1 = (Ok (), w2)" by (simp add: drv_call_def)
      with moved_drv_call [OF mv] have mv2: "moved env B w (sd_ext w) w2" by simp
      obtain q y where f: "f ?e (sd_ext w) = (q, y)" by (cases "f ?e (sd_ext w)")
      with moved_fields [OF mv2] have x: "with_ext (f ?e) w2 = (q, w2\<lparr>sd_ext := y\<rparr>)" by (simp add: with_ext_def)
      have mv3: "moved env B w y (w2\<lparr>sd_ext := y\<rparr>)" by (rule moved_ext [OF mv2])
      have "consume_rows env (Some f) (g_TableName g) ?id [g_ChangeTableId g \<mapsto> ?l] [change_row ?id info r] w1 =
          bindR (with_ext (f ?e)) (\<lambda>_ w2. (Ok (), snd (drv_call env w2))) w2"
        by (simp only: one d prod.case res.case)
      then have "consumeChangeLogs env (Some f) (g_TableName g) [?l] w =
          bindR (with_ext (f ?e)) (\<lambda>_ w2. (Ok (), snd (drv_call env w2))) w2"
        by (simp only: c ok bindR_def prod.case res.case)
      also have "\<dots> = (case q of Ok _ \<Rightarrow> (Ok (), snd (drv_call env (w2\<lparr>sd_ext := y\<rparr>))) | _ \<Rightarrow> (q, w2\<lparr>sd_ext := y\<rparr>))"
        by (simp add: bindR_def x split: res.splits)
      finally have "consumeChangeLogs env (Some f) (g_TableName g) [?l] w =
          (case q of Ok _ \<Rightarrow> (Ok (), snd (drv_call env (w2\<lparr>sd_ext := y\<rparr>))) | _ \<Rightarrow> (q, w2\<lparr>sd_ext := y\<rparr>))" .
      with f mv3 moved_drv_call [OF mv3] show ?thesis
        unfolding consumed_def by (cases q) auto
    qed
  qed
qed


subsection \<open>Marking\<close>

definition mark_body :: "db_env \<Rightarrow> globalChangeLogEntry \<Rightarrow> ('x StreamDB, unit) prog" where
  "mark_body env g w =
     bindR (exec env (mark_log (sd_prefix w) g)) (\<lambda>_.
     bindR (exec env (mark_global (sd_prefix w) g)) (\<lambda>_. ret ())) w"

lemma markChangePublished_eq: "markChangePublished env g = borrow_conn env (with_tx env (mark_body env g))"
  by (simp add: markChangePublished_def mark_body_def [abs_def] mark_log_def mark_global_def)

lemma exec_returns: "returns (fst (exec env st w))"
  by (cases "fst (exec env st w)") (use exec_not_abnormal [of env st w] in auto)

lemma mark_body_returns: "returns (fst (mark_body env g w))"
  unfolding mark_body_def by (intro bindR_returns exec_returns) (simp add: ret_def)

lemma mark_body_pool_free: "pool_free (mark_body env g)"
  unfolding mark_body_def
  by (rule pool_free_dep [where S = sd_prefix and f = "\<lambda>p. bindR (exec env (mark_log p g))
        (\<lambda>_. bindR (exec env (mark_global p g)) (\<lambda>_. ret ()))"])
    (auto intro!: pool_free_bindR)

lemma db_only_dep: "(\<And>a. db_only (f a)) \<Longrightarrow> db_only (\<lambda>w. f (S w) w)"
  by (simp add: db_only_def)

lemma mark_body_db_only: "db_only (mark_body env g)"
  unfolding mark_body_def
  by (rule db_only_dep [where S = sd_prefix and f = "\<lambda>p. bindR (exec env (mark_log p g))
        (\<lambda>_. bindR (exec env (mark_global p g)) (\<lambda>_. ret ()))"])
    (intro db_only_bindR db_only_exec db_only_ret)

lemma mark_body_Ok:
  assumes "mark_body env g w = (Ok a, w')"
  shows "sd_db w' = mark_db (sd_prefix w) g (sd_db w)"
proof -
  from assms obtain r1 w1 where e1: "exec env (mark_log (sd_prefix w) g) w = (Ok r1, w1)"
    and rest: "bindR (exec env (mark_global (sd_prefix w) g)) (\<lambda>_. ret ()) w1 = (Ok a, w')"
    unfolding mark_body_def by (rule bindR_OkE)
  from rest obtain r2 where e2: "exec env (mark_global (sd_prefix w) g) w1 = (Ok r2, w')"
    by (elim bindR_OkE) (auto simp: ret_def)
  have "sd_db w1 = sql_after (mark_log (sd_prefix w) g) (sd_db w)"
    by (rule exec_cases [of env "mark_log (sd_prefix w) g" w]) (use e1 in \<open>auto simp: sql_after_def\<close>)
  moreover have "sd_db w' = sql_after (mark_global (sd_prefix w) g) (sd_db w1)"
    by (rule exec_cases [of env "mark_global (sd_prefix w) g" w1]) (use e2 in \<open>auto simp: sql_after_def\<close>)
  ultimately show ?thesis by (simp add: mark_db_def)
qed

lemma mark_body_healthy:
  assumes h: "healthy env" and wf: "cdc_wf (sd_prefix w) sch (sd_db w)"
    and g: "g \<in> set (queue (sd_prefix w) (sd_db w))"
  shows "\<exists>w'. mark_body env g w = (Ok (), w')"
proof (rule mark_sem [OF wf g])
  fix lt :: sqltable
  let ?t = "metaTable (sd_prefix w) (g_TableName g) changeLogName"
  assume "\<exists>n. sql_sem (mark_log (sd_prefix w) g) (sd_db w) = Some (Affected n, (sd_db w)(?t \<mapsto>
        update_where [(''state'', DInt Published)] [CEq ''id'' (DInt (g_ChangeTableId g))] lt))"
    and "\<exists>n. sql_sem (mark_global (sd_prefix w) g) (sql_after (mark_log (sd_prefix w) g) (sd_db w)) =
       Some (Affected n, mark_db (sd_prefix w) g (sd_db w))"
  then obtain n m d where a: "sql_sem (mark_log (sd_prefix w) g) (sd_db w) = Some (Affected n, d)"
    and b: "sql_sem (mark_global (sd_prefix w) g) d = Some (Affected m, mark_db (sd_prefix w) g (sd_db w))"
    by (auto simp: sql_after_def)
  have nf: "e_fault env k = None" for k using h by (simp add: healthy_def)
  show ?thesis
    by (simp add: mark_body_def bindR_def ret_def exec_no_fault [OF nf a] exec_no_fault [OF nf, of "mark_global (sd_prefix w) g"] b)
qed

text \<open>Marking takes the change off the queue, or fails because the driver did and changes nothing.\<close>

definition marked :: "db_env \<Rightarrow> nat set \<Rightarrow> 'x StreamDB \<Rightarrow> globalChangeLogEntry \<Rightarrow> unit res \<times> 'x StreamDB \<Rightarrow> bool" where
  "marked env B w g rw \<longleftrightarrow>
     (fst rw = Ok () \<and> moved env B (w\<lparr>sd_db := mark_db (sd_prefix w) g (sd_db w)\<rparr>) (sd_ext w) (snd rw)) \<or>
     ((\<exists>e. fst rw = Err e) \<and> \<not> healthy env \<and> moved env B w (sd_ext w) (snd rw))"


lemma mark_change:
  assumes rdy: "db_ready env w B" and wf: "cdc_wf (sd_prefix w) sch (sd_db w)"
    and g: "g \<in> set (queue (sd_prefix w) (sd_db w))"
  shows "marked env B w g (markChangePublished env g w)"
proof -
  let ?tx = "with_tx env (mark_body env g)" and ?wm = "w\<lparr>sd_db := mark_db (sd_prefix w) g (sd_db w)\<rparr>"
  have tx: "(\<exists>t. ?tx w = (Ok (), ?wm\<lparr>sd_tick := t\<rparr>)) \<or> (\<exists>e t. ?tx w = (Err e, w\<lparr>sd_tick := t\<rparr>)) \<and> \<not> healthy env"
  proof (cases "healthy env")
    case True
    obtain w1 where b: "mark_body env g (w\<lparr>sd_tick := Suc (sd_tick w)\<rparr>) = (Ok (), w1)"
      using mark_body_healthy [OF True, of "w\<lparr>sd_tick := Suc (sd_tick w)\<rparr>" sch g] wf g by auto
    obtain t d where "w1 = w\<lparr>sd_tick := t, sd_db := d\<rparr>" using db_onlyD [OF mark_body_db_only b] by auto
    with mark_body_Ok [OF b] with_tx_no_fault [of env w "mark_body env g" "()" w1] b True show ?thesis
      by (auto simp: healthy_def)
  next
    case False
    show ?thesis
    proof (rule with_tx_cases [OF mark_body_returns [of env g] mark_body_db_only, of w env])
      fix a t d
      assume b: "mark_body env g (w\<lparr>sd_tick := Suc (sd_tick w)\<rparr>) = (Ok a, w\<lparr>sd_tick := t, sd_db := d\<rparr>)"
        and t: "?tx w = (Ok a, w\<lparr>sd_tick := Suc t, sd_db := d\<rparr>)"
      have "d = mark_db (sd_prefix w) g (sd_db w)" using mark_body_Ok [OF b] by simp
      with t have "?tx w = (Ok (), ?wm\<lparr>sd_tick := Suc t\<rparr>)" by simp
      then show ?thesis by blast
    qed (use False in blast)
  qed
  then have nb: "fst (?tx w) \<noteq> Block" by auto
  note pf = pool_free_with_tx [OF mark_body_pool_free, of env env g]
  obtain p where p: "pool_inv p B" "p_cap p = p_cap (sd_pool w)"
    and o: "borrow_conn env ?tx w = (fst (?tx w), (snd (?tx w))\<lparr>sd_pool := p\<rparr>) \<or>
      (\<exists>e. borrow_conn env ?tx w = (Err e, w\<lparr>sd_pool := p\<rparr>)) \<and> \<not> healthy env"
    using borrow_conn_outcome [OF rdy pf nb] by blast
  have m: "moved env B v (sd_ext w) (v\<lparr>sd_tick := t, sd_pool := p\<rparr>)" if "sd_ext v = sd_ext w" for v t
    using p rdy that by (intro movedI [where t = t and p = p]) (simp_all add: db_ready_def)
  from tx o m [of ?wm] m [of w] m [of w "sd_tick w"] show ?thesis
    by (auto simp: marked_def markChangePublished_eq)
qed

lemma marked_after:
  assumes mv: "moved env B w x w'" and mk: "marked env B w' g (r, v)"
  shows "moved env B (w\<lparr>sd_db := mark_db (sd_prefix w) g (sd_db w)\<rparr>) x v \<or> (\<not> healthy env \<and> moved env B w x v)"
  using mk moved_fields [OF mv] moved_trans [OF mv] moved_trans [OF moved_db [OF mv]]
  unfolding marked_def by auto

section \<open>The loop\<close>

text \<open>The two errors that make the publisher keep a change for later.\<close>

definition retry :: "unit res \<Rightarrow> bool" where
  "retry r = (case r of Err e \<Rightarrow> errors_Is e ErrLogNotReadyToPublish \<or> errors_Is e ContextCanceled | _ \<Rightarrow> False)"

text \<open>
  What the publisher means to do with the events that wait: hand them over one by one; every event
  counts as done unless the callback asked to try again.
\<close>

fun deliver :: "(ChangeLogEvent \<Rightarrow> ('x, unit) prog) \<Rightarrow> ChangeLogEvent list \<Rightarrow> 'x \<Rightarrow> nat \<times> 'x" where
  "deliver f [] x = (0, x)"
| "deliver f (e # es) x =
     (case f e x of (r, x') \<Rightarrow> if retry r then (0, x') else apfst Suc (deliver f es x'))"

text \<open>Every call of the callback that is made on the way returns.\<close>

fun deliver_returns :: "(ChangeLogEvent \<Rightarrow> ('x, unit) prog) \<Rightarrow> ChangeLogEvent list \<Rightarrow> 'x \<Rightarrow> bool" where
  "deliver_returns f [] x = True"
| "deliver_returns f (e # es) x =
     (case f e x of (r, x') \<Rightarrow> returns r \<and> (retry r \<or> deliver_returns f es x'))"

definition cb_returns :: "(ChangeLogEvent \<Rightarrow> ('x, unit) prog) \<Rightarrow> bool" where
  "cb_returns f \<longleftrightarrow> (\<forall>e x. returns (fst (f e x)))"

lemma cb_returns_deliver: "cb_returns f \<Longrightarrow> deliver_returns f es x"
proof (induction es arbitrary: x)
  case (Cons e es)
  then have "returns (fst (f e x))" by (simp add: cb_returns_def)
  with Cons show ?case by (cases "f e x") simp
qed simp

text \<open>The callback's state after its turn with \<open>e\<close>; without a fault it had that turn.\<close>

definition turn ::
  "db_env \<Rightarrow> (ChangeLogEvent \<Rightarrow> ('x, unit) prog) \<Rightarrow> ChangeLogEvent \<Rightarrow> 'x \<Rightarrow> bool \<Rightarrow> 'x \<Rightarrow> bool" where
  "turn env f e x again x' \<longleftrightarrow>
     (\<exists>r. f e x = (r, x') \<and> retry r = again) \<or> (\<not> healthy env \<and> x' = x)"

lemma publish_step:
  assumes rdy: "db_ready env w B" and wf: "cdc_wf (sd_prefix w) (sd_schema w) (sd_db w)"
    and g: "g \<in> set (queue (sd_prefix w) (sd_db w))"
    and cb: "returns (fst (f (change_event (sd_prefix w) (sd_schema w) (sd_db w) g) (sd_ext w)))"
  obtains x w' where "publish_loop env (Some f) (g # gs) w = (Ok (), w')" "moved env B w x w'"
      "turn env f (change_event (sd_prefix w) (sd_schema w) (sd_db w) g) (sd_ext w) True x"
  | x w' where "publish_loop env (Some f) (g # gs) w =
        publish_loop env (Some f) gs (w'\<lparr>sd_published := Suc (sd_published w)\<rparr>)"
      "turn env f (change_event (sd_prefix w) (sd_schema w) (sd_db w) g) (sd_ext w) False x"
      "moved env B (w\<lparr>sd_db := mark_db (sd_prefix w) g (sd_db w)\<rparr>) x w' \<or> (\<not> healthy env \<and> moved env B w x w')"
proof -
  let ?e = "change_event (sd_prefix w) (sd_schema w) (sd_db w) g"
  obtain re wa where ge: "getChangeEntry env g w = (re, wa)" by (cases "getChangeEntry env g w")
  with getChangeEntry_reads [OF rdy wf g] have mva: "moved env B w (sd_ext w) wa"
    and re: "re = Ok (Some (log_entry (sd_prefix w) (sd_db w) g)) \<or> (\<exists>e. re = Err e) \<and> \<not> healthy env"
    by (simp_all add: reads_def)
  show ?thesis
  proof (cases "\<exists>e. re = Err e")
    case True
    with re have "\<not> healthy env" by auto
    with True ge mva show ?thesis by (intro that(1) [of wa "sd_ext w"]) (auto simp: turn_def)
  next
    case False
    with re have re: "re = Ok (Some (log_entry (sd_prefix w) (sd_db w) g))" by auto
    note fa = moved_fields [OF mva]
    obtain rc wb where co: "consumeChangeLogs env (Some f) (g_TableName g) [log_entry (sd_prefix w) (sd_db w) g] wa = (rc, wb)"
      by (cases "consumeChangeLogs env (Some f) (g_TableName g) [log_entry (sd_prefix w) (sd_db w) g] wa")
    with consume_change [of env wa B g f] fa wf g have "consumed env B f wa ?e (rc, wb)" by simp
    then obtain x where mvb: "moved env B w x wb" and rc: "returns rc"
      and x: "(f ?e (sd_ext w) = (rc, x)) \<or> (\<not> healthy env \<and> x = sd_ext w)"
      using moved_trans [OF mva] fa cb unfolding consumed_def by (metis fst_conv snd_conv)
    note fb = moved_fields [OF mvb]
    show ?thesis
    proof (cases "retry rc")
      case True
      with x have "turn env f ?e (sd_ext w) True x" by (auto simp: turn_def)
      moreover have "publish_loop env (Some f) (g # gs) w = (Ok (), wb)"
        using True rc ge re co by (cases rc) (simp_all add: retry_def)
      ultimately show ?thesis using that(1) mvb by blast
    next
      case False
      with x have t: "turn env f ?e (sd_ext w) False x" by (auto simp: turn_def)
      obtain rm wc where ma: "markChangePublished env g wb = (rm, wc)" by (cases "markChangePublished env g wb")
      with mark_change [of env wb B "sd_schema w" g] fb wf g have mk: "marked env B wb g (rm, wc)" by simp
      then have rm: "returns rm" by (auto simp: marked_def)
      note m = marked_after [OF mvb mk]
      then have "sd_published wc = sd_published w" by (auto dest: moved_fields)
      then have "publish_loop env (Some f) (g # gs) w =
          publish_loop env (Some f) gs (wc\<lparr>sd_published := Suc (sd_published w)\<rparr>)"
        using False rc rm ge re co ma by (cases rc; cases rm) (simp_all add: retry_def)
      then show ?thesis using that(2) t m by blast
    qed
  qed
qed


declare publish_loop.simps(2) [simp del]

subsection \<open>The whole loop\<close>

definition log_tables :: "string \<Rightarrow> (string \<times> ColumnInfo list) list \<Rightarrow> string set" where
  "log_tables p sch = insert (globalMetaTable p) ((\<lambda>(t, _). metaTable p t changeLogName) ` set sch)"

text \<open>
  What a round of publishing may change: the change logs (keeping their invariant), the counters,
  the pool; no table of the application.
\<close>

definition pub_frame :: "db_env \<Rightarrow> nat set \<Rightarrow> 'x StreamDB \<Rightarrow> 'x StreamDB \<Rightarrow> bool" where
  "pub_frame env B w w' \<longleftrightarrow>
     db_ready env w' B \<and> sd_prefix w' = sd_prefix w \<and> sd_schema w' = sd_schema w \<and>
     sd_publishLock w' = sd_publishLock w \<and> cdc_wf (sd_prefix w) (sd_schema w) (sd_db w') \<and>
     (\<forall>t. t \<notin> log_tables (sd_prefix w) (sd_schema w) \<longrightarrow> sd_db w' t = sd_db w t)"

lemma pub_frame_trans: "pub_frame env B w w1 \<Longrightarrow> pub_frame env B w1 w2 \<Longrightarrow> pub_frame env B w w2"
  by (simp add: pub_frame_def)

lemma pub_frame_moved:
  "moved env B w x w' \<Longrightarrow> cdc_wf (sd_prefix w) (sd_schema w) (sd_db w) \<Longrightarrow> pub_frame env B w w'"
  by (simp add: pub_frame_def moved_fields)

lemma pub_frame_published [simp]: "pub_frame env B w (w'\<lparr>sd_published := n\<rparr>) = pub_frame env B w w'"
  by (simp add: pub_frame_def db_ready_def)

lemma mark_other_tables:
  assumes wf: "cdc_wf p sch d" and g: "g \<in> set (queue p d)" and t: "t \<notin> log_tables p sch"
  shows "mark_db p g d t = d t"
proof (rule mark_sem [OF wf g])
  fix info lt gt
  assume i: "map_of sch (g_TableName g) = Some info"
    and md: "mark_db p g d = d(metaTable p (g_TableName g) changeLogName \<mapsto>
        update_where [(''state'', DInt Published)] [CEq ''id'' (DInt (g_ChangeTableId g))] lt,
        globalMetaTable p \<mapsto> delete_where [CEq ''id'' (DInt (g_Id g))] gt)"
  have "metaTable p (g_TableName g) changeLogName \<in> log_tables p sch"
    using map_of_SomeD [OF i] by (force simp: log_tables_def)
  with t show ?thesis by (auto simp: md log_tables_def)
qed

lemma pub_frame_marked:
  assumes mv: "moved env B (w\<lparr>sd_db := mark_db (sd_prefix w) g (sd_db w)\<rparr>) x w'"
    and wf: "cdc_wf (sd_prefix w) (sd_schema w) (sd_db w)" and g: "g \<in> set (queue (sd_prefix w) (sd_db w))"
  shows "pub_frame env B w w'"
  using moved_fields [OF mv] mark_wf [OF wf g] mark_other_tables [OF wf g] by (simp add: pub_frame_def)

lemma mark_events:
  assumes "cdc_wf p sch d" and "g \<in> set (queue p d)" and "g' \<in> set (queue p d)" and "g' \<noteq> g"
  shows "change_event p sch (mark_db p g d) g' = change_event p sch d g'"
  using mark_log_row [OF assms] by (simp add: change_event_def)

lemma publish_loop_healthy:
  fixes f :: "ChangeLogEvent \<Rightarrow> ('a, unit) prog"
  assumes h: "healthy env"
  shows "db_ready env w B \<Longrightarrow> cdc_wf (sd_prefix w) (sd_schema w) (sd_db w) \<Longrightarrow>
     queue (sd_prefix w) (sd_db w) = gs @ rest \<Longrightarrow>
     deliver_returns f (map (change_event (sd_prefix w) (sd_schema w) (sd_db w)) gs) (sd_ext w) \<Longrightarrow>
     deliver f (map (change_event (sd_prefix w) (sd_schema w) (sd_db w)) gs) (sd_ext w) = (k, x) \<Longrightarrow>
     \<exists>w'. publish_loop env (Some f) gs w = (Ok (), w') \<and> pub_frame env B w w' \<and> sd_ext w' = x \<and>
       pending (sd_prefix w) (sd_schema w) (sd_db w') = drop k (pending (sd_prefix w) (sd_schema w) (sd_db w)) \<and>
       sd_published w' = sd_published w + k"
proof (induction gs arbitrary: w k)
  case Nil
  then show ?case by (auto simp: pub_frame_def)
next
  case (Cons g gs)
  let ?p = "sd_prefix w" and ?s = "sd_schema w" and ?d = "sd_db w"
  note wf = Cons.prems(2) and q = Cons.prems(3)
  have g: "g \<in> set (queue ?p ?d)" using q by simp
  have q': "queue ?p ?d = g # (gs @ rest)" using q by simp
  have cb: "returns (fst (f (change_event ?p ?s ?d g) (sd_ext w)))" using Cons.prems(4) by (simp split: prod.splits)
  show ?case
  proof (rule publish_step [where f = f and gs = gs, OF Cons.prems(1) wf g cb])
    fix y w' assume l: "publish_loop env (Some f) (g # gs) w = (Ok (), w')" "moved env B w y w'"
      "turn env f (change_event ?p ?s ?d g) (sd_ext w) True y"
    with h Cons.prems(5) have "k = 0" "x = y" by (auto simp: turn_def split: prod.splits)
    with l moved_fields [OF l(2)] pub_frame_moved [OF l(2) wf] show ?thesis by auto
  next
    fix y and w' :: "'a StreamDB"
    let ?w = "w'\<lparr>sd_published := Suc (sd_published w)\<rparr>"
    assume l: "publish_loop env (Some f) (g # gs) w = publish_loop env (Some f) gs ?w"
      and t: "turn env f (change_event ?p ?s ?d g) (sd_ext w) False y"
      and "moved env B (w\<lparr>sd_db := mark_db ?p g ?d\<rparr>) y w' \<or> (\<not> healthy env \<and> moved env B w y w')"
    with h have m: "moved env B (w\<lparr>sd_db := mark_db ?p g ?d\<rparr>) y w'" by simp
    note f = moved_fields [OF m] and fr = pub_frame_marked [OF m wf g] and hd = mark_head_pending [OF wf q']
    have "change_event ?p ?s (mark_db ?p g ?d) g' = change_event ?p ?s ?d g'" if "g' \<in> set gs" for g'
      using that queue_distinct [OF wf] q by (intro mark_events [OF wf g]) auto
    then have ev: "map (change_event ?p ?s (mark_db ?p g ?d)) gs = map (change_event ?p ?s ?d) gs" by simp
    obtain j z where dl: "deliver f (map (change_event ?p ?s ?d) gs) y = (j, z)"
      by (cases "deliver f (map (change_event ?p ?s ?d) gs) y")
    with t h Cons.prems(5) have kj: "k = Suc j" "z = x" by (auto simp: turn_def)
    have "deliver_returns f (map (change_event ?p ?s ?d) gs) y"
      using t h Cons.prems(4) by (auto simp: turn_def)
    with kj obtain v where "publish_loop env (Some f) gs ?w = (Ok (), v)"
      "pub_frame env B ?w v" "sd_ext v = x" "sd_published v = Suc (sd_published w) + j"
      "pending ?p ?s (sd_db v) = drop j (tl (pending ?p ?s ?d))"
      using dl Cons.IH [of ?w j] f fr hd ev by (auto simp: pub_frame_def db_ready_def)
    moreover have "pub_frame env B w ?w" using fr by simp
    ultimately have "publish_loop env (Some f) (g # gs) w = (Ok (), v)" "pub_frame env B w v" "sd_ext v = x"
      "sd_published v = sd_published w + k" "pending ?p ?s (sd_db v) = drop k (pending ?p ?s ?d)"
      using l kj(1) pub_frame_trans [of env B w ?w v] by (simp_all add: drop_Suc)
    then show ?thesis by blast
  qed
qed


lemma mark_subseq:
  "cdc_wf p sch d \<Longrightarrow> g \<in> set (queue p d) \<Longrightarrow> subseq (pending p sch (mark_db p g d)) (pending p sch d)"
  unfolding mark_pending by (simp add: pending_def subseq_map)

text \<open>Under any faults: the loop returns, and what is left waiting is what was, less some changes.\<close>

lemma subseq_set: "subseq xs ys \<Longrightarrow> set xs \<subseteq> set ys"
  by (auto dest: list_emb_set)

lemma publish_loop_safe:
  fixes f :: "ChangeLogEvent \<Rightarrow> ('a, unit) prog"
  assumes cb: "\<And>e x. e \<in> E \<Longrightarrow> I x \<Longrightarrow> returns (fst (f e x))" and keep: "\<And>e x. e \<in> E \<Longrightarrow> I x \<Longrightarrow> I (snd (f e x))"
  shows "db_ready env w B \<Longrightarrow> cdc_wf (sd_prefix w) (sd_schema w) (sd_db w) \<Longrightarrow>
     set gs \<subseteq> set (queue (sd_prefix w) (sd_db w)) \<Longrightarrow> distinct gs \<Longrightarrow>
     set (pending (sd_prefix w) (sd_schema w) (sd_db w)) \<subseteq> E \<Longrightarrow> I (sd_ext w) \<Longrightarrow>
     \<exists>w'. publish_loop env (Some f) gs w = (Ok (), w') \<and> pub_frame env B w w' \<and> I (sd_ext w') \<and>
       subseq (pending (sd_prefix w) (sd_schema w) (sd_db w')) (pending (sd_prefix w) (sd_schema w) (sd_db w))"
proof (induction gs arbitrary: w)
  case Nil
  then show ?case by (auto simp: pub_frame_def)
next
  case (Cons g gs)
  let ?p = "sd_prefix w" and ?s = "sd_schema w" and ?d = "sd_db w"
  note wf = Cons.prems(2)
  have g: "g \<in> set (queue ?p ?d)" using Cons.prems(3) by simp
  then have inE: "change_event ?p ?s ?d g \<in> E" using Cons.prems(5) by (auto simp: pending_def)
  from inE keep Cons.prems(6) have I: "I y" if "turn env f (change_event ?p ?s ?d g) (sd_ext w) b y" for b y
    using that unfolding turn_def by (metis snd_conv)
  show ?case
  proof (rule publish_step [where f = f and gs = gs, OF Cons.prems(1) wf g cb [OF inE Cons.prems(6)]])
    fix y w' assume l: "publish_loop env (Some f) (g # gs) w = (Ok (), w')" "moved env B w y w'"
      "turn env f (change_event ?p ?s ?d g) (sd_ext w) True y"
    with moved_fields [OF l(2)] pub_frame_moved [OF l(2) wf] I show ?thesis by auto
  next
    fix y and w' :: "'a StreamDB"
    let ?w = "w'\<lparr>sd_published := Suc (sd_published w)\<rparr>"
    assume l: "publish_loop env (Some f) (g # gs) w = publish_loop env (Some f) gs ?w"
      and t: "turn env f (change_event ?p ?s ?d g) (sd_ext w) False y"
      and m: "moved env B (w\<lparr>sd_db := mark_db ?p g ?d\<rparr>) y w' \<or> (\<not> healthy env \<and> moved env B w y w')"
    have fr: "pub_frame env B w w'" and y: "sd_ext w' = y"
      using m pub_frame_marked [OF _ wf g] pub_frame_moved [OF _ wf] by (auto dest: moved_fields)
    have db: "sd_db w' = ?d \<or> sd_db w' = mark_db ?p g ?d" using m by (auto dest: moved_fields)
    have q: "set gs \<subseteq> set (queue ?p (sd_db w'))" and sub: "subseq (pending ?p ?s (sd_db w')) (pending ?p ?s ?d)"
      using db Cons.prems(3,4) mark_queue [OF wf g] mark_subseq [OF wf g] by auto
    have "set (pending ?p ?s (sd_db w')) \<subseteq> E" using subseq_set [OF sub] Cons.prems(5) by simp
    with Cons.IH [of ?w] fr q y I [OF t] Cons.prems(4) obtain v where v: "publish_loop env (Some f) gs ?w = (Ok (), v)"
      "pub_frame env B ?w v" "I (sd_ext v)" "subseq (pending ?p ?s (sd_db v)) (pending ?p ?s (sd_db w'))"
      by (auto simp: pub_frame_def db_ready_def)
    from v(1-3) l fr pub_frame_trans [of env B w ?w v] subseq_order.trans [OF v(4) sub] show ?thesis by auto
  qed
qed

section \<open>\<open>publishChangeLog\<close>\<close>

lemma moved_reads: "reads env B w v (r, w') \<Longrightarrow> moved env B w (sd_ext w) w'"
  by (simp add: reads_def)

text \<open>The two queries before the loop: they give the oldest changes, or the round ends.\<close>

lemma publish_locked_cases:
  assumes rdy: "db_ready env w B" and wf: "cdc_wf (sd_prefix w) (sd_schema w) (sd_db w)"
  obtains w1 n where "publish_locked env limit cb w =
      publish_loop env cb (limit_rows (unat limit) (queue (sd_prefix w) (sd_db w))) (w1\<lparr>sd_pendingPublish := n\<rparr>)"
      "moved env B w (sd_ext w) w1"
  | w1 n where "publish_locked env limit cb w = (Ok (), w1\<lparr>sd_pendingPublish := n\<rparr>)" "moved env B w (sd_ext w) w1"
      "\<not> healthy env \<or> queue (sd_prefix w) (sd_db w) = []"
proof -
  obtain r1 wa where c: "countChanges env w = (r1, wa)" by (cases "countChanges env w")
  with countChanges_reads [OF rdy wf] have ra: "reads env B w (int (length (queue (sd_prefix w) (sd_db w)))) (r1, wa)" by simp
  note mva = moved_reads [OF ra] and fa = moved_fields [OF moved_reads [OF ra]]
  let ?n = "int (length (queue (sd_prefix w) (sd_db w)))"
  let ?wb = "wa\<lparr>sd_pendingPublish := ?n\<rparr>"
  consider (err) e where "r1 = Err e" "\<not> healthy env" | (none) "r1 = Ok ?n" "?n \<le> 0" | (some) "r1 = Ok ?n" "\<not> ?n \<le> 0"
    using ra unfolding reads_def by fastforce
  then show ?thesis
  proof cases
    case err
    moreover have "wa = wa\<lparr>sd_pendingPublish := sd_pendingPublish wa\<rparr>" by simp
    ultimately show ?thesis using that(2) [of "sd_pendingPublish wa" wa] c mva by (simp add: publish_locked_def)
  next
    case none
    then show ?thesis using that(2) [of ?n wa] c mva by (simp add: publish_locked_def)
  next
    case some
    obtain r2 wc where gc: "getGlobalChanges env limit ?wb = (r2, wc)" by (cases "getGlobalChanges env limit ?wb")
    have "db_ready env ?wb B" "cdc_wf (sd_prefix ?wb) (sd_schema w) (sd_db ?wb)"
      using fa wf by (simp_all add: db_ready_def)
    from getGlobalChanges_reads [OF this, of limit] gc fa
    have rb: "reads env B ?wb (limit_rows (unat limit) (queue (sd_prefix w) (sd_db w))) (r2, wc)" by simp
    from moved_reads [OF rb] have "moved env B wa (sd_ext wa) (wc\<lparr>sd_pendingPublish := sd_pendingPublish wa\<rparr>)"
      and n: "sd_pendingPublish wc = ?n"
      by (elim movedE, intro movedI [where t = "sd_tick wc" and p = "sd_pool wc"], simp_all) (auto elim: movedE)
    with moved_trans [OF mva] fa have mvc: "moved env B w (sd_ext w) (wc\<lparr>sd_pendingPublish := sd_pendingPublish wa\<rparr>)"
      by simp
    have wc: "wc\<lparr>sd_pendingPublish := sd_pendingPublish wa\<rparr>\<lparr>sd_pendingPublish := ?n\<rparr> = wc" using n by simp
    from rb consider "r2 = Ok (limit_rows (unat limit) (queue (sd_prefix w) (sd_db w)))" | e where "r2 = Err e" "\<not> healthy env"
      unfolding reads_def by fastforce
    then show ?thesis
      using that(1) [OF _ mvc, of ?n, unfolded wc] that(2) [OF _ mvc, of ?n, unfolded wc] c gc some
      by cases (auto simp: publish_locked_def Let_def)
  qed
qed


lemma unlocked_ready [simp]: "db_ready env (w\<lparr>sd_publishLock := b\<rparr>) B = db_ready env w B"
  "db_ready env (w\<lparr>sd_pendingPublish := n\<rparr>) B = db_ready env w B"
  by (simp_all add: db_ready_def)

lemma pub_frame_unlock:
  "pub_frame env B (w\<lparr>sd_publishLock := True\<rparr>) w' \<Longrightarrow> \<not> sd_publishLock w \<Longrightarrow>
     pub_frame env B w (w'\<lparr>sd_publishLock := False\<rparr>)"
  by (simp add: pub_frame_def)

lemma pub_frame_stats: "pub_frame env B w (w'\<lparr>sd_pendingPublish := n\<rparr>) = pub_frame env B w w'"
  "pub_frame env B (w\<lparr>sd_pendingPublish := n\<rparr>) w' = pub_frame env B w w'"
  by (simp_all add: pub_frame_def)

lemma pending_limit: "map (change_event p sch d) (limit_rows n (queue p d)) = limit_rows n (pending p sch d)"
  by (simp add: pending_def map_limit_rows)

lemma queue_limit: "\<exists>rest. queue p d = limit_rows n (queue p d) @ rest"
  by (cases "n = 0") (auto simp: limit_rows_def intro: exI [of _ "drop n (queue p d)"])

lemma publish_locked_healthy:
  assumes h: "healthy env" and rdy: "db_ready env w B" and wf: "cdc_wf (sd_prefix w) (sd_schema w) (sd_db w)"
    and cb: "deliver_returns f (limit_rows (unat limit) (pending (sd_prefix w) (sd_schema w) (sd_db w))) (sd_ext w)"
    and del: "deliver f (limit_rows (unat limit) (pending (sd_prefix w) (sd_schema w) (sd_db w))) (sd_ext w) = (k, x)"
  shows "\<exists>w'. publish_locked env limit (Some f) w = (Ok (), w') \<and> pub_frame env B w w' \<and> sd_ext w' = x \<and>
     pending (sd_prefix w) (sd_schema w) (sd_db w') = drop k (pending (sd_prefix w) (sd_schema w) (sd_db w)) \<and>
     sd_published w' = sd_published w + k"
proof (rule publish_locked_cases [OF rdy wf, of limit "Some f"])
  fix w1 :: "'a StreamDB" and n
  let ?gs = "limit_rows (unat limit) (queue (sd_prefix w) (sd_db w))"
  assume l: "publish_locked env limit (Some f) w = publish_loop env (Some f) ?gs (w1\<lparr>sd_pendingPublish := n\<rparr>)"
    and mv: "moved env B w (sd_ext w) w1"
  note fl = moved_fields [OF mv] and fr = pub_frame_moved [OF mv wf]
  obtain rest where q: "queue (sd_prefix w) (sd_db w) = ?gs @ rest" using queue_limit by blast
  from publish_loop_healthy [OF h, of "w1\<lparr>sd_pendingPublish := n\<rparr>" B ?gs rest f k x] fl wf q del cb
  obtain w' where w': "publish_loop env (Some f) ?gs (w1\<lparr>sd_pendingPublish := n\<rparr>) = (Ok (), w')" "pub_frame env B w1 w'"
    "sd_ext w' = x" "sd_published w' = sd_published w + k"
    "pending (sd_prefix w) (sd_schema w) (sd_db w') = drop k (pending (sd_prefix w) (sd_schema w) (sd_db w))"
    by (auto simp: pending_limit pub_frame_stats)
  with l pub_frame_trans [OF fr] show ?thesis by auto
next
  fix w1 :: "'a StreamDB" and n
  assume l: "publish_locked env limit (Some f) w = (Ok (), w1\<lparr>sd_pendingPublish := n\<rparr>)" "moved env B w (sd_ext w) w1"
    and "\<not> healthy env \<or> queue (sd_prefix w) (sd_db w) = []"
  with h have "pending (sd_prefix w) (sd_schema w) (sd_db w) = []" by (simp add: pending_def)
  with del have "k = 0" "x = sd_ext w" by auto
  with l moved_fields [OF l(2)] pub_frame_moved [OF l(2) wf] show ?thesis by (simp add: pub_frame_stats)
qed

lemma publish_locked_safe:
  assumes rdy: "db_ready env w B" and wf: "cdc_wf (sd_prefix w) (sd_schema w) (sd_db w)"
    and cb: "\<And>e x. e \<in> set (pending (sd_prefix w) (sd_schema w) (sd_db w)) \<Longrightarrow> I x \<Longrightarrow> returns (fst (f e x))"
    and keep: "\<And>e x. e \<in> set (pending (sd_prefix w) (sd_schema w) (sd_db w)) \<Longrightarrow> I x \<Longrightarrow> I (snd (f e x))" and I: "I (sd_ext w)"
  shows "\<exists>w'. publish_locked env limit (Some f) w = (Ok (), w') \<and> pub_frame env B w w' \<and> I (sd_ext w') \<and>
     subseq (pending (sd_prefix w) (sd_schema w) (sd_db w')) (pending (sd_prefix w) (sd_schema w) (sd_db w))"
proof (rule publish_locked_cases [OF rdy wf, of limit "Some f"])
  fix w1 :: "'a StreamDB" and n
  let ?gs = "limit_rows (unat limit) (queue (sd_prefix w) (sd_db w))"
  assume l: "publish_locked env limit (Some f) w = publish_loop env (Some f) ?gs (w1\<lparr>sd_pendingPublish := n\<rparr>)"
    and mv: "moved env B w (sd_ext w) w1"
  note fl = moved_fields [OF mv] and fr = pub_frame_moved [OF mv wf]
  have "set ?gs \<subseteq> set (queue (sd_prefix w) (sd_db w))" "distinct ?gs"
    using set_limit_rows queue_distinct [OF wf] by (auto simp: limit_rows_def dest: in_set_takeD)
  with publish_loop_safe [where I = I and f = f and E = "set (pending (sd_prefix w) (sd_schema w) (sd_db w))", OF cb keep,
      where w = "w1\<lparr>sd_pendingPublish := n\<rparr>" and env = env and B = B and gs = ?gs] fl wf I
  obtain w' where "publish_loop env (Some f) ?gs (w1\<lparr>sd_pendingPublish := n\<rparr>) = (Ok (), w')" "pub_frame env B w1 w'"
    "I (sd_ext w')" "subseq (pending (sd_prefix w) (sd_schema w) (sd_db w')) (pending (sd_prefix w) (sd_schema w) (sd_db w))"
    by (auto simp: pub_frame_stats)
  with l pub_frame_trans [OF fr] show ?thesis by auto
next
  fix w1 :: "'a StreamDB" and n
  assume l: "publish_locked env limit (Some f) w = (Ok (), w1\<lparr>sd_pendingPublish := n\<rparr>)" "moved env B w (sd_ext w) w1"
  with moved_fields [OF l(2)] pub_frame_moved [OF l(2) wf] I show ?thesis by (simp add: pub_frame_stats)
qed

end
