(* ===== verification/ChangeLogProps.thy ===== *)
theory ChangeLogProps
  imports Publish
begin

text \<open>
  The properties of the change log: what a round of publishing does with and without faults, what
  the triggers capture, and what the clean-up deletes, with concrete instances.
\<close>

section \<open>Concrete data\<close>

definition wit_log_schema :: "(string \<times> ColumnInfo list) list" where
  "wit_log_schema = [(''t'', wit_repl_cols)]"

text \<open>A database with an empty change log, and the one after two changes of table \<open>t\<close>.\<close>

definition wit_db0 :: sqldb where
  "wit_db0 =
     [''t'' \<mapsto> wit_repl_table,
      globalMetaTable MarmotPrefix \<mapsto> \<lparr>t_cols = global_cols, t_keys = [[''id'']], t_seq = 0, t_rows = []\<rparr>,
      metaTable MarmotPrefix ''t'' changeLogName \<mapsto>
        \<lparr>t_cols = log_cols wit_repl_cols, t_keys = [[''id'']], t_seq = 0, t_rows = []\<rparr>]"

definition wit_ins :: "string \<times> int \<times> row_change" where
  "wit_ins = (''t'', 100, RowInsert [(''id'', DInt 7), (''v'', DText ''a'')])"

definition wit_del :: "string \<times> int \<times> row_change" where
  "wit_del = (''t'', 101, RowDelete [(''id'', DInt 7), (''v'', DText ''a'')])"

definition wit_db2 :: sqldb where
  "wit_db2 = capture MarmotPrefix wit_log_schema wit_del (capture MarmotPrefix wit_log_schema wit_ins wit_db0)"

definition wit_pub_world :: "ChangeLogEvent list StreamDB" where
  "wit_pub_world =
     \<lparr>sd_prefix = MarmotPrefix, sd_schema = wit_log_schema, sd_publishLock = False,
      sd_pool = sd_pool wit_repl_world, sd_db = wit_db2, sd_tick = 0, sd_published = 0,
      sd_pendingPublish = 0, sd_ext = []\<rparr>"

text \<open>A callback that keeps a trace.\<close>

definition wit_trace :: "ChangeLogEvent \<Rightarrow> (ChangeLogEvent list, unit) prog" where
  "wit_trace e x = (Ok (), x @ [e])"

lemma wit_schema_ok: "cdc_schema MarmotPrefix wit_log_schema"
  by (simp add: cdc_schema_def wit_log_schema_def MarmotPrefix_def)

lemma wit_info: "map_of wit_log_schema ''t'' = Some wit_repl_cols"
  by (simp add: wit_log_schema_def)

lemma wit_db0_wf: "cdc_wf MarmotPrefix wit_log_schema wit_db0"
  unfolding cdc_wf_def
proof (intro conjI allI impI ballI)
  fix t info assume "map_of wit_log_schema t = Some info"
  then have "t = ''t''" "info = wit_repl_cols" by (auto simp: wit_log_schema_def split: if_splits)
  then show "\<exists>lt. wit_db0 (metaTable MarmotPrefix t changeLogName) = Some lt \<and> log_wf info lt"
    by (simp add: wit_db0_def log_wf_def)
qed (simp_all add: wit_schema_ok wit_db0_def global_wf_def queue_def rows_of_def)

lemma wit_db0_pending: "pending MarmotPrefix wit_log_schema wit_db0 = []"
  by (simp add: pending_def queue_def rows_of_def wit_db0_def)

lemma wit_db2_run: "wit_db2 = queue_run (pending MarmotPrefix wit_log_schema) (capture MarmotPrefix wit_log_schema)
    (ack MarmotPrefix) [Enq wit_ins, Enq wit_del] wit_db0"
  by (simp add: wit_db2_def)

lemma wit_db2_wf: "cdc_wf MarmotPrefix wit_log_schema wit_db2"
  unfolding wit_db2_run
  by (rule cdcq.run_invar [OF wit_db0_wf]) (simp add: wit_ins_def wit_del_def wit_info)

lemma wit_db2_pending: "length (pending MarmotPrefix wit_log_schema wit_db2) = 2"
proof -
  let ?d1 = "capture MarmotPrefix wit_log_schema wit_ins wit_db0"
  have "cdc_wf MarmotPrefix wit_log_schema ?d1"
    by (rule cdcq.enq_invar [OF wit_db0_wf]) (simp add: wit_ins_def wit_info)
  from cdcq.enq_pend [OF this, of wit_del] cdcq.enq_pend [OF wit_db0_wf, of wit_ins] show ?thesis
    by (auto simp: wit_ins_def wit_del_def wit_info wit_db2_def wit_db0_pending)
qed

lemma wit_pub_ready: "db_ready wit_repl_env wit_pub_world {}"
  using wit_ready by (simp add: db_ready_def wit_pub_world_def)

lemma wit_pub_wf: "cdc_wf (sd_prefix wit_pub_world) (sd_schema wit_pub_world) (sd_db wit_pub_world)"
  using wit_db2_wf by (simp add: wit_pub_world_def)

lemma wit_trace_deliver: "deliver wit_trace es x = (length es, x @ es)"
  by (induction es arbitrary: x) (simp_all add: wit_trace_def retry_def)

section \<open>Publishing\<close>

text \<open>
  C8: without faults a round of publishing hands the waiting changes (the oldest
  \<open>scan_max_changes\<close> of them; 0 means all) to \<open>OnChange\<close>, oldest first and each once, and
  takes exactly those off the queue that \<open>OnChange\<close> did not ask to keep: at the first
  \<open>ErrLogNotReadyToPublish\<close> or \<open>context.Canceled\<close> the round stops and that change and all
  later ones wait for the next round. No table of the application changes, the lock is free again
  and no connection is lost. (The calls of \<open>OnChange\<close> made on the way return.)
\<close>

theorem publish_delivers_in_order:
  assumes "healthy env" and "db_ready env w B" and "cdc_wf (sd_prefix w) (sd_schema w) (sd_db w)"
    and "\<not> sd_publishLock w"
    and "deliver_returns f (limit_rows (unat limit) (pending (sd_prefix w) (sd_schema w) (sd_db w))) (sd_ext w)"
    and "deliver f (limit_rows (unat limit) (pending (sd_prefix w) (sd_schema w) (sd_db w))) (sd_ext w) = (k, x)"
  shows "\<exists>w'. publishChangeLog env limit (Some f) w = (Ok (), w') \<and> sd_ext w' = x \<and>
     pending (sd_prefix w) (sd_schema w) (sd_db w') = drop k (pending (sd_prefix w) (sd_schema w) (sd_db w)) \<and>
     sd_published w' = sd_published w + k \<and> \<not> sd_publishLock w' \<and> pub_frame env B w w'"
proof -
  from publish_locked_healthy [where w = "w\<lparr>sd_publishLock := True\<rparr>" and limit = limit and f = f and k = k and x = x] assms
  obtain w' where "publish_locked env limit (Some f) (w\<lparr>sd_publishLock := True\<rparr>) = (Ok (), w')"
    "pub_frame env B (w\<lparr>sd_publishLock := True\<rparr>) w'" "sd_ext w' = x" "sd_published w' = sd_published w + k"
    "pending (sd_prefix w) (sd_schema w) (sd_db w') = drop k (pending (sd_prefix w) (sd_schema w) (sd_db w))"
    by auto
  with assms(4) pub_frame_unlock show ?thesis by (auto simp: publishChangeLog_def)
qed

theorem publish_delivers_in_order_witness:
  "\<exists>w'. publishChangeLog wit_repl_env 0 (Some wit_trace) wit_pub_world = (Ok (), w') \<and>
     sd_ext w' = pending MarmotPrefix wit_log_schema wit_db2 \<and> length (sd_ext w') = 2 \<and>
     pending MarmotPrefix wit_log_schema (sd_db w') = []"
proof -
  have cb: "deliver_returns wit_trace es x" for es x by (rule cb_returns_deliver) (simp add: cb_returns_def wit_trace_def)
  have l: "\<not> sd_publishLock wit_pub_world" by (simp add: wit_pub_world_def)
  from publish_delivers_in_order [OF wit_healthy wit_pub_ready wit_pub_wf l cb wit_trace_deliver, of 0]
  show ?thesis using wit_db2_pending by (auto simp: wit_pub_world_def limit_rows_def)
qed

text \<open>
  C9: whatever the driver does (opening, querying, beginning or committing may fail at any call), a
  round of publishing returns: the panic for a queue entry without its row is not reached, no
  connection is lost, the lock is free again. It keeps the invariant of the change logs, changes no
  table of the application, invents, repeats or reorders nothing in the queue (what waits afterwards
  is a subsequence of what waited before), and hands nothing to \<open>OnChange\<close> but waiting changes:
  any property \<open>I\<close> of the callback's state that those calls keep (returning) still holds.
\<close>

theorem publish_safe_under_faults:
  assumes "db_ready env w B" and "cdc_wf (sd_prefix w) (sd_schema w) (sd_db w)"
    and "\<not> sd_publishLock w" and "I (sd_ext w)"
    and "\<And>e x. e \<in> set (pending (sd_prefix w) (sd_schema w) (sd_db w)) \<Longrightarrow> I x \<Longrightarrow> returns (fst (f e x)) \<and> I (snd (f e x))"
  shows "\<exists>w'. publishChangeLog env limit (Some f) w = (Ok (), w') \<and> \<not> sd_publishLock w' \<and> pub_frame env B w w' \<and>
     subseq (pending (sd_prefix w) (sd_schema w) (sd_db w')) (pending (sd_prefix w) (sd_schema w) (sd_db w)) \<and>
     I (sd_ext w')"
proof -
  from publish_locked_safe [where w = "w\<lparr>sd_publishLock := True\<rparr>" and limit = limit and f = f and I = I and env = env and B = B] assms
  obtain w' where "publish_locked env limit (Some f) (w\<lparr>sd_publishLock := True\<rparr>) = (Ok (), w')"
    "pub_frame env B (w\<lparr>sd_publishLock := True\<rparr>) w'" "I (sd_ext w')"
    "subseq (pending (sd_prefix w) (sd_schema w) (sd_db w')) (pending (sd_prefix w) (sd_schema w) (sd_db w))"
    by auto
  with assms(3) pub_frame_unlock show ?thesis by (auto simp: publishChangeLog_def)
qed

text \<open>Every second call to the driver fails.\<close>

definition wit_faulty_env :: db_env where
  "wit_faulty_env = wit_repl_env\<lparr>e_fault := (\<lambda>n. if n mod 2 = 1 then Some (External n) else None)\<rparr>"

theorem publish_safe_under_faults_witness:
  "\<exists>w'. publishChangeLog wit_faulty_env 10 (Some wit_trace) wit_pub_world = (Ok (), w') \<and>
     set (sd_ext w') \<subseteq> set (pending MarmotPrefix wit_log_schema wit_db2) \<and> \<not> sd_publishLock w'"
proof -
  have l: "\<not> sd_publishLock wit_pub_world" by (simp add: wit_pub_world_def)
  have r: "db_ready wit_faulty_env wit_pub_world {}" using wit_pub_ready by (simp add: db_ready_def wit_faulty_env_def)
  show ?thesis
    using publish_safe_under_faults [OF r wit_pub_wf l,
        of "\<lambda>x. set x \<subseteq> set (pending MarmotPrefix wit_log_schema wit_db2)" wit_trace 10]
    by (auto simp: wit_pub_world_def wit_trace_def)
qed

text \<open>
  C29: when \<open>OnChange\<close> fails with any error other than the two above (a publish that timed out, a
  full stream, an encoding error), the change counts as published all the same: without any fault of
  the database, a round in which every delivery fails empties the queue (up to the scan limit) while
  the callback's state has not moved. The failed changes are not tried again.
\<close>

theorem publish_error_drops_changes:
  assumes "healthy env" and "db_ready env w B" and "cdc_wf (sd_prefix w) (sd_schema w) (sd_db w)"
    and "\<not> sd_publishLock w"
    and "\<not> errors_Is err ErrLogNotReadyToPublish" and "\<not> errors_Is err ContextCanceled"
  shows "\<exists>w'. publishChangeLog env limit (Some (\<lambda>_ x. (Err err, x))) w = (Ok (), w') \<and> sd_ext w' = sd_ext w \<and>
     pending (sd_prefix w) (sd_schema w) (sd_db w') =
       (if limit = 0 then [] else drop (unat limit) (pending (sd_prefix w) (sd_schema w) (sd_db w)))"
proof -
  let ?pend = "pending (sd_prefix w) (sd_schema w) (sd_db w)" and ?f = "\<lambda>(_ :: ChangeLogEvent) x. (Err err :: unit res, x :: 'a)"
  have d: "deliver ?f es x = (length es, x)" for es x
    using assms(5,6) by (induction es) (simp_all add: retry_def)
  have cb: "deliver_returns ?f es x" for es x by (rule cb_returns_deliver) (simp add: cb_returns_def)
  from publish_locked_healthy [OF assms(1), of "w\<lparr>sd_publishLock := True\<rparr>" B ?f limit, OF _ _ cb] assms(2-4)
  obtain w' where "publish_locked env limit (Some ?f) (w\<lparr>sd_publishLock := True\<rparr>) = (Ok (), w')" "sd_ext w' = sd_ext w"
    "pending (sd_prefix w) (sd_schema w) (sd_db w') = drop (length (limit_rows (unat limit) ?pend)) ?pend"
    by (auto simp: d)
  moreover have "drop (length (limit_rows (unat limit) ?pend)) ?pend = (if limit = 0 then [] else drop (unat limit) ?pend)"
    by (auto simp: limit_rows_def unat_eq_0 min_def)
  ultimately show ?thesis using assms(4) by (auto simp: publishChangeLog_def)
qed

theorem publish_error_drops_changes_witness:
  "\<exists>w'. publishChangeLog wit_repl_env 0 (Some (\<lambda>_ x. (Err NatsErrTimeout, x))) wit_pub_world = (Ok (), w') \<and>
     sd_ext w' = [] \<and> length (pending MarmotPrefix wit_log_schema wit_db2) = 2 \<and>
     pending MarmotPrefix wit_log_schema (sd_db w') = []"
proof -
  have l: "\<not> sd_publishLock wit_pub_world" by (simp add: wit_pub_world_def)
  from publish_error_drops_changes [OF wit_healthy wit_pub_ready wit_pub_wf l, of NatsErrTimeout 0]
  show ?thesis using wit_db2_pending by (auto simp: wit_pub_world_def)
qed


section \<open>Capture\<close>

text \<open>
  C14: for any interleaving of application changes to watched tables and acknowledgements by the
  publisher, what waits is always the tail of the list of all changes in the order they were made:
  the first \<open>k\<close> are acknowledged, none is lost, repeated or overtaken. Each waiting event carries
  the operation, the table and the values of the row (the new row of an insert or update, the old row
  of a delete). The invariant of the change logs is kept.
\<close>

theorem captured_changes_wait_in_order:
  assumes "cdc_wf p sch d" and "list_all (\<lambda>(t, now, rc). map_of sch t \<noteq> None) (enqueued ops)"
  shows "cdc_wf p sch (queue_run (pending p sch) (capture p sch) (ack p) ops d) \<and>
     (\<exists>k es. k \<le> dequeues ops \<and>
        list_all2 (\<lambda>(t, now, rc). captured_event (info_of sch t) t rc) (enqueued ops) es \<and>
        pending p sch (queue_run (pending p sch) (capture p sch) (ack p) ops d) = drop k (pending p sch d @ es))"
  using cdcq.run_invar [OF assms] cdcq.run_suffix [OF assms] by blast

theorem captured_changes_wait_in_order_witness:
  "\<exists>e. captured_event wit_repl_cols ''t'' (RowDelete [(''id'', DInt 7), (''v'', DText ''a'')]) e \<and>
     ev_Type e = ''delete'' \<and> ev_Row e = [(''id'', GVal (DInt 7)), (''v'', GVal (DText ''a''))] \<and>
     e \<in> set (pending MarmotPrefix wit_log_schema wit_db2)"
proof -
  let ?ops = "[Enq wit_ins, Enq wit_del]"
  have "list_all (\<lambda>(t, now, rc). map_of wit_log_schema t \<noteq> None) (enqueued ?ops)"
    by (simp add: wit_ins_def wit_del_def wit_info)
  from captured_changes_wait_in_order [OF wit_db0_wf this] obtain es where
    "list_all2 (\<lambda>(t, now, rc). captured_event (info_of wit_log_schema t) t rc) [wit_ins, wit_del] es"
    "pending MarmotPrefix wit_log_schema wit_db2 = es"
    by (auto simp: wit_db2_def wit_db0_pending)
  then show ?thesis
    by (auto simp: list_all2_Cons1 wit_ins_def wit_del_def info_of_def wit_info captured_event_def)
      (auto simp: wit_repl_cols_def)
qed

text \<open>
  C22: the node's own writes are never captured. On every connection the pool has lent out the
  trigger does not fire, so a replicated change is not queued again and cannot echo between nodes.
\<close>

theorem replicated_writes_not_captured:
  assumes "pool_reach env s B" and "c \<in> B"
  shows "\<exists>h. c_gSQL (p_heap s c) = Some h \<and> change_trigger p h t info now rc d = Some d"
proof -
  from pool_reach_inv [OF assms(1)] assms(2) have "conn_open (p_id s) (p_heap s c)" by (simp add: pool_inv_def)
  then show ?thesis by (auto simp: conn_open_def change_trigger_def)
qed

theorem replicated_writes_not_captured_witness:
  "\<exists>h. c_gSQL (p_heap wit_pool2 1) = Some h \<and>
     change_trigger MarmotPrefix h ''t'' wit_repl_cols 5 (RowInsert []) wit_db2 = Some wit_db2"
  using replicated_writes_not_captured [OF wit_pool_reach, of 1] by simp

section \<open>Cleaning up\<close>

definition expired :: "int \<Rightarrow> drow \<Rightarrow> bool" where
  "expired before r = sats [CEq ''state'' (DInt Published), CLte ''created_at'' before] r"

definition clean_db :: "string \<Rightarrow> int \<Rightarrow> string \<Rightarrow> sqldb \<Rightarrow> sqldb" where
  "clean_db p before t d = sql_after (DeleteFrom (metaTable p t changeLogName)
     [CEq ''state'' (DInt Published), CLte ''created_at'' before]) d"

lemma expired_published: "expired before r \<Longrightarrow> cell r ''state'' = DInt Published"
  by (simp add: expired_def sats_def)

lemma clean_sem:
  assumes wf: "cdc_wf p sch d" and info: "map_of sch t = Some info"
  obtains lt where "d (metaTable p t changeLogName) = Some lt" "log_wf info lt"
    "sql_sem (DeleteFrom (metaTable p t changeLogName) [CEq ''state'' (DInt Published), CLte ''created_at'' before]) d
       = Some (Affected (int (length (filter (expired before) (t_rows lt)))), clean_db p before t d)"
    "clean_db p before t d = d(metaTable p t changeLogName \<mapsto> lt\<lparr>t_rows := filter (\<lambda>r. \<not> expired before r) (t_rows lt)\<rparr>)"
proof -
  from wf info obtain lt where lt: "d (metaTable p t changeLogName) = Some lt" "log_wf info lt"
    unfolding cdc_wf_def by blast
  have k: "known [''state'', ''created_at''] lt" using lt(2) by (simp add: log_wf_def known_def log_cols_def)
  have e: "sats [CEq ''state'' (DInt Published), CLte ''created_at'' before] = expired before"
    by (simp add: expired_def fun_eq_iff)
  from k have "sql_sem (DeleteFrom (metaTable p t changeLogName) [CEq ''state'' (DInt Published), CLte ''created_at'' before]) d
      = Some (Affected (int (length (filter (expired before) (t_rows lt)))),
         d(metaTable p t changeLogName \<mapsto> lt\<lparr>t_rows := filter (\<lambda>r. \<not> expired before r) (t_rows lt)\<rparr>))"
    by (simp add: lt(1) e delete_where_def)
  with that lt show ?thesis by (simp add: clean_db_def sql_after_def)
qed

lemma log_row_unique:
  assumes wf: "cdc_wf p sch d" and g: "g \<in> set (queue p d)"
    and r: "r \<in> set (rows_of d (metaTable p (g_TableName g) changeLogName))" "cell r ''id'' = DInt (g_ChangeTableId g)"
  shows "log_row p d g = r"
proof (rule queued_row [OF wf g])
  fix info lt r'
  assume a: "d (metaTable p (g_TableName g) changeLogName) = Some lt" "log_wf info lt"
    "r' \<in> set (t_rows lt)" "cell r' ''id'' = DInt (g_ChangeTableId g)" "log_row p d g = r'"
  then have "r \<in> set (t_rows lt)" using r(1) by (simp add: rows_of_Some)
  moreover have "int_cell ''id'' r = int_cell ''id'' r'" using r(2) a(4) by (simp add: int_cell_def)
  ultimately show ?thesis using a(2,3,5) unfolding log_wf_def distinct_map by (metis inj_onD)
qed


lemma log_wf_filter: "log_wf info lt \<Longrightarrow> log_wf info (lt\<lparr>t_rows := filter P (t_rows lt)\<rparr>)"
  by (auto simp: log_wf_def intro: distinct_map_filter)

lemma clean_one:
  assumes wf: "cdc_wf p sch d" and info: "map_of sch t = Some info"
  shows "queue p (clean_db p before t d) = queue p d"
    and "cdc_wf p sch (clean_db p before t d)"
    and "pending p sch (clean_db p before t d) = pending p sch d"
    and "rows_of (clean_db p before t d) u =
       (if u = metaTable p t changeLogName then filter (\<lambda>r. \<not> expired before r) (rows_of d u) else rows_of d u)"
proof -
  let ?d = "clean_db p before t d"
  from clean_sem [OF wf info, of before] obtain lt where lt: "d (metaTable p t changeLogName) = Some lt" "log_wf info lt"
    "?d = d(metaTable p t changeLogName \<mapsto> lt\<lparr>t_rows := filter (\<lambda>r. \<not> expired before r) (t_rows lt)\<rparr>)" by metis
  show rows: "rows_of ?d u = (if u = metaTable p t changeLogName
      then filter (\<lambda>r. \<not> expired before r) (rows_of d u) else rows_of d u)" for u
    by (simp add: lt(3) rows_of_upd rows_of_Some [of d _ lt, OF lt(1)])
  show q: "queue p ?d = queue p d" by (simp add: queue_def rows)
  have kept: "r \<in> set (rows_of ?d u)" if "r \<in> set (rows_of d u)" "cell r ''state'' = DInt Pending" for r u
    using that expired_published [of before r] by (auto simp: rows Pending_def Published_def)
  have "queued_ok p sch ?d g" if "g \<in> set (queue p d)" for g
    using wf that kept unfolding cdc_wf_def queued_ok_def by blast
  moreover have "\<exists>lt'. ?d (metaTable p t' changeLogName) = Some lt' \<and> log_wf i lt'" if "map_of sch t' = Some i" for t' i
    using wf that info lt log_wf_filter [OF lt(2)] by (cases "t' = t") (auto simp: cdc_wf_def)
  ultimately show wf': "cdc_wf p sch ?d" using wf q by (auto simp: cdc_wf_def lt(3))
  have "log_row p ?d g = log_row p d g" if g: "g \<in> set (queue p d)" for g
  proof (rule queued_row [OF wf g])
    fix info' lt' r assume "d (metaTable p (g_TableName g) changeLogName) = Some lt'" "r \<in> set (t_rows lt')"
      "cell r ''id'' = DInt (g_ChangeTableId g)" "cell r ''state'' = DInt Pending" "log_row p d g = r"
    with kept [of r "metaTable p (g_TableName g) changeLogName"] g q show ?thesis
      by (intro log_row_unique [OF wf']) (simp_all add: rows_of_Some)
  qed
  then show "pending p sch ?d = pending p sch d" by (simp add: pending_def q change_event_def)
qed

lemma clean_fold:
  assumes "cdc_wf p sch d" and "set ts \<subseteq> fst ` set sch"
  shows "cdc_wf p sch (fold (clean_db p before) ts d)"
    and "pending p sch (fold (clean_db p before) ts d) = pending p sch d"
    and "rows_of (fold (clean_db p before) ts d) u =
       (if u \<in> (\<lambda>t. metaTable p t changeLogName) ` set ts then filter (\<lambda>r. \<not> expired before r) (rows_of d u) else rows_of d u)"
    and "u \<notin> log_tables p sch \<Longrightarrow> fold (clean_db p before) ts d u = d u"
proof -
  have "cdc_wf p sch (fold (clean_db p before) ts d) \<and> pending p sch (fold (clean_db p before) ts d) = pending p sch d \<and>
    rows_of (fold (clean_db p before) ts d) u =
       (if u \<in> (\<lambda>t. metaTable p t changeLogName) ` set ts then filter (\<lambda>r. \<not> expired before r) (rows_of d u) else rows_of d u) \<and>
    (u \<notin> log_tables p sch \<longrightarrow> fold (clean_db p before) ts d u = d u)"
    using assms
  proof (induction ts arbitrary: d)
    case (Cons t ts)
    then obtain info where info: "map_of sch t = Some info" by (auto simp: map_of_eq_None_iff dest!: weak_map_of_SomeI)
    note one = clean_one [OF Cons.prems(1) info, of before]
    have "metaTable p t changeLogName \<in> log_tables p sch" using map_of_SomeD [OF info] by (force simp: log_tables_def)
    then have "u \<notin> log_tables p sch \<Longrightarrow> clean_db p before t d u = d u"
      using clean_sem [OF Cons.prems(1) info, of before] by (metis fun_upd_other)
    with Cons.IH [OF one(2)] Cons.prems(2) one show ?case by (auto simp: filter_filter_eq)
  qed simp
  then show "cdc_wf p sch (fold (clean_db p before) ts d)" "pending p sch (fold (clean_db p before) ts d) = pending p sch d"
    "rows_of (fold (clean_db p before) ts d) u =
       (if u \<in> (\<lambda>t. metaTable p t changeLogName) ` set ts then filter (\<lambda>r. \<not> expired before r) (rows_of d u) else rows_of d u)"
    "u \<notin> log_tables p sch \<Longrightarrow> fold (clean_db p before) ts d u = d u" by simp_all
qed


definition expired_count :: "string \<Rightarrow> int \<Rightarrow> string list \<Rightarrow> sqldb \<Rightarrow> int" where
  "expired_count p before ts d =
     sum_list (map (\<lambda>t. int (length (filter (expired before) (rows_of d (metaTable p t changeLogName))))) ts)"

lemma cleanup_pool_free: "pool_free (cleanup_tables env before ts n :: ('x StreamDB, int) prog)"
proof (induction ts arbitrary: n)
  case (Cons t ts)
  have "pool_free (\<lambda>w :: 'x StreamDB. bindR (exec env (DeleteFrom (metaTable (sd_prefix w) t changeLogName)
      [CEq ''state'' (DInt Published), CLte ''created_at'' before]))
      (\<lambda>rs. case rs of Affected k \<Rightarrow> cleanup_tables env before ts (n + k) | _ \<Rightarrow> lift_res (Err (Errorf ''not an update''))) w)"
    by (rule pool_free_dep [where S = sd_prefix and f = "\<lambda>p. bindR (exec env (DeleteFrom (metaTable p t changeLogName)
      [CEq ''state'' (DInt Published), CLte ''created_at'' before]))
      (\<lambda>rs. case rs of Affected k \<Rightarrow> cleanup_tables env before ts (n + k) | _ \<Rightarrow> lift_res (Err (Errorf ''not an update'')))"])
      (auto intro!: pool_free_bindR Cons.IH split: sqlres.splits)
  then show ?case by (simp add: pool_free_def)
qed (simp add: pool_free_def)

lemma cleanup_tables_run:
  "cdc_wf (sd_prefix w) sch (sd_db w) \<Longrightarrow> set ts \<subseteq> fst ` set sch \<Longrightarrow> distinct ts \<Longrightarrow>
   \<exists>r t us. cleanup_tables env before ts n w = (r, w\<lparr>sd_tick := t, sd_db := fold (clean_db (sd_prefix w) before) us (sd_db w)\<rparr>) \<and>
     returns r \<and> set us \<subseteq> set ts \<and>
     (healthy env \<longrightarrow> us = ts \<and> r = Ok (n + expired_count (sd_prefix w) before ts (sd_db w)))"
proof (induction ts arbitrary: w n)
  case Nil
  show ?case
    by (intro exI [of _ "Ok n"] exI [of _ "sd_tick w"] exI [of _ "[]"]) (simp add: expired_count_def)
next
  case (Cons a ts)
  let ?p = "sd_prefix w" and ?st = "DeleteFrom (metaTable (sd_prefix w) a changeLogName) [CEq ''state'' (DInt Published), CLte ''created_at'' before]"
  from Cons.prems(2) obtain info where info: "map_of sch a = Some info"
    by (auto simp: map_of_eq_None_iff dest!: weak_map_of_SomeI)
  from clean_sem [OF Cons.prems(1) info, of before] obtain lt where lt: "sd_db w (metaTable ?p a changeLogName) = Some lt"
    "sql_sem ?st (sd_db w) = Some (Affected (int (length (filter (expired before) (t_rows lt)))), clean_db ?p before a (sd_db w))"
    by metis
  note one = clean_one [OF Cons.prems(1) info, of before]
  show ?case
  proof (cases "e_fault env (sd_tick w)")
    case (Some e)
    then have "\<not> healthy env" and "cleanup_tables env before (a # ts) n w = (Err e, w\<lparr>sd_tick := Suc (sd_tick w)\<rparr>)"
      by (auto simp: bindR_def exec_def drv_call_def healthy_def)
    then show ?thesis
      by (intro exI [of _ "Err e"] exI [of _ "Suc (sd_tick w)"] exI [of _ "[]"]) simp
  next
    case None
    let ?m = "int (length (filter (expired before) (rows_of (sd_db w) (metaTable ?p a changeLogName))))"
    let ?w = "w\<lparr>sd_tick := Suc (sd_tick w), sd_db := clean_db ?p before a (sd_db w)\<rparr>"
    have step: "cleanup_tables env before (a # ts) n w = cleanup_tables env before ts (n + ?m) ?w"
      by (simp add: bindR_def exec_no_fault [OF None lt(2)] rows_of_Some [of "sd_db w" _ lt, OF lt(1)])
    have "map (\<lambda>t. int (length (filter (expired before) (rows_of (clean_db ?p before a (sd_db w)) (metaTable ?p t changeLogName))))) ts
        = map (\<lambda>t. int (length (filter (expired before) (rows_of (sd_db w) (metaTable ?p t changeLogName))))) ts"
      using Cons.prems(3) by (auto simp: one(4))
    then have cnt: "expired_count ?p before ts (clean_db ?p before a (sd_db w)) = expired_count ?p before ts (sd_db w)"
      by (simp only: expired_count_def)
    from Cons.IH [of ?w "n + ?m"] one(2) Cons.prems(2,3) obtain r t us where
      r: "cleanup_tables env before ts (n + ?m) ?w = (r, w\<lparr>sd_tick := t, sd_db := fold (clean_db ?p before) (a # us) (sd_db w)\<rparr>)"
      "returns r" "set us \<subseteq> set ts"
      "healthy env \<longrightarrow> us = ts \<and> r = Ok (n + ?m + expired_count ?p before ts (sd_db w))"
      by (auto simp: cnt)
    then show ?thesis unfolding step
      by (intro exI [of _ r] exI [of _ t] exI [of _ "a # us"]) (auto simp: expired_count_def)
  qed
qed

text \<open>What the deletes leave of database \<open>d\<close>.\<close>

definition cleaned :: "db_env \<Rightarrow> string \<Rightarrow> (string \<times> ColumnInfo list) list \<Rightarrow> int \<Rightarrow> sqldb \<Rightarrow> int res \<Rightarrow> sqldb \<Rightarrow> bool" where
  "cleaned env p sch before d r d' \<longleftrightarrow>
     pending p sch d' = pending p sch d \<and>
     (\<forall>t row. row \<in> set (rows_of d t) \<longrightarrow> row \<notin> set (rows_of d' t) \<longrightarrow>
        cell row ''state'' = DInt Published \<and> expired before row) \<and>
     (healthy env \<longrightarrow>
        r = Ok (expired_count p before (map fst sch) d) \<and>
        (\<forall>t \<in> fst ` set sch. rows_of d' (metaTable p t changeLogName) =
           filter (\<lambda>r. \<not> expired before r) (rows_of d (metaTable p t changeLogName))))"

lemma cleanup_body:
  assumes wf: "cdc_wf (sd_prefix w) (sd_schema w) (sd_db w)"
  obtains r t d where "cleanup_tables env before (map fst (sd_schema w)) 0 w = (r, w\<lparr>sd_tick := t, sd_db := d\<rparr>)"
    "returns r" "cdc_wf (sd_prefix w) (sd_schema w) d" "cleaned env (sd_prefix w) (sd_schema w) before (sd_db w) r d"
    "\<And>u. u \<notin> log_tables (sd_prefix w) (sd_schema w) \<Longrightarrow> d u = sd_db w u"
proof -
  let ?p = "sd_prefix w" and ?ts = "map fst (sd_schema w)"
  have "distinct ?ts" using wf by (simp add: cdc_wf_def cdc_schema_def)
  with cleanup_tables_run [OF wf, of ?ts env before 0] obtain r t us where
    b: "cleanup_tables env before ?ts 0 w = (r, w\<lparr>sd_tick := t, sd_db := fold (clean_db ?p before) us (sd_db w)\<rparr>)"
    and r: "returns r" "set us \<subseteq> fst ` set (sd_schema w)"
    and h: "healthy env \<Longrightarrow> us = ?ts \<and> r = Ok (expired_count ?p before ?ts (sd_db w))"
    by auto
  note cf = clean_fold [OF wf r(2), where before = before]
  have "cell row ''state'' = DInt Published \<and> expired before row"
    if "row \<in> set (rows_of (sd_db w) u)" "row \<notin> set (rows_of (fold (clean_db ?p before) us (sd_db w)) u)" for u row
    using that expired_published [of before row] by (auto simp: cf(3) split: if_splits)
  moreover have "rows_of (fold (clean_db ?p before) us (sd_db w)) (metaTable ?p t changeLogName) =
      filter (\<lambda>r. \<not> expired before r) (rows_of (sd_db w) (metaTable ?p t changeLogName))"
    if "healthy env" "t \<in> fst ` set (sd_schema w)" for t
    unfolding cf(3) using h [OF that(1)] that(2) by simp
  ultimately have "cleaned env ?p (sd_schema w) before (sd_db w) r (fold (clean_db ?p before) us (sd_db w))"
    unfolding cleaned_def using cf(2) h by blast
  with that [OF b r(1) cf(1)] cf(4) show ?thesis by blast
qed

lemma CleanupChangeLogs_run:
  assumes "db_ready env w B" and "cdc_wf (sd_prefix w) (sd_schema w) (sd_db w)"
  shows "\<exists>r w'. CleanupChangeLogs env before w = (r, w') \<and> returns r \<and> pub_frame env B w w' \<and>
     cleaned env (sd_prefix w) (sd_schema w) before (sd_db w) r (sd_db w') \<and> sd_ext w' = sd_ext w"
proof (rule cleanup_body [OF assms(2), of env before])
  fix r t d
  let ?body = "\<lambda>w. cleanup_tables env before (map fst (sd_schema w)) 0 w"
  assume b: "?body w = (r, w\<lparr>sd_tick := t, sd_db := d\<rparr>)" and r: "returns r"
    and d: "cdc_wf (sd_prefix w) (sd_schema w) d" "cleaned env (sd_prefix w) (sd_schema w) before (sd_db w) r d"
      "\<And>u. u \<notin> log_tables (sd_prefix w) (sd_schema w) \<Longrightarrow> d u = sd_db w u"
  have pf: "pool_free ?body"
    by (rule pool_free_dep [where f = "\<lambda>ts. cleanup_tables env before ts 0"]) (simp_all add: cleanup_pool_free)
  have nb: "fst (?body w) \<noteq> Block" using b r by auto
  obtain p where p: "pool_inv p B" "p_cap p = p_cap (sd_pool w)"
    and o: "CleanupChangeLogs env before w = (r, w\<lparr>sd_tick := t, sd_db := d, sd_pool := p\<rparr>) \<or>
      (\<exists>e. CleanupChangeLogs env before w = (Err e, w\<lparr>sd_pool := p\<rparr>)) \<and> \<not> healthy env"
    using borrow_conn_outcome [OF assms(1) pf nb] b unfolding CleanupChangeLogs_def by auto
  have "pub_frame env B w (w\<lparr>sd_tick := t, sd_db := d, sd_pool := p\<rparr>)" "pub_frame env B w (w\<lparr>sd_pool := p\<rparr>)"
    using assms p d by (simp_all add: pub_frame_def db_ready_def)
  moreover have "cleaned env (sd_prefix w) (sd_schema w) before (sd_db w) r' (sd_db w)" if "\<not> healthy env" for r'
    using that by (simp add: cleaned_def)
  ultimately show ?thesis using o r d(2) by auto
qed

text \<open>
  C23: \<open>CleanupChangeLogs\<close> deletes nothing that still waits: whatever the driver does, the waiting
  changes, the invariant of the change logs and the application's tables stay as they were, and a
  change-log row that disappears was published and not younger than the given time. Without faults
  every such row of every watched table is gone and the result is their number.
\<close>

theorem cleanup_deletes_only_published:
  assumes "db_ready env w B" and "cdc_wf (sd_prefix w) (sd_schema w) (sd_db w)"
  shows "\<exists>r w'. CleanupChangeLogs env before w = (r, w') \<and> returns r \<and> pub_frame env B w w' \<and>
     cleaned env (sd_prefix w) (sd_schema w) before (sd_db w) r (sd_db w')"
  using CleanupChangeLogs_run [OF assms] by blast

theorem cleanup_deletes_only_published_witness:
  "\<exists>w'. CleanupChangeLogs wit_repl_env 1000 wit_pub_world = (Ok 0, w') \<and>
     length (pending MarmotPrefix wit_log_schema (sd_db w')) = 2"
proof -
  have "expired_count MarmotPrefix 1000 [''t''] wit_db2 = 0"
    by (simp add: expired_count_def expired_def sats_def rows_of_def wit_db2_def wit_db0_def capture_def wit_ins_def
        wit_del_def info_of_def wit_info change_trigger_def app_handle_def log_insert_def global_insert_def
        log_given_def known_def log_cols_def global_cols_def insert_auto_def cell_not_val wit_repl_cols_def
        Pending_def Published_def list_all_iff)
  with cleanup_deletes_only_published [OF wit_pub_ready wit_pub_wf, of 1000] wit_healthy wit_db2_pending show ?thesis
    by (auto simp: wit_pub_world_def wit_log_schema_def cleaned_def)
qed

end
