(* ===== verification/Catalog.thy ===== *)
theory Catalog
  imports ChangeLog
begin

text \<open>
  The part of \<open>db/sqlite.go\<close>, \<open>db/change_log.go\<close> and \<open>db/cleanup.go\<close> that works on the schema of a
  database over one connection: listing tables, reading column information, creating the change-log
  tables and triggers, removing them, checkpointing the write-ahead log. A connection sees a \<open>rawdb\<close>:
  the tables' contents, the catalogue (tables, triggers, indexes, the columns \<open>pragma_table_info\<close>
  reports) and a counter of the calls made, any of which may fail (\<open>fault n\<close> for the \<open>n\<close>-th). Names go
  into statements as they are; a name that does not parse is among the driver's errors.
\<close>

section \<open>LIKE\<close>

definition ascii_lower :: "char \<Rightarrow> char" where
  "ascii_lower c = (if 65 \<le> (of_char c :: nat) \<and> of_char c \<le> (90 :: nat) then char_of (of_char c + 32 :: nat) else c)"

text \<open>SQLite's LIKE: the percent sign matches any text, the underscore any one character, letters in either case.\<close>

fun like :: "string \<Rightarrow> string \<Rightarrow> bool" where
  "like [] s \<longleftrightarrow> s = []"
| "like (p # ps) s \<longleftrightarrow>
     (if p = CHR ''%'' then like ps s \<or> (case s of [] \<Rightarrow> False | c # cs \<Rightarrow> like (p # ps) cs)
      else (case s of [] \<Rightarrow> False | c # cs \<Rightarrow> (p = CHR ''_'' \<or> ascii_lower p = ascii_lower c) \<and> like ps cs))"

declare like.simps(2) [simp del]

section \<open>A database over one connection\<close>

text \<open>A row of \<open>pragma_table_info\<close>: name, type, notnull, dflt_value, pk.\<close>

type_synonym pragma_row = "string \<times> string \<times> bool \<times> dval \<times> int"

record catalog =
  cat_tables :: "string list"
  cat_triggers :: "(string \<times> string) list"
  cat_indexes :: "(string \<times> string) list"
  cat_info :: "string \<Rightarrow> pragma_row list"

record rawdb =
  rd_tick :: nat
  rd_db :: sqldb
  rd_cat :: catalog

type_synonym faults = "nat \<Rightarrow> go_error option"

definition raw_call :: "faults \<Rightarrow> (rawdb, unit) prog" where
  "raw_call fault w = ((case fault (rd_tick w) of Some e \<Rightarrow> Err e | None \<Rightarrow> Ok ()), w\<lparr>rd_tick := Suc (rd_tick w)\<rparr>)"

text \<open>The schema statements. Triggers and indexes are a name and a table; dropping a table drops both.\<close>

datatype ddl =
    CreateTable string "string list"
  | CreateIndex string string
  | CreateTrigger string string
  | DropTrigger string
  | DropTable string

definition empty_table :: "string list \<Rightarrow> sqltable" where
  "empty_table cols = \<lparr>t_cols = cols, t_keys = [[''id'']], t_seq = 0, t_rows = []\<rparr>"

fun ddl_sem :: "ddl \<Rightarrow> rawdb \<Rightarrow> rawdb option" where
  "ddl_sem (CreateTable t cols) w =
     Some (if t \<in> set (cat_tables (rd_cat w)) then w
           else w\<lparr>rd_db := (rd_db w)(t \<mapsto> empty_table cols),
                  rd_cat := (rd_cat w)\<lparr>cat_tables := cat_tables (rd_cat w) @ [t]\<rparr>\<rparr>)"
| "ddl_sem (CreateIndex i t) w =
     (if t \<notin> set (cat_tables (rd_cat w)) then None
      else Some (if i \<in> fst ` set (cat_indexes (rd_cat w)) then w
                 else w\<lparr>rd_cat := (rd_cat w)\<lparr>cat_indexes := cat_indexes (rd_cat w) @ [(i, t)]\<rparr>\<rparr>))"
| "ddl_sem (CreateTrigger n t) w =
     (if t \<notin> set (cat_tables (rd_cat w)) then None
      else Some (if n \<in> fst ` set (cat_triggers (rd_cat w)) then w
                 else w\<lparr>rd_cat := (rd_cat w)\<lparr>cat_triggers := cat_triggers (rd_cat w) @ [(n, t)]\<rparr>\<rparr>))"
| "ddl_sem (DropTrigger n) w =
     Some (w\<lparr>rd_cat := (rd_cat w)\<lparr>cat_triggers := filter (\<lambda>(m, _). m \<noteq> n) (cat_triggers (rd_cat w))\<rparr>\<rparr>)"
| "ddl_sem (DropTable t) w =
     Some (w\<lparr>rd_db := (rd_db w)(t := None),
             rd_cat := (rd_cat w)\<lparr>cat_tables := filter (\<lambda>u. u \<noteq> t) (cat_tables (rd_cat w)),
                                  cat_triggers := filter (\<lambda>(_, u). u \<noteq> t) (cat_triggers (rd_cat w)),
                                  cat_indexes := filter (\<lambda>(_, u). u \<noteq> t) (cat_indexes (rd_cat w))\<rparr>\<rparr>)"

definition raw_exec :: "faults \<Rightarrow> ddl \<Rightarrow> (rawdb, unit) prog" where
  "raw_exec fault st = bindR (raw_call fault) (\<lambda>_ w.
     case ddl_sem st w of None \<Rightarrow> (Err (Errorf ''no such table''), w) | Some w' \<Rightarrow> (Ok (), w'))"

text \<open>\<open>Exec\<close> of a script: its statements one after the other, outside a transaction.\<close>

fun exec_script :: "faults \<Rightarrow> ddl list \<Rightarrow> (rawdb, unit) prog" where
  "exec_script fault [] = ret ()"
| "exec_script fault (st # sts) = bindR (raw_exec fault st) (\<lambda>_. exec_script fault sts)"

section \<open>Reading the schema\<close>

definition listDBTables :: "faults \<Rightarrow> (rawdb, string list) prog" where
  "listDBTables fault = bindR (raw_call fault) (\<lambda>_ w.
     (Ok (filter (\<lambda>n. \<not> like ''sqlite_%'' n \<and> \<not> like (MarmotPrefix @ ''%'') n) (cat_tables (rd_cat w))), w))"

text \<open>
  The loop over the rows of \<open>pragma_table_info\<close>. A \<open>Next\<close> that fails ends it like one that finds no
  further row: \<open>rows.Err\<close> is only looked at after a \<open>Next\<close> that succeeded.
\<close>

fun scan_info :: "faults \<Rightarrow> pragma_row list \<Rightarrow> ColumnInfo list \<Rightarrow> bool \<Rightarrow> rawdb \<Rightarrow> (ColumnInfo list \<times> bool) \<times> rawdb" where
  "scan_info fault [] tableInfo hasPrimaryKey w = ((tableInfo, hasPrimaryKey), snd (raw_call fault w))"
| "scan_info fault ((n, ty, nn, dv, pk) # rows) tableInfo hasPrimaryKey w =
     (case raw_call fault w of
        (Ok _, w1) \<Rightarrow>
          scan_info fault rows
            (tableInfo @ [\<lparr>ci_Name = n, ci_Type = ty, ci_NotNull = nn, ci_DefaultValue = dv, ci_PrimaryKeyIndex = pk,
                           ci_IsPrimaryKey = pk > 0\<rparr>])
            (hasPrimaryKey \<or> pk > 0) w1
      | (_, w1) \<Rightarrow> ((tableInfo, hasPrimaryKey), w1))"

definition rowid_column :: ColumnInfo where
  "rowid_column = \<lparr>ci_Name = ''rowid'', ci_Type = ''INT'', ci_NotNull = True, ci_DefaultValue = DNull,
     ci_PrimaryKeyIndex = 0, ci_IsPrimaryKey = True\<rparr>"

definition getTableInfo :: "faults \<Rightarrow> string \<Rightarrow> (rawdb, ColumnInfo list) prog" where
  "getTableInfo fault table =
     bindR (raw_call fault) (\<lambda>_.
     bindR (raw_call fault) (\<lambda>_ w.
       case scan_info fault (cat_info (rd_cat w) table) [] False w of
         ((tableInfo, hasPrimaryKey), w1) \<Rightarrow>
           (Ok (if \<not> hasPrimaryKey then tableInfo @ [rowid_column] else tableInfo), w1)))"

section \<open>Creating the change logs\<close>

text \<open>\<open>global_change_log_script.tmpl\<close> and \<open>table_change_log_script.tmpl\<close>; the triggers come in the order of their names.\<close>

definition globalCDCScript :: "string \<Rightarrow> ddl list" where
  "globalCDCScript prefix = [CreateTable (globalMetaTable prefix) global_cols]"

definition trigger_for :: "string \<Rightarrow> string \<Rightarrow> string \<Rightarrow> string" where
  "trigger_for prefix t trigger = metaTable prefix t changeLogName @ ''_on_'' @ trigger"

definition trigger_events :: "string list" where
  "trigger_events = [''delete'', ''insert'', ''update'']"

definition tableCDCScriptFor :: "string \<Rightarrow> (string \<times> ColumnInfo list) list \<Rightarrow> string \<Rightarrow> ddl list res" where
  "tableCDCScriptFor prefix sch t =
     (case map_of sch t of
        None \<Rightarrow> Err (Errorf ''table info not found'')
      | Some columns \<Rightarrow>
          Ok ([CreateTable (metaTable prefix t changeLogName) (log_cols columns),
               CreateIndex (metaTable prefix t changeLogName @ ''_state_index'') (metaTable prefix t changeLogName)] @
              concat (map (\<lambda>trigger. [DropTrigger (trigger_for prefix t trigger), CreateTrigger (trigger_for prefix t trigger) t])
                        trigger_events)))"

section \<open>Removing them\<close>

fun drop_each :: "faults \<Rightarrow> (string \<Rightarrow> ddl) \<Rightarrow> string list \<Rightarrow> (rawdb, unit) prog" where
  "drop_each fault drop_stmt [] = ret ()"
| "drop_each fault drop_stmt (n # ns) = bindR (raw_exec fault (drop_stmt n)) (\<lambda>_. drop_each fault drop_stmt ns)"

definition removeMarmotTriggers :: "faults \<Rightarrow> string \<Rightarrow> (rawdb, unit) prog" where
  "removeMarmotTriggers fault prefix = bindR (raw_call fault) (\<lambda>_ w.
     drop_each fault DropTrigger (filter (like (prefix @ ''%'')) (map fst (cat_triggers (rd_cat w)))) w)"

definition removeMarmotTables :: "faults \<Rightarrow> string \<Rightarrow> (rawdb, unit) prog" where
  "removeMarmotTables fault prefix = bindR (raw_call fault) (\<lambda>_ w.
     drop_each fault DropTable (filter (like (prefix @ ''%'')) (cat_tables (rd_cat w))) w)"

section \<open>Checkpoints\<close>

text \<open>The loop of \<open>performCheckpoint\<close> over what the pragma returns; with no answer it waits.\<close>

fun performCheckpoint :: "(int \<times> int \<times> int) res list \<Rightarrow> unit res" where
  "performCheckpoint [] = Block"
| "performCheckpoint (row # rows) =
     (case row of
        Ok (rBusy, rLog, rCheckpoint) \<Rightarrow> if rBusy \<noteq> 0 then performCheckpoint rows else Ok ()
      | Err e \<Rightarrow> Err e
      | Panic p \<Rightarrow> Panic p
      | Block \<Rightarrow> Block)"

section \<open>Lemmas on LIKE\<close>

text \<open>A pattern that ends in its only percent sign looks at the first characters.\<close>

fun matches :: "string \<Rightarrow> string \<Rightarrow> bool" where
  "matches [] s = True"
| "matches (p # ps) [] = False"
| "matches (p # ps) (c # cs) = ((p = CHR ''_'' \<or> ascii_lower p = ascii_lower c) \<and> matches ps cs)"

lemma like_percent: "like ''%'' s"
  by (induction s) (auto simp: like.simps(2))

lemma like_prefix: "CHR ''%'' \<notin> set p \<Longrightarrow> like (p @ ''%'') s \<longleftrightarrow> matches p s"
proof (induction p s rule: matches.induct)
  case (1 s)
  show ?case by (simp add: like_percent)
qed (auto simp: like.simps(2))

lemma matches_prefix: "has_prefix s p \<Longrightarrow> matches p s"
  by (induction s p rule: has_prefix.induct) auto

lemma marmot_no_percent [simp]: "CHR ''%'' \<notin> set MarmotPrefix"
  by (simp add: MarmotPrefix_def)

lemma like_marmot: "like (MarmotPrefix @ ''%'') s \<longleftrightarrow> matches MarmotPrefix s"
  by (rule like_prefix) simp

section \<open>Lemmas on schema statements\<close>

definition no_faults :: "faults \<Rightarrow> bool" where
  "no_faults fault \<longleftrightarrow> (\<forall>n. fault n = None)"

lemma raw_call_cases:
  obtains "raw_call fault w = (Ok (), w\<lparr>rd_tick := Suc (rd_tick w)\<rparr>)"
  | e where "raw_call fault w = (Err e, w\<lparr>rd_tick := Suc (rd_tick w)\<rparr>)" "\<not> no_faults fault"
  by (cases "fault (rd_tick w)") (auto simp: raw_call_def no_faults_def)

lemma raw_exec_cases:
  assumes "ddl_sem st (w\<lparr>rd_tick := Suc (rd_tick w)\<rparr>) = Some w'"
  obtains "raw_exec fault st w = (Ok (), w')"
  | e where "raw_exec fault st w = (Err e, w\<lparr>rd_tick := Suc (rd_tick w)\<rparr>)" "\<not> no_faults fault"
  by (rule raw_call_cases [of fault w]) (use assms in \<open>auto simp: raw_exec_def bindR_def\<close>)

text \<open>A run of drops removes some first of the names; all of them unless a call fails.\<close>

definition without_tables :: "string set \<Rightarrow> rawdb \<Rightarrow> rawdb \<Rightarrow> bool" where
  "without_tables N w w' \<longleftrightarrow>
     rd_db w' = (\<lambda>t. if t \<in> N then None else rd_db w t) \<and>
     cat_tables (rd_cat w') = filter (\<lambda>t. t \<notin> N) (cat_tables (rd_cat w)) \<and>
     cat_triggers (rd_cat w') = filter (\<lambda>(n, t). t \<notin> N) (cat_triggers (rd_cat w))"

definition without_triggers :: "string set \<Rightarrow> rawdb \<Rightarrow> rawdb \<Rightarrow> bool" where
  "without_triggers N w w' \<longleftrightarrow>
     rd_db w' = rd_db w \<and> cat_tables (rd_cat w') = cat_tables (rd_cat w) \<and>
     cat_triggers (rd_cat w') = filter (\<lambda>(n, t). n \<notin> N) (cat_triggers (rd_cat w))"

lemma without_refl [simp]: "without_tables {} w (w\<lparr>rd_tick := k\<rparr>)" "without_triggers {} w (w\<lparr>rd_tick := k\<rparr>)"
  "without_tables {} w w" "without_triggers {} w w"
  by (auto simp: without_tables_def without_triggers_def)

lemma without_tables_step:
  "without_tables {n} w w1 \<Longrightarrow> without_tables N w1 w2 \<Longrightarrow> without_tables (insert n N) w w2"
  by (auto simp: without_tables_def fun_eq_iff filter_filter conj_commute split: prod.splits intro!: filter_cong)

lemma without_triggers_step:
  "without_triggers {n} w w1 \<Longrightarrow> without_triggers N w1 w2 \<Longrightarrow> without_triggers (insert n N) w w2"
  by (auto simp: without_triggers_def filter_filter conj_commute split: prod.splits intro!: filter_cong)

lemma drop_each_run:
  assumes "\<And>n w. \<exists>w'. ddl_sem (f n) w = Some w' \<and> W {n} w w'"
    and refl: "\<And>w k. W {} w (w\<lparr>rd_tick := k\<rparr>)" and refl0: "\<And>w. W {} w w"
    and tick: "\<And>n w w' k. W {n} (w\<lparr>rd_tick := k\<rparr>) w' \<Longrightarrow> W {n} w w'"
    and trans: "\<And>n N w w1 w2. W {n} w w1 \<Longrightarrow> W N w1 w2 \<Longrightarrow> W (insert n N) w w2"
  shows "\<exists>N r w'. drop_each fault f ns w = (r, w') \<and> returns r \<and> N \<subseteq> set ns \<and> W N w w' \<and> (no_faults fault \<longrightarrow> r = Ok ()) \<and>
     (r = Ok () \<longrightarrow> N = set ns)"
proof (induction ns arbitrary: w)
  case Nil
  show ?case by (auto simp: ret_def refl0 intro!: exI [of _ "{}"])
next
  case (Cons n ns)
  obtain w1 where w1: "ddl_sem (f n) (w\<lparr>rd_tick := Suc (rd_tick w)\<rparr>) = Some w1" "W {n} w w1"
    using assms(1) tick by blast
  from w1(1) show ?case
  proof (cases rule: raw_exec_cases [of _ w _ fault])
    case 1
    from Cons.IH [of w1] obtain N r w' where "drop_each fault f ns w1 = (r, w')" "returns r" "N \<subseteq> set ns" "W N w1 w'"
      "no_faults fault \<longrightarrow> r = Ok ()" "r = Ok () \<longrightarrow> N = set ns" by blast
    with 1 trans [OF w1(2)] show ?thesis
      by (intro exI [of _ "insert n N"] exI [of _ r] exI [of _ w']) (auto simp: bindR_def)
  next
    case (2 e)
    then show ?thesis by (intro exI [of _ "{}"] exI [of _ "Err e"]) (auto simp: bindR_def refl)
  qed
qed

lemma drop_tables_run:
  "\<exists>N r w'. drop_each fault DropTable ns w = (r, w') \<and> returns r \<and> N \<subseteq> set ns \<and> without_tables N w w' \<and>
     (no_faults fault \<longrightarrow> r = Ok ()) \<and> (r = Ok () \<longrightarrow> N = set ns)"
proof (rule drop_each_run [where W = without_tables])
  show "\<exists>w'. ddl_sem (DropTable n) w = Some w' \<and> without_tables {n} w w'" for n w
    by (auto simp: without_tables_def fun_eq_iff)
  show "without_tables (insert n N) w w2" if "without_tables {n} w w1" "without_tables N w1 w2" for n N w w1 w2
    by (rule without_tables_step [OF that])
qed (auto simp: without_tables_def)

lemma drop_triggers_run:
  "\<exists>N r w'. drop_each fault DropTrigger ns w = (r, w') \<and> returns r \<and> N \<subseteq> set ns \<and> without_triggers N w w' \<and>
     (no_faults fault \<longrightarrow> r = Ok ()) \<and> (r = Ok () \<longrightarrow> N = set ns)"
proof (rule drop_each_run [where W = without_triggers])
  show "\<exists>w'. ddl_sem (DropTrigger n) w = Some w' \<and> without_triggers {n} w w'" for n w
    by (auto simp: without_triggers_def intro!: filter_cong)
  show "without_triggers (insert n N) w w2" if "without_triggers {n} w w1" "without_triggers N w1 w2" for n N w w1 w2
    by (rule without_triggers_step [OF that])
qed (auto simp: without_triggers_def)

text \<open>What removing both leaves: everything whose name does not match, and, on success, nothing else.\<close>

definition marmot_removed :: "string \<Rightarrow> bool \<Rightarrow> bool \<Rightarrow> rawdb \<Rightarrow> rawdb \<Rightarrow> bool" where
  "marmot_removed p tables complete w w' \<longleftrightarrow>
     (\<forall>t. \<not> like (p @ ''%'') t \<longrightarrow> rd_db w' t = rd_db w t \<and> (t \<in> set (cat_tables (rd_cat w')) \<longleftrightarrow> t \<in> set (cat_tables (rd_cat w)))) \<and>
     (\<forall>n t. \<not> like (p @ ''%'') n \<longrightarrow> \<not> like (p @ ''%'') t \<longrightarrow>
        ((n, t) \<in> set (cat_triggers (rd_cat w')) \<longleftrightarrow> (n, t) \<in> set (cat_triggers (rd_cat w)))) \<and>
     set (cat_triggers (rd_cat w')) \<subseteq> set (cat_triggers (rd_cat w)) \<and>
     (complete \<longrightarrow>
        (\<forall>n t. (n, t) \<in> set (cat_triggers (rd_cat w')) \<longrightarrow> \<not> like (p @ ''%'') n) \<and>
        (if tables then (\<forall>t. like (p @ ''%'') t \<longrightarrow> t \<notin> set (cat_tables (rd_cat w')) \<and>
             (set (cat_tables (rd_cat w)) = dom (rd_db w) \<longrightarrow> rd_db w' t = None))
         else rd_db w' = rd_db w))"

lemma removeMarmotTriggers_run:
  "\<exists>r w'. removeMarmotTriggers fault p w = (r, w') \<and> returns r \<and> (no_faults fault \<longrightarrow> r = Ok ()) \<and>
     marmot_removed p False (r = Ok ()) w w' \<and> rd_db w' = rd_db w \<and> cat_tables (rd_cat w') = cat_tables (rd_cat w) \<and>
     set (cat_triggers (rd_cat w')) \<subseteq> set (cat_triggers (rd_cat w))"
proof (cases rule: raw_call_cases [of fault w])
  case 1
  let ?w = "w\<lparr>rd_tick := Suc (rd_tick w)\<rparr>" and ?ns = "filter (like (p @ ''%'')) (map fst (cat_triggers (rd_cat w)))"
  from drop_triggers_run [of fault ?ns ?w] obtain N r w' where d: "drop_each fault DropTrigger ?ns ?w = (r, w')" "returns r"
    "N \<subseteq> set ?ns" "without_triggers N ?w w'" "no_faults fault \<longrightarrow> r = Ok ()" "r = Ok () \<longrightarrow> N = set ?ns" by blast
  have eq: "rd_db w' = rd_db w" "cat_tables (rd_cat w') = cat_tables (rd_cat w)"
    and tr: "\<And>n t. (n, t) \<in> set (cat_triggers (rd_cat w')) \<longleftrightarrow> (n, t) \<in> set (cat_triggers (rd_cat w)) \<and> n \<notin> N"
    using d(4) by (auto simp: without_triggers_def)
  have l: "like (p @ ''%'') x" if "x \<in> N" for x using d(3) that by auto
  have c: "n \<in> N" if "r = Ok ()" "(n, t) \<in> set (cat_triggers (rd_cat w))" "like (p @ ''%'') n" for n t
    using d(6) that by force
  have sub: "set (cat_triggers (rd_cat w')) \<subseteq> set (cat_triggers (rd_cat w))" using tr by auto
  then have "marmot_removed p False (r = Ok ()) w w'"
    unfolding marmot_removed_def eq tr if_False using l c by blast
  moreover note sub
  ultimately show ?thesis using 1 d(1,2,5) eq by (simp add: removeMarmotTriggers_def bindR_def)
next
  case (2 e)
  then show ?thesis by (simp add: removeMarmotTriggers_def bindR_def marmot_removed_def)
qed

lemma removeMarmotTables_run:
  assumes "cat_tables (rd_cat w) = ts"
  shows "\<exists>r w' N. removeMarmotTables fault p w = (r, w') \<and> returns r \<and> (no_faults fault \<longrightarrow> r = Ok ()) \<and>
     without_tables N w w' \<and> (\<forall>x\<in>N. like (p @ ''%'') x) \<and> (r = Ok () \<longrightarrow> N = {t \<in> set ts. like (p @ ''%'') t})"
proof (cases rule: raw_call_cases [of fault w])
  case 1
  let ?w = "w\<lparr>rd_tick := Suc (rd_tick w)\<rparr>" and ?ns = "filter (like (p @ ''%'')) (cat_tables (rd_cat w))"
  from drop_tables_run [of fault ?ns ?w] obtain N r w' where d: "drop_each fault DropTable ?ns ?w = (r, w')" "returns r"
    "N \<subseteq> set ?ns" "without_tables N ?w w'" "no_faults fault \<longrightarrow> r = Ok ()" "r = Ok () \<longrightarrow> N = set ?ns" by blast
  have "without_tables N w w'" using d(4) by (auto simp: without_tables_def fun_eq_iff)
  moreover have "\<forall>x\<in>N. like (p @ ''%'') x" using d(3) by auto
  moreover have "r = Ok () \<longrightarrow> N = {t \<in> set ts. like (p @ ''%'') t}" using d(6) assms by auto
  moreover have "removeMarmotTables fault p w = (r, w')" using 1 d(1) by (simp add: removeMarmotTables_def bindR_def)
  ultimately show ?thesis using d(2,5) by blast
next
  case (2 e)
  then show ?thesis by (intro exI [of _ "Err e"] exI [of _ "w\<lparr>rd_tick := Suc (rd_tick w)\<rparr>"] exI [of _ "{}"])
      (simp add: removeMarmotTables_def bindR_def)
qed

lemma remove_marmot_run:
  "\<exists>r w'. bindR (removeMarmotTriggers fault p) (\<lambda>_. removeMarmotTables fault p) w = (r, w') \<and> returns r \<and>
     (no_faults fault \<longrightarrow> r = Ok ()) \<and> marmot_removed p True (r = Ok ()) w w'"
proof -
  from removeMarmotTriggers_run [of fault p w] obtain r1 w1 where a: "removeMarmotTriggers fault p w = (r1, w1)" "returns r1"
    "no_faults fault \<longrightarrow> r1 = Ok ()" "marmot_removed p False (r1 = Ok ()) w w1" "rd_db w1 = rd_db w"
    "cat_tables (rd_cat w1) = cat_tables (rd_cat w)" "set (cat_triggers (rd_cat w1)) \<subseteq> set (cat_triggers (rd_cat w))" by blast
  from a(2) show ?thesis
  proof (cases rule: returnsE)
    case (2 e)
    then have "bindR (removeMarmotTriggers fault p) (\<lambda>_. removeMarmotTables fault p) w = (Err e, w1)"
      using a(1) by (simp add: bindR_def)
    with a(3,4) 2 show ?thesis by (simp add: marmot_removed_def)
  next
    case (1 u)
    from removeMarmotTables_run [OF a(6), of fault p] obtain r w' N where b: "removeMarmotTables fault p w1 = (r, w')"
      "returns r" "no_faults fault \<longrightarrow> r = Ok ()" "without_tables N w1 w'" "\<forall>x\<in>N. like (p @ ''%'') x"
      "r = Ok () \<longrightarrow> N = {t \<in> set (cat_tables (rd_cat w)). like (p @ ''%'') t}" by blast
    have db: "rd_db w' t = (if t \<in> N then None else rd_db w t)"
      and ts: "t \<in> set (cat_tables (rd_cat w')) \<longleftrightarrow> t \<in> set (cat_tables (rd_cat w)) \<and> t \<notin> N"
      and tr: "(n, t) \<in> set (cat_triggers (rd_cat w')) \<longleftrightarrow> (n, t) \<in> set (cat_triggers (rd_cat w1)) \<and> t \<notin> N" for n t
      using a(5,6) b(4) by (auto simp: without_tables_def)
    have a': "\<not> like (p @ ''%'') n \<Longrightarrow> \<not> like (p @ ''%'') t \<Longrightarrow>
        ((n, t) \<in> set (cat_triggers (rd_cat w1)) \<longleftrightarrow> (n, t) \<in> set (cat_triggers (rd_cat w)))"
      "(n, t) \<in> set (cat_triggers (rd_cat w1)) \<Longrightarrow> \<not> like (p @ ''%'') n" for n t
      using a(4) 1 unfolding marmot_removed_def by auto
    have n: "t \<notin> N" if "\<not> like (p @ ''%'') t" for t using b(5) that by blast
    have sub: "set (cat_triggers (rd_cat w')) \<subseteq> set (cat_triggers (rd_cat w))"
    proof (rule subrelI)
      fix m t assume "(m, t) \<in> set (cat_triggers (rd_cat w'))"
      then show "(m, t) \<in> set (cat_triggers (rd_cat w))" using tr a(7) by blast
    qed
    have gone: "t \<notin> set (cat_tables (rd_cat w'))" "set (cat_tables (rd_cat w)) = dom (rd_db w) \<longrightarrow> rd_db w' t = None"
      if "r = Ok ()" "like (p @ ''%'') t" for t
      using b(6) ts db that by (simp_all add: domIff)
    have "marmot_removed p True (r = Ok ()) w w'"
      unfolding marmot_removed_def if_True
      by (intro conjI allI impI) (simp add: db n, simp add: ts n, simp add: tr n a'(1), rule sub, use tr a'(2) in blast, simp_all add: gone)
    moreover have "bindR (removeMarmotTriggers fault p) (\<lambda>_. removeMarmotTables fault p) w = (r, w')"
      using 1 a(1) b(1) by (simp add: bindR_def)
    ultimately show ?thesis using b(2,3) by blast
  qed
qed

section \<open>Lemmas on column information\<close>

definition column_of :: "pragma_row \<Rightarrow> ColumnInfo" where
  "column_of = (\<lambda>(n, ty, nn, dv, pk). \<lparr>ci_Name = n, ci_Type = ty, ci_NotNull = nn, ci_DefaultValue = dv,
     ci_PrimaryKeyIndex = pk, ci_IsPrimaryKey = pk > 0\<rparr>)"

text \<open>The columns of a table as the node takes them: the declared ones, and \<open>rowid\<close> when none is a key.\<close>

definition columns_of :: "pragma_row list \<Rightarrow> ColumnInfo list" where
  "columns_of rows = (let cs = map column_of rows in if list_ex ci_IsPrimaryKey cs then cs else cs @ [rowid_column])"

lemma scan_info_run:
  "\<exists>n k. scan_info fault rows acc b w =
     ((acc @ map column_of (take n rows), b \<or> list_ex ci_IsPrimaryKey (map column_of (take n rows))), w\<lparr>rd_tick := k\<rparr>) \<and>
     (no_faults fault \<longrightarrow> n = length rows)"
proof (induction rows arbitrary: acc b w)
  case Nil
  show ?case by (rule raw_call_cases [of fault w]) auto
next
  case (Cons row rows)
  obtain n ty nn dv pk where row: "row = (n, ty, nn, dv, pk)" by (cases row)
  show ?case
  proof (cases rule: raw_call_cases [of fault w])
    case 1
    from Cons.IH [of "acc @ [column_of row]" "b \<or> pk > 0" "w\<lparr>rd_tick := Suc (rd_tick w)\<rparr>"] obtain m k where
      "scan_info fault rows (acc @ [column_of row]) (b \<or> pk > 0) (w\<lparr>rd_tick := Suc (rd_tick w)\<rparr>) =
        ((acc @ [column_of row] @ map column_of (take m rows), b \<or> pk > 0 \<or> list_ex ci_IsPrimaryKey (map column_of (take m rows))),
         w\<lparr>rd_tick := k\<rparr>)" "no_faults fault \<longrightarrow> m = length rows" by auto
    with 1 row show ?thesis by (intro exI [of _ "Suc m"] exI [of _ k]) (simp add: column_of_def)
  next
    case (2 e)
    with row show ?thesis by (intro exI [of _ 0] exI [of _ "Suc (rd_tick w)"]) simp
  qed
qed

lemma getTableInfo_run:
  "\<exists>r k n. getTableInfo fault t w = (r, w\<lparr>rd_tick := k\<rparr>) \<and> returns r \<and>
     (\<forall>cs. r = Ok cs \<longrightarrow> cs = columns_of (take n (cat_info (rd_cat w) t))) \<and>
     (no_faults fault \<longrightarrow> r = Ok (columns_of (cat_info (rd_cat w) t)))"
proof (cases "\<exists>e. fst (bindR (raw_call fault) (\<lambda>_. raw_call fault) w) = Err e")
  case True
  then obtain e where e: "fst (bindR (raw_call fault) (\<lambda>_. raw_call fault) w) = Err e" by blast
  have "\<exists>k. getTableInfo fault t w = (Err e, w\<lparr>rd_tick := k\<rparr>) \<and> \<not> no_faults fault"
    using e by (auto simp: getTableInfo_def bindR_def raw_call_def no_faults_def split: option.splits)
  then show ?thesis by auto
next
  case False
  from scan_info_run [of fault "cat_info (rd_cat w) t" "[]" False "w\<lparr>rd_tick := Suc (Suc (rd_tick w))\<rparr>"] obtain n k where
    s: "scan_info fault (cat_info (rd_cat w) t) [] False (w\<lparr>rd_tick := Suc (Suc (rd_tick w))\<rparr>) =
      ((map column_of (take n (cat_info (rd_cat w) t)), list_ex ci_IsPrimaryKey (map column_of (take n (cat_info (rd_cat w) t)))),
       w\<lparr>rd_tick := k\<rparr>)" "no_faults fault \<longrightarrow> n = length (cat_info (rd_cat w) t)" by auto
  from False have "getTableInfo fault t w = (Ok (columns_of (take n (cat_info (rd_cat w) t))), w\<lparr>rd_tick := k\<rparr>)"
    using s(1) by (auto simp: getTableInfo_def bindR_def raw_call_def columns_of_def Let_def split: option.splits)
  with s(2) show ?thesis by auto
qed

lemma columns_of_key: "\<exists>c\<in>set (columns_of rows). ci_IsPrimaryKey c"
  by (auto simp: columns_of_def Let_def list_ex_iff rowid_column_def)

lemma performCheckpoint_busy:
  "performCheckpoint (map (\<lambda>b. Ok (b, x, y)) bs @ rows) = performCheckpoint rows" if "0 \<notin> set bs"
  using that by (induction bs) auto

section \<open>Lemmas on scripts\<close>

text \<open>
  \<open>L\<close> gives the columns of the tables a script may create, \<open>M\<close> the triggers it may replace: everything
  else, and every table that is there, stays as it is.
\<close>

definition grown :: "(string \<rightharpoonup> string list) \<Rightarrow> string set \<Rightarrow> rawdb \<Rightarrow> rawdb \<Rightarrow> bool" where
  "grown L M w w' \<longleftrightarrow>
     (\<forall>t. rd_db w' t = rd_db w t \<or> (rd_db w t = None \<and> (\<exists>cols. L t = Some cols \<and> rd_db w' t = Some (empty_table cols)))) \<and>
     (set (cat_tables (rd_cat w)) = dom (rd_db w) \<longrightarrow> set (cat_tables (rd_cat w')) = dom (rd_db w')) \<and>
     set (cat_tables (rd_cat w)) \<subseteq> set (cat_tables (rd_cat w')) \<and>
     (\<forall>n t. n \<notin> M \<longrightarrow> ((n, t) \<in> set (cat_triggers (rd_cat w')) \<longleftrightarrow> (n, t) \<in> set (cat_triggers (rd_cat w)))) \<and>
     cat_info (rd_cat w') = cat_info (rd_cat w)"

fun within :: "(string \<rightharpoonup> string list) \<Rightarrow> string set \<Rightarrow> ddl \<Rightarrow> bool" where
  "within L M (CreateTable t cols) \<longleftrightarrow> L t = Some cols"
| "within L M (CreateIndex i t) \<longleftrightarrow> True"
| "within L M (CreateTrigger n t) \<longleftrightarrow> n \<in> M"
| "within L M (DropTrigger n) \<longleftrightarrow> n \<in> M"
| "within L M (DropTable t) \<longleftrightarrow> False"

fun run_ddl :: "ddl list \<Rightarrow> rawdb \<Rightarrow> rawdb option" where
  "run_ddl [] w = Some w"
| "run_ddl (st # sts) w = Option.bind (ddl_sem st w) (run_ddl sts)"

lemma grown_refl [simp]: "grown L M w w" "grown L M w (w\<lparr>rd_tick := k\<rparr>)"
  by (simp_all add: grown_def)

lemma grown_tick [simp]: "grown L M (w\<lparr>rd_tick := k\<rparr>) w' = grown L M w w'"
  by (simp add: grown_def)

lemma grown_trans: "grown L M w w1 \<Longrightarrow> grown L M w1 w2 \<Longrightarrow> grown L M w w2"
  unfolding grown_def by (intro conjI allI) (metis, blast, blast, metis, metis)

lemma grown_table: "grown L M w w' \<Longrightarrow> rd_db w t = Some tb \<Longrightarrow> rd_db w' t = Some tb"
  unfolding grown_def by (metis option.distinct(1))

lemma grown_mono: "grown L M w w' \<Longrightarrow> M \<subseteq> M' \<Longrightarrow> grown L M' w w'"
  unfolding grown_def by blast

lemma grown_ddl: "within L M st \<Longrightarrow> set (cat_tables (rd_cat w)) = dom (rd_db w) \<Longrightarrow> ddl_sem st w = Some w' \<Longrightarrow> grown L M w w'"
  by (cases st) (auto simp: grown_def split: if_splits)

lemma ddl_sem_tick: "ddl_sem st (w\<lparr>rd_tick := k\<rparr>) = map_option (\<lambda>v. v\<lparr>rd_tick := k\<rparr>) (ddl_sem st w)"
  by (cases st) auto

lemma run_ddl_append: "run_ddl xs w = Some w' \<Longrightarrow> run_ddl (xs @ ys) w = run_ddl ys w'"
  by (induction xs arbitrary: w) (auto simp: bind_eq_Some_conv)

lemma run_ddl_tick: "run_ddl sts (w\<lparr>rd_tick := k\<rparr>) = map_option (\<lambda>v. v\<lparr>rd_tick := k\<rparr>) (run_ddl sts w)"
  by (induction sts arbitrary: w) (auto simp: ddl_sem_tick bind_eq_Some_conv map_option_case split: option.splits)

lemma raw_exec_outcome:
  obtains w1 where "ddl_sem st (w\<lparr>rd_tick := Suc (rd_tick w)\<rparr>) = Some w1" "raw_exec fault st w = (Ok (), w1)"
  | e where "raw_exec fault st w = (Err e, w\<lparr>rd_tick := Suc (rd_tick w)\<rparr>)" "\<not> no_faults fault \<or> ddl_sem st w = None"
proof (cases "ddl_sem st (w\<lparr>rd_tick := Suc (rd_tick w)\<rparr>)")
  case None
  then show ?thesis using that(2)
    by (cases rule: raw_call_cases [of fault w]) (auto simp: raw_exec_def bindR_def ddl_sem_tick)
next
  case (Some w1)
  from raw_exec_cases [OF Some, of fault] show ?thesis using that(1) [OF Some] that(2) by metis
qed

text \<open>A script that returns without an error has run in full; it can only fail by a fault or a missing table.\<close>

lemma exec_script_run:
  assumes "\<forall>st\<in>set sts. within L M st" and "set (cat_tables (rd_cat w)) = dom (rd_db w)"
  shows "\<exists>r w'. exec_script fault sts w = (r, w') \<and> returns r \<and> grown L M w w' \<and>
     (r = Ok () \<longrightarrow> (\<exists>k. run_ddl sts (w\<lparr>rd_tick := k\<rparr>) = Some w')) \<and>
     (no_faults fault \<and> run_ddl sts w \<noteq> None \<longrightarrow> r = Ok ())"
  using assms
proof (induction sts arbitrary: w)
  case Nil
  show ?case by (auto simp: ret_def intro!: exI [of _ "rd_tick w"])
next
  case (Cons st sts)
  show ?case
  proof (cases rule: raw_exec_outcome [of st w fault])
    case (1 w1)
    then have g: "grown L M w w1" using grown_ddl [of L M st "w\<lparr>rd_tick := Suc (rd_tick w)\<rparr>" w1] Cons.prems by simp
    then have "set (cat_tables (rd_cat w1)) = dom (rd_db w1)" using Cons.prems(2) unfolding grown_def by blast
    with Cons.IH [of w1] Cons.prems(1) obtain r w' k where c: "exec_script fault sts w1 = (r, w')" "returns r" "grown L M w1 w'"
      "r = Ok () \<longrightarrow> run_ddl sts (w1\<lparr>rd_tick := k\<rparr>) = Some w'" "no_faults fault \<and> run_ddl sts w1 \<noteq> None \<longrightarrow> r = Ok ()"
      by auto
    have "run_ddl (st # sts) (w\<lparr>rd_tick := k\<rparr>) = run_ddl sts (w1\<lparr>rd_tick := k\<rparr>)"
      "run_ddl (st # sts) w = None \<longleftrightarrow> run_ddl sts w1 = None"
      using 1(1) run_ddl_tick [of sts "Suc (rd_tick w)"] by (auto simp: ddl_sem_tick)
    with 1 c grown_trans [OF g c(3)] show ?thesis by (auto simp: bindR_def intro!: exI [of _ k])
  next
    case (2 e)
    then show ?thesis by (auto simp: bindR_def)
  qed
qed

lemma trigger_for_inject:
  "ev \<in> set trigger_events \<Longrightarrow> ev' \<in> set trigger_events \<Longrightarrow> trigger_for p t ev = trigger_for p t' ev' \<longleftrightarrow> t = t' \<and> ev = ev'"
  by (auto simp: trigger_for_def trigger_events_def metaTable_def)

definition triggers_of :: "string \<Rightarrow> string \<Rightarrow> string set" where
  "triggers_of p t = trigger_for p t ` set trigger_events"

lemma triggers_of_disjoint: "t \<noteq> t' \<Longrightarrow> n \<in> triggers_of p t \<Longrightarrow> n \<notin> triggers_of p t'"
  by (auto simp: triggers_of_def trigger_for_inject)

text \<open>The script of one table.\<close>

lemma retrigger_run:
  assumes "t \<in> set (cat_tables (rd_cat w))"
  shows "\<exists>w'. run_ddl (concat (map (\<lambda>e. [DropTrigger (f e), CreateTrigger (f e) t]) es)) w = Some w' \<and>
     cat_tables (rd_cat w') = cat_tables (rd_cat w) \<and>
     (\<forall>n u. (n, u) \<in> set (cat_triggers (rd_cat w')) \<longleftrightarrow>
        (if n \<in> f ` set es then u = t else (n, u) \<in> set (cat_triggers (rd_cat w))))"
  using assms
proof (induction es arbitrary: w)
  case (Cons e es)
  let ?w = "w\<lparr>rd_cat := (rd_cat w)\<lparr>cat_triggers := filter (\<lambda>(m, _). m \<noteq> f e) (cat_triggers (rd_cat w)) @ [(f e, t)]\<rparr>\<rparr>"
  from Cons.IH [of ?w] Cons.prems obtain w' where
    "run_ddl (concat (map (\<lambda>e. [DropTrigger (f e), CreateTrigger (f e) t]) es)) ?w = Some w'"
    "cat_tables (rd_cat w') = cat_tables (rd_cat w)"
    "\<And>n u. (n, u) \<in> set (cat_triggers (rd_cat w')) \<longleftrightarrow>
        (if n \<in> f ` set es then u = t else (n, u) \<in> set (cat_triggers (rd_cat ?w)))" by auto
  moreover have "f e \<notin> fst ` set (filter (\<lambda>(m, _). m \<noteq> f e) (cat_triggers (rd_cat w)))" by auto
  ultimately show ?case using Cons.prems by (intro exI [of _ w']) auto
qed auto

lemma table_script_run:
  assumes "map_of sch t = Some info" and "tableCDCScriptFor p sch t = Ok script" and "t \<in> set (cat_tables (rd_cat w))"
  shows "\<exists>w'. run_ddl script w = Some w' \<and> metaTable p t changeLogName \<in> set (cat_tables (rd_cat w')) \<and>
     (\<forall>n u. n \<in> triggers_of p t \<longrightarrow> ((n, u) \<in> set (cat_triggers (rd_cat w')) \<longleftrightarrow> u = t))"
proof -
  let ?log = "metaTable p t changeLogName"
  have "\<exists>w1. run_ddl [CreateTable ?log (log_cols info), CreateIndex (?log @ ''_state_index'') ?log] w = Some w1 \<and>
      {?log, t} \<subseteq> set (cat_tables (rd_cat w1))"
    using assms(3) by auto
  then obtain w1 where w1: "run_ddl [CreateTable ?log (log_cols info), CreateIndex (?log @ ''_state_index'') ?log] w = Some w1"
    "?log \<in> set (cat_tables (rd_cat w1))" "t \<in> set (cat_tables (rd_cat w1))" by blast
  from retrigger_run [OF w1(3), of "trigger_for p t" trigger_events] w1(2) run_ddl_append [OF w1(1)] assms(1,2)
  show ?thesis by (auto simp: tableCDCScriptFor_def triggers_of_def)
qed

lemma table_script_within:
  assumes "map_of sch t = Some info" and "tableCDCScriptFor p sch t = Ok script"
    and "L (metaTable p t changeLogName) = Some (log_cols info)"
  shows "\<forall>st\<in>set script. within L (triggers_of p t) st"
  using assms by (auto simp: tableCDCScriptFor_def triggers_of_def)

end
