(* ===== verification/Install.thy ===== *)
theory Install
  imports Catalog Publish
begin

text \<open>
  Setting up change capture: \<open>OpenStreamDB\<close>, \<open>InstallCDC\<close>, \<open>RemoveCDC\<close> and \<open>GetAllDBTables\<close> of
  \<open>db/sqlite.go\<close>, with \<open>initGlobalChangeLog\<close> and \<open>initTriggers\<close> of \<open>db/change_log.go\<close>. They need the
  schema beside the contents of the database, so their state is a \<open>StreamDB\<close> together with the
  \<open>catalog\<close>; every call to the driver may fail.
\<close>

section \<open>State\<close>

record 'x AdminDB =
  ad_sd :: "'x StreamDB"
  ad_cat :: catalog

definition on_sd :: "('x StreamDB, 'a) prog \<Rightarrow> ('x AdminDB, 'a) prog" where
  "on_sd f a = (case f (ad_sd a) of (r, w) \<Rightarrow> (r, a\<lparr>ad_sd := w\<rparr>))"

text \<open>Work on the database over one connection.\<close>

definition raw_of :: "'x AdminDB \<Rightarrow> rawdb" where
  "raw_of a = \<lparr>rd_tick = sd_tick (ad_sd a), rd_db = sd_db (ad_sd a), rd_cat = ad_cat a\<rparr>"

definition put_raw :: "'x AdminDB \<Rightarrow> rawdb \<Rightarrow> 'x AdminDB" where
  "put_raw a w = a\<lparr>ad_sd := (ad_sd a)\<lparr>sd_tick := rd_tick w, sd_db := rd_db w\<rparr>, ad_cat := rd_cat w\<rparr>"

definition on_raw :: "db_env \<Rightarrow> (faults \<Rightarrow> (rawdb, 'a) prog) \<Rightarrow> ('x AdminDB, 'a) prog" where
  "on_raw env f a = (case f (e_fault env) (raw_of a) of (r, w) \<Rightarrow> (r, put_raw a w))"

definition adm_conn :: "db_env \<Rightarrow> ('x AdminDB, 'a) prog \<Rightarrow> ('x AdminDB, 'a) prog" where
  "adm_conn env body = with_conn (on_sd (db_borrow env)) (\<lambda>c. on_sd (db_giveback c)) (\<lambda>_. body)"

text \<open>\<open>WithTx\<close>: what a transaction that fails did to the database and its schema is undone, nothing else.\<close>

definition tx_on :: "('s, unit) prog \<Rightarrow> ('s \<Rightarrow> 's \<Rightarrow> 's) \<Rightarrow> ('s, 'a) prog \<Rightarrow> ('s, 'a) prog" where
  "tx_on call undo body = bindR call (\<lambda>_ s.
     case body s of
       (Ok a, s1) \<Rightarrow>
         (case call s1 of
            (Ok _, s2) \<Rightarrow> (Ok a, s2)
          | (Err e, s2) \<Rightarrow> (Err e, undo s s2)
          | (Panic p, s2) \<Rightarrow> (Panic p, undo s s2)
          | (Block, s2) \<Rightarrow> (Block, s2))
     | (Err e, s1) \<Rightarrow> (Err e, undo s s1)
     | (Panic p, s1) \<Rightarrow> (Panic p, undo s s1)
     | (Block, s1) \<Rightarrow> (Block, s1))"

definition adm_tx :: "db_env \<Rightarrow> ('x AdminDB, 'a) prog \<Rightarrow> ('x AdminDB, 'a) prog" where
  "adm_tx env = tx_on (on_raw env raw_call)
     (\<lambda>a a'. a'\<lparr>ad_sd := (ad_sd a')\<lparr>sd_db := sd_db (ad_sd a)\<rparr>, ad_cat := ad_cat a\<rparr>)"

definition raw_tx :: "faults \<Rightarrow> (rawdb, 'a) prog \<Rightarrow> (rawdb, 'a) prog" where
  "raw_tx fault = tx_on (raw_call fault) (\<lambda>w w'. w'\<lparr>rd_db := rd_db w, rd_cat := rd_cat w\<rparr>)"

section \<open>Opening\<close>

definition PoolSize :: nat where
  "PoolSize = 4"

definition OpenStreamDB ::
  "db_env \<Rightarrow> nat \<Rightarrow> string \<Rightarrow> (int \<times> int \<times> int) res list \<Rightarrow> sqldb \<Rightarrow> nat \<Rightarrow> 'x \<Rightarrow> 'x StreamDB res" where
  "OpenStreamDB env self path checkpoints d tick x =
     (case NewSQLitePool (e_driver env) self (path @ ''?_journal_mode=WAL'') PoolSize True of
        (Ok _, dbPool) \<Rightarrow>
          (case borrow_conn env (lift_res (performCheckpoint checkpoints))
             \<lparr>sd_prefix = MarmotPrefix, sd_schema = [], sd_publishLock = False, sd_pool = dbPool, sd_db = d,
              sd_tick = tick, sd_published = 0, sd_pendingPublish = 0, sd_ext = x\<rparr> of
             (Ok _, w) \<Rightarrow> Ok w
           | (Err e, _) \<Rightarrow> Err e
           | (Panic p, _) \<Rightarrow> Panic p
           | (Block, _) \<Rightarrow> Block)
      | (Err e, _) \<Rightarrow> Err e
      | (Panic p, _) \<Rightarrow> Panic p
      | (Block, _) \<Rightarrow> Block)"

text \<open>\<open>GetAllDBTables\<close> opens a connection of its own.\<close>

definition GetAllDBTables :: "driver_env \<Rightarrow> nat \<Rightarrow> faults \<Rightarrow> (rawdb, string list) prog" where
  "GetAllDBTables env n fault =
     bindR (lift_res (OpenRaw env n)) (\<lambda>_. raw_tx fault (listDBTables fault))"

section \<open>Installing and removing\<close>

definition watch :: "string \<Rightarrow> ColumnInfo list \<Rightarrow> ('x AdminDB, unit) prog" where
  "watch n colInfo a =
     (Ok (), a\<lparr>ad_sd := (ad_sd a)\<lparr>sd_schema := AList.update n colInfo (sd_schema (ad_sd a))\<rparr>\<rparr>)"

fun watch_tables :: "db_env \<Rightarrow> string list \<Rightarrow> ('x AdminDB, unit) prog" where
  "watch_tables env [] = ret ()"
| "watch_tables env (n # ns) =
     bindR (on_raw env (\<lambda>fault. getTableInfo fault n)) (\<lambda>colInfo.
     bindR (watch n colInfo) (\<lambda>_. watch_tables env ns))"

definition initGlobalChangeLog :: "db_env \<Rightarrow> ('x AdminDB, unit) prog" where
  "initGlobalChangeLog env = adm_conn env (\<lambda>a.
     on_raw env (\<lambda>fault. exec_script fault (globalCDCScript (sd_prefix (ad_sd a)))) a)"

definition initTriggers :: "db_env \<Rightarrow> string \<Rightarrow> ('x AdminDB, unit) prog" where
  "initTriggers env tableName = adm_conn env (\<lambda>a.
     let name = trim_space tableName in
     if has_prefix name ''sqlite_'' \<or> has_prefix name (sd_prefix (ad_sd a))
     then (Err (Errorf (''invalid table to watch '' @ tableName)), a)
     else
       bindR (lift_res (tableCDCScriptFor (sd_prefix (ad_sd a)) (sd_schema (ad_sd a)) name))
         (\<lambda>script. on_raw env (\<lambda>fault. exec_script fault script)) a)"

fun init_each :: "db_env \<Rightarrow> string list \<Rightarrow> ('x AdminDB, unit) prog" where
  "init_each env [] = ret ()"
| "init_each env (t # ts) = bindR (initTriggers env t) (\<lambda>_. init_each env ts)"

definition installChangeLogTriggers :: "db_env \<Rightarrow> ('x AdminDB, unit) prog" where
  "installChangeLogTriggers env =
     bindR (initGlobalChangeLog env) (\<lambda>_ a. init_each env (map fst (sd_schema (ad_sd a))) a)"

text \<open>
  \<open>InstallCDC\<close> keeps its connection while the two scripts borrow one more. \<open>watcher\<close> is what
  \<open>fsnotify.NewWatcher\<close> returns; the goroutine it starts is \<open>watchChanges\<close>.
\<close>

definition InstallCDC :: "db_env \<Rightarrow> unit res \<Rightarrow> string list \<Rightarrow> ('x AdminDB, unit) prog" where
  "InstallCDC env watcher tables = adm_conn env
     (bindR (adm_tx env (watch_tables env tables)) (\<lambda>_.
      bindR (installChangeLogTriggers env) (\<lambda>_.
      bindR (lift_res watcher) (\<lambda>_. ret ()))))"

definition RemoveCDC :: "db_env \<Rightarrow> bool \<Rightarrow> ('x AdminDB, unit) prog" where
  "RemoveCDC env tables = adm_conn env (\<lambda>a.
     bindR (on_raw env (\<lambda>fault. removeMarmotTriggers fault (sd_prefix (ad_sd a)))) (\<lambda>_.
       if tables then on_raw env (\<lambda>fault. removeMarmotTables fault (sd_prefix (ad_sd a))) else ret ()) a)"

section \<open>Rules for methods of the stream database\<close>

text \<open>
  \<open>runs env B f a P\<close>: with the connections \<open>B\<close> lent out, \<open>f\<close> returns, gives back what it borrowed, and its
  outcome, the database, the catalogue and the watched schema it leaves satisfy \<open>P\<close>.
\<close>

type_synonym schema_list = "(string \<times> ColumnInfo list) list"

definition same_adm :: "nat set \<Rightarrow> 'x AdminDB \<Rightarrow> 'x AdminDB \<Rightarrow> bool" where
  "same_adm B a a' \<longleftrightarrow>
     pool_inv (sd_pool (ad_sd a')) B \<and> p_cap (sd_pool (ad_sd a')) = p_cap (sd_pool (ad_sd a)) \<and>
     sd_prefix (ad_sd a') = sd_prefix (ad_sd a) \<and> sd_publishLock (ad_sd a') = sd_publishLock (ad_sd a) \<and>
     sd_ext (ad_sd a') = sd_ext (ad_sd a)"

definition runs ::
  "nat set \<Rightarrow> ('x AdminDB, 'a) prog \<Rightarrow> 'x AdminDB \<Rightarrow> ('a res \<Rightarrow> sqldb \<Rightarrow> catalog \<Rightarrow> schema_list \<Rightarrow> bool) \<Rightarrow> bool" where
  "runs B f a P \<longleftrightarrow>
     (\<exists>r a'. f a = (r, a') \<and> returns r \<and> same_adm B a a' \<and> P r (sd_db (ad_sd a')) (ad_cat a') (sd_schema (ad_sd a')))"

lemma runsI: "f a = (r, a') \<Longrightarrow> returns r \<Longrightarrow> same_adm B a a' \<Longrightarrow>
    P r (sd_db (ad_sd a')) (ad_cat a') (sd_schema (ad_sd a')) \<Longrightarrow> runs B f a P"
  by (auto simp: runs_def)

lemma runsE:
  assumes "runs B f a P"
  obtains r a' where "f a = (r, a')" "returns r" "same_adm B a a'" "P r (sd_db (ad_sd a')) (ad_cat a') (sd_schema (ad_sd a'))"
  using assms by (auto simp: runs_def)

lemma runs_weaken: "runs B f a P \<Longrightarrow> (\<And>r d c s. P r d c s \<Longrightarrow> Q r d c s) \<Longrightarrow> runs B f a Q"
  by (auto simp: runs_def)

lemma same_adm_trans: "same_adm B a a1 \<Longrightarrow> same_adm B a1 a2 \<Longrightarrow> same_adm B a a2"
  by (simp add: same_adm_def)

lemma runs_bind:
  assumes f: "runs B f a P"
    and k: "\<And>x a1. P (Ok x) (sd_db (ad_sd a1)) (ad_cat a1) (sd_schema (ad_sd a1)) \<Longrightarrow> same_adm B a a1 \<Longrightarrow> runs B (k x) a1 Q"
    and err: "\<And>e d c s. P (Err e) d c s \<Longrightarrow> Q (Err e) d c s"
  shows "runs B (bindR f k) a Q"
  using f
proof (rule runsE)
  fix r a1 assume r: "f a = (r, a1)" "returns r" "same_adm B a a1" "P r (sd_db (ad_sd a1)) (ad_cat a1) (sd_schema (ad_sd a1))"
  from r(2) show ?thesis
  proof (cases rule: returnsE)
    case (1 x)
    with k r obtain r2 a2 where "k x a1 = (r2, a2)" "returns r2" "same_adm B a1 a2" "Q r2 (sd_db (ad_sd a2)) (ad_cat a2) (sd_schema (ad_sd a2))"
      by (blast elim: runsE)
    with r 1 same_adm_trans [OF r(3)] show ?thesis by (auto simp: runs_def bindR_def)
  next
    case (2 e)
    with r err show ?thesis by (auto simp: runs_def bindR_def)
  qed
qed

lemma runs_ret: "pool_inv (sd_pool (ad_sd a)) B \<Longrightarrow> P (Ok x) (sd_db (ad_sd a)) (ad_cat a) (sd_schema (ad_sd a)) \<Longrightarrow> runs B (ret x) a P"
  by (simp add: runs_def ret_def same_adm_def)

lemma runs_lift: "pool_inv (sd_pool (ad_sd a)) B \<Longrightarrow> returns r \<Longrightarrow> P r (sd_db (ad_sd a)) (ad_cat a) (sd_schema (ad_sd a)) \<Longrightarrow> runs B (lift_res r) a P"
  by (simp add: runs_def lift_res_def same_adm_def)

lemma runs_raw:
  assumes "f (e_fault env) (raw_of a) = (r, w)" and "returns r" and "pool_inv (sd_pool (ad_sd a)) B"
    and "P r (rd_db w) (rd_cat w) (sd_schema (ad_sd a))"
  shows "runs B (on_raw env f) a P"
  using assms by (intro runsI [of _ _ r "put_raw a w"]) (simp_all add: on_raw_def put_raw_def same_adm_def)

text \<open>Borrowing: the body runs with one more connection out, or opening it failed and nothing happened.\<close>

lemma runs_conn:
  assumes rdy: "db_ready env (ad_sd a) B"
    and body: "\<And>c p. c \<notin> B \<Longrightarrow> pool_inv p (insert c B) \<Longrightarrow> p_cap p = p_cap (sd_pool (ad_sd a)) \<Longrightarrow>
        runs (insert c B) body (a\<lparr>ad_sd := (ad_sd a)\<lparr>sd_pool := p\<rparr>\<rparr>) P"
    and err: "\<And>e. \<not> healthy env \<Longrightarrow> P (Err e) (sd_db (ad_sd a)) (ad_cat a) (sd_schema (ad_sd a))"
  shows "runs B (adm_conn env body) a P"
proof -
  from rdy have inv: "pool_inv (sd_pool (ad_sd a)) B" and room: "card B < p_cap (sd_pool (ad_sd a))" and dr: "driver_returns (e_driver env)"
    by (simp_all add: db_ready_def)
  obtain r p where b: "Borrow (e_driver env) (sd_pool (ad_sd a)) = (r, p)" by (cases "Borrow (e_driver env) (sd_pool (ad_sd a))")
  let ?a = "a\<lparr>ad_sd := (ad_sd a)\<lparr>sd_pool := p\<rparr>\<rparr>"
  have "returns r" using Borrow_returns [OF dr inv room] b by simp
  then show ?thesis
  proof (cases rule: returnsE)
    case (1 c)
    with Borrow_inv [OF inv] b have c: "c \<notin> B" "pool_inv p (insert c B)" "p_cap p = p_cap (sd_pool (ad_sd a))" by auto
    from body [OF c] obtain r2 a2 where r2: "body ?a = (r2, a2)" "returns r2" "same_adm (insert c B) ?a a2"
      "P r2 (sd_db (ad_sd a2)) (ad_cat a2) (sd_schema (ad_sd a2))" by (rule runsE)
    then have p2: "pool_inv (sd_pool (ad_sd a2)) (insert c B)" by (simp add: same_adm_def)
    from Return_inv [OF p2, of c] obtain q where q: "Return c (sd_pool (ad_sd a2)) = (Ok (), q)" "pool_inv q (insert c B - {c})"
      "p_cap q = p_cap (sd_pool (ad_sd a2))" by blast
    have "pool_inv q B" using q(2) c(1) by (simp add: insert_Diff_if)
    moreover have "adm_conn env body a = (r2, a2\<lparr>ad_sd := (ad_sd a2)\<lparr>sd_pool := q\<rparr>\<rparr>)"
      using r2(2) by (cases r2) (simp_all add: adm_conn_def with_conn_def on_sd_def db_borrow_def b 1 r2(1) db_giveback_def q(1))
    ultimately show ?thesis using r2 q(3) c(3)
      by (intro runsI [of _ _ r2 "a2\<lparr>ad_sd := (ad_sd a2)\<lparr>sd_pool := q\<rparr>\<rparr>"]) (simp_all add: same_adm_def)
  next
    case (2 e)
    have "\<not> healthy env"
      using Borrow_healthy [of "e_driver env", OF _ inv room] b 2 by (auto simp: healthy_def)
    with err 2 Borrow_err_inv [OF inv] b show ?thesis
      by (intro runsI [of _ _ "Err e" ?a]) (auto simp: adm_conn_def with_conn_def on_sd_def db_borrow_def same_adm_def)
  qed
qed

text \<open>A transaction: the body's effect, or an error and the database and schema as they were.\<close>

lemma runs_tx:
  assumes inv: "pool_inv (sd_pool (ad_sd a)) B"
    and body: "\<And>k. runs B body (a\<lparr>ad_sd := (ad_sd a)\<lparr>sd_tick := k\<rparr>\<rparr>) P"
    and ok: "\<And>x d c s. P (Ok x) d c s \<Longrightarrow> Q (Ok x) d c s"
    and start: "\<And>e. \<not> healthy env \<Longrightarrow> Q (Err e) (sd_db (ad_sd a)) (ad_cat a) (sd_schema (ad_sd a))"
    and failed: "\<And>r e d c s. P r d c s \<Longrightarrow> r = Err e \<or> \<not> healthy env \<Longrightarrow> Q (Err e) (sd_db (ad_sd a)) (ad_cat a) s"
  shows "runs B (adm_tx env body) a Q"
proof (cases "e_fault env (sd_tick (ad_sd a))")
  case (Some e)
  then have "\<not> healthy env" by (auto simp: healthy_def)
  with Some start inv show ?thesis
    by (intro runsI [of _ _ "Err e" "put_raw a ((raw_of a)\<lparr>rd_tick := Suc (sd_tick (ad_sd a))\<rparr>)"])
      (simp_all add: adm_tx_def tx_on_def bindR_def on_raw_def raw_call_def raw_of_def put_raw_def same_adm_def)
next
  case no: None
  let ?a = "a\<lparr>ad_sd := (ad_sd a)\<lparr>sd_tick := Suc (sd_tick (ad_sd a))\<rparr>\<rparr>"
  have begun: "on_raw env raw_call a = (Ok (), ?a)"
    using no by (simp add: on_raw_def raw_call_def raw_of_def put_raw_def)
  from body [of "Suc (sd_tick (ad_sd a))"] obtain r a1 where r: "body ?a = (r, a1)" "returns r" "same_adm B ?a a1"
    "P r (sd_db (ad_sd a1)) (ad_cat a1) (sd_schema (ad_sd a1))" by (rule runsE)
  have keep: "same_adm B a (put_raw a1 w)" "same_adm B a (a1\<lparr>ad_sd := (ad_sd a1)\<lparr>sd_tick := k, sd_db := d\<rparr>, ad_cat := c\<rparr>)" for w k d c
    using r(3) by (simp_all add: same_adm_def put_raw_def)
  from r(2) show ?thesis
  proof (cases rule: returnsE)
    case (1 x)
    show ?thesis
    proof (cases "e_fault env (sd_tick (ad_sd a1))")
      case None
      with 1 r ok keep(1) [of "(raw_of a1)\<lparr>rd_tick := Suc (sd_tick (ad_sd a1))\<rparr>"] show ?thesis
        by (intro runsI [of _ _ "Ok x" "put_raw a1 ((raw_of a1)\<lparr>rd_tick := Suc (sd_tick (ad_sd a1))\<rparr>)"])
          (simp_all add: adm_tx_def tx_on_def bindR_def begun, simp_all add: on_raw_def raw_call_def raw_of_def put_raw_def)
    next
      case (Some e)
      then have "\<not> healthy env" by (auto simp: healthy_def)
      with 1 r failed [OF r(4)] Some keep(2) [where k = "Suc (sd_tick (ad_sd a1))" and d = "sd_db (ad_sd a)" and c = "ad_cat a"] show ?thesis
        by (intro runsI [of _ _ "Err e" "a1\<lparr>ad_sd := (ad_sd a1)\<lparr>sd_tick := Suc (sd_tick (ad_sd a1)), sd_db := sd_db (ad_sd a)\<rparr>, ad_cat := ad_cat a\<rparr>"])
          (simp_all add: adm_tx_def tx_on_def bindR_def begun, simp_all add: on_raw_def raw_call_def raw_of_def put_raw_def)
    qed
  next
    case (2 e)
    with r failed [OF r(4)] keep(2) [where k = "sd_tick (ad_sd a1)" and d = "sd_db (ad_sd a)" and c = "ad_cat a"] show ?thesis
      by (intro runsI [of _ _ "Err e" "a1\<lparr>ad_sd := (ad_sd a1)\<lparr>sd_db := sd_db (ad_sd a)\<rparr>, ad_cat := ad_cat a\<rparr>"])
        (simp_all add: adm_tx_def tx_on_def bindR_def begun)
  qed
qed

section \<open>Reading the schema of the watched tables\<close>

definition watch_all :: "catalog \<Rightarrow> string list \<Rightarrow> schema_list \<Rightarrow> schema_list" where
  "watch_all c ns s = fold (\<lambda>n. AList.update n (columns_of (cat_info c n))) ns s"

lemma watch_all_other: "t \<notin> set ns \<Longrightarrow> map_of (watch_all c ns s) t = map_of s t"
  by (induction ns arbitrary: s) (auto simp: watch_all_def update_conv')

lemma watch_all_map: "t \<in> set ns \<Longrightarrow> map_of (watch_all c ns s) t = Some (columns_of (cat_info c t))"
proof (induction ns arbitrary: s)
  case (Cons n ns)
  then show ?case
    using watch_all_other [of t ns c "AList.update n (columns_of (cat_info c n)) s"]
    by (cases "t \<in> set ns") (auto simp: watch_all_def update_conv')
qed simp

lemma healthy_no_faults: "healthy env \<Longrightarrow> no_faults (e_fault env)"
  by (simp add: healthy_def no_faults_def)

lemma watch_tables_runs:
  assumes "pool_inv (sd_pool (ad_sd a)) B"
  shows "runs B (watch_tables env ns) a (\<lambda>r d c s. d = sd_db (ad_sd a) \<and> c = ad_cat a \<and>
     fst ` set s \<subseteq> fst ` set (sd_schema (ad_sd a)) \<union> set ns \<and>
     (distinct (map fst (sd_schema (ad_sd a))) \<longrightarrow> distinct (map fst s)) \<and>
     (healthy env \<longrightarrow> r = Ok () \<and> s = watch_all (ad_cat a) ns (sd_schema (ad_sd a))))"
  using assms
proof (induction ns arbitrary: a)
  case Nil
  then show ?case by (auto simp: watch_all_def intro: runs_ret)
next
  case (Cons n ns)
  from getTableInfo_run [of "e_fault env" n "raw_of a"] obtain r k where g: "getTableInfo (e_fault env) n (raw_of a) = (r, (raw_of a)\<lparr>rd_tick := k\<rparr>)"
    "returns r" "no_faults (e_fault env) \<longrightarrow> r = Ok (columns_of (cat_info (ad_cat a) n))" by (auto simp: raw_of_def)
  let ?P = "\<lambda>r d c s. d = sd_db (ad_sd a) \<and> c = ad_cat a \<and> s = sd_schema (ad_sd a) \<and>
    (healthy env \<longrightarrow> r = Ok (columns_of (cat_info (ad_cat a) n)))"
  have "runs B (on_raw env (\<lambda>fault. getTableInfo fault n)) a ?P"
    by (rule runs_raw [where f = "\<lambda>fault. getTableInfo fault n", OF g(1,2) Cons.prems])
      (use g(3) healthy_no_faults in \<open>auto simp: raw_of_def\<close>)
  then show ?case unfolding watch_tables.simps
  proof (rule runs_bind)
    fix x and a1 :: "'a AdminDB"
    assume x: "?P (Ok x) (sd_db (ad_sd a1)) (ad_cat a1) (sd_schema (ad_sd a1))" and same: "same_adm B a a1"
    let ?a = "a1\<lparr>ad_sd := (ad_sd a1)\<lparr>sd_schema := AList.update n x (sd_schema (ad_sd a1))\<rparr>\<rparr>"
    have "runs B (watch n x) a1 (\<lambda>r d c s. r = Ok () \<and> d = sd_db (ad_sd a) \<and> c = ad_cat a \<and> s = AList.update n x (sd_schema (ad_sd a)))"
      using x same by (intro runsI [of _ _ "Ok ()" ?a]) (simp_all add: watch_def same_adm_def)
    then show "runs B (bindR (watch n x) (\<lambda>_. watch_tables env ns)) a1 (\<lambda>r d c s. d = sd_db (ad_sd a) \<and> c = ad_cat a \<and>
       fst ` set s \<subseteq> fst ` set (sd_schema (ad_sd a)) \<union> set (n # ns) \<and>
       (distinct (map fst (sd_schema (ad_sd a))) \<longrightarrow> distinct (map fst s)) \<and>
       (healthy env \<longrightarrow> r = Ok () \<and> s = watch_all (ad_cat a) (n # ns) (sd_schema (ad_sd a))))"
    proof (rule runs_bind)
      fix u :: unit and a2 :: "'a AdminDB"
      assume a2: "Ok u = Ok () \<and> sd_db (ad_sd a2) = sd_db (ad_sd a) \<and> ad_cat a2 = ad_cat a \<and> sd_schema (ad_sd a2) = AList.update n x (sd_schema (ad_sd a))"
        and "same_adm B a1 a2"
      with Cons.IH [of a2] have "runs B (watch_tables env ns) a2 (\<lambda>r d c s. d = sd_db (ad_sd a2) \<and> c = ad_cat a2 \<and>
         fst ` set s \<subseteq> fst ` set (sd_schema (ad_sd a2)) \<union> set ns \<and>
         (distinct (map fst (sd_schema (ad_sd a2))) \<longrightarrow> distinct (map fst s)) \<and>
         (healthy env \<longrightarrow> r = Ok () \<and> s = watch_all (ad_cat a2) ns (sd_schema (ad_sd a2))))" by (simp add: same_adm_def)
      then show "runs B (watch_tables env ns) a2 (\<lambda>r d c s. d = sd_db (ad_sd a) \<and> c = ad_cat a \<and>
         fst ` set s \<subseteq> fst ` set (sd_schema (ad_sd a)) \<union> set (n # ns) \<and>
         (distinct (map fst (sd_schema (ad_sd a))) \<longrightarrow> distinct (map fst s)) \<and>
         (healthy env \<longrightarrow> r = Ok () \<and> s = watch_all (ad_cat a) (n # ns) (sd_schema (ad_sd a))))"
        using x a2 by (elim runs_weaken) (auto simp: watch_all_def dom_update distinct_update)
    qed simp
  qed auto
qed

section \<open>Creating the change logs\<close>

text \<open>The tables an installation may create, with their columns.\<close>

definition log_map :: "string \<Rightarrow> schema_list \<Rightarrow> (string \<rightharpoonup> string list)" where
  "log_map p s = map_of ((globalMetaTable p, global_cols) # map (\<lambda>(t, info). (metaTable p t changeLogName, log_cols info)) s)"

lemma log_map_simps [simp]:
  "log_map p s (globalMetaTable p) = Some global_cols"
  "log_map p s (metaTable p t changeLogName) = map_option log_cols (map_of s t)"
  by (simp_all add: log_map_def) (induction s, auto)

definition db_cat :: "sqldb \<Rightarrow> catalog \<Rightarrow> rawdb" where
  "db_cat d c = \<lparr>rd_tick = 0, rd_db = d, rd_cat = c\<rparr>"

lemma db_cat_simps [simp]: "rd_db (db_cat d c) = d" "rd_cat (db_cat d c) = c"
  by (simp_all add: db_cat_def)

lemma grown_db_cat:
  "grown L M (raw_of a) w \<longleftrightarrow> grown L M (db_cat (sd_db (ad_sd a)) (ad_cat a)) (db_cat (rd_db w) (rd_cat w))"
  by (simp add: grown_def raw_of_def)

definition cat_ok :: "sqldb \<Rightarrow> catalog \<Rightarrow> bool" where
  "cat_ok d c \<longleftrightarrow> set (cat_tables c) = dom d"

lemma cat_ok_grown: "cat_ok d c \<Longrightarrow> grown L M (db_cat d c) (db_cat d' c') \<Longrightarrow> cat_ok d' c'"
  by (simp add: cat_ok_def grown_def)

text \<open>A name the node can watch, of a table that is there.\<close>

definition watchable :: "string \<Rightarrow> catalog \<Rightarrow> string \<Rightarrow> bool" where
  "watchable p c t \<longleftrightarrow> trim_space t = t \<and> \<not> has_prefix t ''sqlite_'' \<and> \<not> has_prefix t p \<and> t \<in> set (cat_tables c)"

lemma watchable_grown: "watchable p c t \<Longrightarrow> grown L M (db_cat d c) (db_cat d' c') \<Longrightarrow> watchable p c' t"
  by (auto simp: watchable_def grown_def)

definition logged :: "string \<Rightarrow> sqldb \<Rightarrow> catalog \<Rightarrow> string \<Rightarrow> bool" where
  "logged p d c t \<longleftrightarrow> d (metaTable p t changeLogName) \<noteq> None \<and>
     (\<forall>n u. n \<in> triggers_of p t \<longrightarrow> ((n, u) \<in> set (cat_triggers c) \<longleftrightarrow> u = t))"

lemma logged_grown:
  "logged p d c t \<Longrightarrow> grown L M (db_cat d c) (db_cat d' c') \<Longrightarrow> M \<inter> triggers_of p t = {} \<Longrightarrow> logged p d' c' t"
  unfolding logged_def grown_def db_cat_simps by (metis disjoint_iff option.distinct(1))

text \<open>What the scripts do to the database: \<open>ts\<close> are the tables they were run for.\<close>

definition set_up :: "db_env \<Rightarrow> string \<Rightarrow> schema_list \<Rightarrow> string list \<Rightarrow> sqldb \<Rightarrow> catalog \<Rightarrow> unit res \<Rightarrow> sqldb \<Rightarrow> catalog \<Rightarrow> schema_list \<Rightarrow> bool" where
  "set_up env p s ts d0 c0 r d c s' \<longleftrightarrow>
     s' = s \<and> grown (log_map p s) (\<Union>t\<in>set ts. triggers_of p t) (db_cat d0 c0) (db_cat d c) \<and>
     (r = Ok () \<longrightarrow> (\<forall>t\<in>set ts. logged p d c t)) \<and> (healthy env \<longrightarrow> r = Ok ())"

lemma initTriggers_runs:
  assumes rdy: "db_ready env (ad_sd a) B" and ok: "cat_ok (sd_db (ad_sd a)) (ad_cat a)"
    and p: "sd_prefix (ad_sd a) = p" and s: "sd_schema (ad_sd a) = s"
    and t: "watchable p (ad_cat a) t" "map_of s t = Some info"
  shows "runs B (initTriggers env t) a (set_up env p s [t] (sd_db (ad_sd a)) (ad_cat a))"
  unfolding initTriggers_def
proof (rule runs_conn [OF rdy])
  fix e assume "\<not> healthy env"
  then show "set_up env p s [t] (sd_db (ad_sd a)) (ad_cat a) (Err e) (sd_db (ad_sd a)) (ad_cat a) (sd_schema (ad_sd a))"
    by (simp add: set_up_def s)
next
  fix c and q :: SQLitePool
  define a1 where "a1 = a\<lparr>ad_sd := (ad_sd a)\<lparr>sd_pool := q\<rparr>\<rparr>"
  assume "pool_inv q (insert c B)"
  then have inv: "pool_inv (sd_pool (ad_sd a1)) (insert c B)" by (simp add: a1_def)
  have a1: "sd_db (ad_sd a1) = sd_db (ad_sd a)" "ad_cat a1 = ad_cat a" "sd_prefix (ad_sd a1) = p" "sd_schema (ad_sd a1) = s"
    using p s by (simp_all add: a1_def)
  obtain script where sc: "tableCDCScriptFor p s t = Ok script" using t(2) by (simp add: tableCDCScriptFor_def)
  let ?L = "log_map p s" and ?M = "triggers_of p t"
  have "set (cat_tables (rd_cat (raw_of a1))) = dom (rd_db (raw_of a1))" using ok a1 by (simp add: raw_of_def cat_ok_def)
  with exec_script_run [OF table_script_within [OF t(2) sc, of ?L], of "raw_of a1" "e_fault env"] t(2)
  obtain r w' k where x: "exec_script (e_fault env) script (raw_of a1) = (r, w')" "returns r" "grown ?L ?M (raw_of a1) w'"
    "r = Ok () \<longrightarrow> run_ddl script ((raw_of a1)\<lparr>rd_tick := k\<rparr>) = Some w'"
    "no_faults (e_fault env) \<and> run_ddl script (raw_of a1) \<noteq> None \<longrightarrow> r = Ok ()" by auto
  have tc: "t \<in> set (cat_tables (rd_cat (raw_of a1)))" "t \<in> set (cat_tables (rd_cat ((raw_of a1)\<lparr>rd_tick := k\<rparr>)))"
    using t(1) a1 by (simp_all add: watchable_def raw_of_def)
  have g: "grown ?L ?M (db_cat (sd_db (ad_sd a)) (ad_cat a)) (db_cat (rd_db w') (rd_cat w'))"
    using x(3) a1 by (simp add: grown_db_cat)
  have "logged p (rd_db w') (rd_cat w') t" if "r = Ok ()"
    using table_script_run [OF t(2) sc tc(2)] x(4) that cat_ok_grown [OF ok g]
    by (auto simp: logged_def cat_ok_def)
  moreover have "r = Ok ()" if "healthy env"
    using table_script_run [OF t(2) sc tc(1)] x(5) healthy_no_faults [OF that] by auto
  ultimately have post: "set_up env p s [t] (sd_db (ad_sd a)) (ad_cat a) r (rd_db w') (rd_cat w') s"
    using g by (simp add: set_up_def)
  have "runs (insert c B) (on_raw env (\<lambda>fault. exec_script fault script)) a1 (set_up env p s [t] (sd_db (ad_sd a)) (ad_cat a))"
    by (rule runs_raw [where f = "\<lambda>fault. exec_script fault script", OF x(1,2) inv]) (use post a1 in simp)
  then show "runs (insert c B) (\<lambda>a. let name = trim_space t in
       if has_prefix name ''sqlite_'' \<or> has_prefix name (sd_prefix (ad_sd a))
       then (Err (Errorf (''invalid table to watch '' @ t)), a)
       else bindR (lift_res (tableCDCScriptFor (sd_prefix (ad_sd a)) (sd_schema (ad_sd a)) name))
         (\<lambda>script. on_raw env (\<lambda>fault. exec_script fault script)) a)
       (a\<lparr>ad_sd := (ad_sd a)\<lparr>sd_pool := q\<rparr>\<rparr>) (set_up env p s [t] (sd_db (ad_sd a)) (ad_cat a))"
    using t(1) a1 sc unfolding a1_def [symmetric] by (simp add: runs_def watchable_def bindR_def lift_res_def)
qed

lemma set_up_step:
  assumes "set_up env p s [t] d0 c0 (Ok ()) d1 c1 s" and "set_up env p s ts d1 c1 r d c s'" and "t \<notin> set ts"
  shows "set_up env p s (t # ts) d0 c0 r d c s'"
proof -
  let ?M = "\<Union>u\<in>set (t # ts). triggers_of p u"
  from assms have g: "grown (log_map p s) ?M (db_cat d0 c0) (db_cat d1 c1)" "grown (log_map p s) ?M (db_cat d1 c1) (db_cat d c)"
    unfolding set_up_def by (auto elim!: grown_mono)
  have "(\<Union>u\<in>set ts. triggers_of p u) \<inter> triggers_of p t = {}"
    using assms(3) triggers_of_disjoint [of t _ _ p] by fastforce
  with assms have "logged p d c t" unfolding set_up_def by (auto intro: logged_grown)
  with assms grown_trans [OF g] show ?thesis by (auto simp: set_up_def)
qed

lemma set_up_failed: "set_up env p s [t] d0 c0 (Err e) d c s' \<Longrightarrow> set_up env p s (t # ts) d0 c0 (Err e) d c s'"
  by (auto simp: set_up_def elim!: grown_mono)

lemma same_adm_ready: "same_adm B a a1 \<Longrightarrow> db_ready env (ad_sd a) B' \<Longrightarrow> card B < p_cap (sd_pool (ad_sd a)) \<Longrightarrow> db_ready env (ad_sd a1) B"
  by (simp add: same_adm_def db_ready_def)

lemma init_each_runs:
  assumes "db_ready env (ad_sd a) B" and "cat_ok (sd_db (ad_sd a)) (ad_cat a)"
    and "sd_prefix (ad_sd a) = p" and "sd_schema (ad_sd a) = s"
    and "\<forall>t\<in>set ts. watchable p (ad_cat a) t \<and> map_of s t \<noteq> None" and "distinct ts"
  shows "runs B (init_each env ts) a (set_up env p s ts (sd_db (ad_sd a)) (ad_cat a))"
  using assms
proof (induction ts arbitrary: a)
  case Nil
  then show ?case by (auto simp: set_up_def db_ready_def intro: runs_ret)
next
  case (Cons t ts)
  from Cons.prems(5) obtain info where t: "watchable p (ad_cat a) t" "map_of s t = Some info" by auto
  note run = initTriggers_runs [OF Cons.prems(1-4) t]
  show ?case unfolding init_each.simps
  proof (rule runs_bind [OF run])
    fix u and a1 :: "'a AdminDB"
    assume su: "set_up env p s [t] (sd_db (ad_sd a)) (ad_cat a) (Ok u) (sd_db (ad_sd a1)) (ad_cat a1) (sd_schema (ad_sd a1))"
      and same: "same_adm B a a1"
    then have s1: "sd_schema (ad_sd a1) = s" and g: "grown (log_map p s) (triggers_of p t) (db_cat (sd_db (ad_sd a)) (ad_cat a)) (db_cat (sd_db (ad_sd a1)) (ad_cat a1))"
      by (simp_all add: set_up_def)
    have "runs B (init_each env ts) a1 (set_up env p s ts (sd_db (ad_sd a1)) (ad_cat a1))"
    proof (rule Cons.IH)
      show "db_ready env (ad_sd a1) B" using same Cons.prems(1) by (simp add: same_adm_def db_ready_def)
      show "cat_ok (sd_db (ad_sd a1)) (ad_cat a1)" by (rule cat_ok_grown [OF Cons.prems(2) g])
      show "sd_prefix (ad_sd a1) = p" using same Cons.prems(3) by (simp add: same_adm_def)
      show "\<forall>t\<in>set ts. watchable p (ad_cat a1) t \<and> map_of s t \<noteq> None" using Cons.prems(5) watchable_grown [OF _ g] by auto
    qed (use s1 Cons.prems(6) in simp_all)
    then show "runs B (init_each env ts) a1 (set_up env p s (t # ts) (sd_db (ad_sd a)) (ad_cat a))"
      using su s1 Cons.prems(6) by (elim runs_weaken) (auto intro: set_up_step)
  qed (rule set_up_failed)
qed

lemma initGlobal_runs:
  assumes rdy: "db_ready env (ad_sd a) B" and ok: "cat_ok (sd_db (ad_sd a)) (ad_cat a)"
    and p: "sd_prefix (ad_sd a) = p" and s: "sd_schema (ad_sd a) = s"
  shows "runs B (initGlobalChangeLog env) a (\<lambda>r d c s'. set_up env p s [] (sd_db (ad_sd a)) (ad_cat a) r d c s' \<and>
     (r = Ok () \<longrightarrow> d (globalMetaTable p) \<noteq> None))"
  unfolding initGlobalChangeLog_def
proof (rule runs_conn [OF rdy])
  fix c and q :: SQLitePool
  define a1 where "a1 = a\<lparr>ad_sd := (ad_sd a)\<lparr>sd_pool := q\<rparr>\<rparr>"
  assume "pool_inv q (insert c B)"
  then have inv: "pool_inv (sd_pool (ad_sd a1)) (insert c B)" by (simp add: a1_def)
  have a1: "sd_db (ad_sd a1) = sd_db (ad_sd a)" "ad_cat a1 = ad_cat a" "sd_prefix (ad_sd a1) = p" "sd_schema (ad_sd a1) = s"
    using p s by (simp_all add: a1_def)
  have w: "\<forall>st\<in>set (globalCDCScript p). within (log_map p s) {} st" by (simp add: globalCDCScript_def)
  have "set (cat_tables (rd_cat (raw_of a1))) = dom (rd_db (raw_of a1))" using ok a1 by (simp add: raw_of_def cat_ok_def)
  from exec_script_run [OF w this, of "e_fault env"] obtain r w' k where
    x: "exec_script (e_fault env) (globalCDCScript p) (raw_of a1) = (r, w')" "returns r" "grown (log_map p s) {} (raw_of a1) w'"
    "r = Ok () \<longrightarrow> run_ddl (globalCDCScript p) ((raw_of a1)\<lparr>rd_tick := k\<rparr>) = Some w'"
    "no_faults (e_fault env) \<and> run_ddl (globalCDCScript p) (raw_of a1) \<noteq> None \<longrightarrow> r = Ok ()" by auto
  have "rd_db w' (globalMetaTable p) \<noteq> None" if "r = Ok ()"
    using x(4) that ok a1 by (auto simp: globalCDCScript_def raw_of_def cat_ok_def split: if_splits)
  with x(3,5) a1 healthy_no_faults [of env]
  have post: "set_up env p s [] (sd_db (ad_sd a)) (ad_cat a) r (rd_db w') (rd_cat w') s \<and> (r = Ok () \<longrightarrow> rd_db w' (globalMetaTable p) \<noteq> None)"
    by (auto simp: set_up_def grown_db_cat globalCDCScript_def)
  have "runs (insert c B) (on_raw env (\<lambda>fault. exec_script fault (globalCDCScript p))) a1
      (\<lambda>r d c s'. set_up env p s [] (sd_db (ad_sd a)) (ad_cat a) r d c s' \<and> (r = Ok () \<longrightarrow> d (globalMetaTable p) \<noteq> None))"
    by (rule runs_raw [where f = "\<lambda>fault. exec_script fault (globalCDCScript p)", OF x(1,2) inv]) (use post a1 in simp)
  then show "runs (insert c B) (\<lambda>a. on_raw env (\<lambda>fault. exec_script fault (globalCDCScript (sd_prefix (ad_sd a)))) a)
      (a\<lparr>ad_sd := (ad_sd a)\<lparr>sd_pool := q\<rparr>\<rparr>)
      (\<lambda>r d c s'. set_up env p s [] (sd_db (ad_sd a)) (ad_cat a) r d c s' \<and> (r = Ok () \<longrightarrow> d (globalMetaTable p) \<noteq> None))"
    using a1 unfolding a1_def [symmetric] by (simp add: runs_def)
qed (simp add: set_up_def s)

lemma install_runs:
  assumes rdy: "db_ready env (ad_sd a) B" and ok: "cat_ok (sd_db (ad_sd a)) (ad_cat a)"
    and p: "sd_prefix (ad_sd a) = p" and s: "sd_schema (ad_sd a) = s" and dist: "distinct (map fst s)"
    and ts: "\<forall>t\<in>fst ` set s. watchable p (ad_cat a) t"
  shows "runs B (installChangeLogTriggers env) a (\<lambda>r d c s'. set_up env p s (map fst s) (sd_db (ad_sd a)) (ad_cat a) r d c s' \<and>
     (r = Ok () \<longrightarrow> d (globalMetaTable p) \<noteq> None))"
  unfolding installChangeLogTriggers_def
proof (rule runs_bind [OF initGlobal_runs [OF rdy ok p s]])
  fix u :: unit and a1 :: "'a AdminDB"
  assume a1: "set_up env p s [] (sd_db (ad_sd a)) (ad_cat a) (Ok u) (sd_db (ad_sd a1)) (ad_cat a1) (sd_schema (ad_sd a1)) \<and>
      (Ok u = Ok () \<longrightarrow> sd_db (ad_sd a1) (globalMetaTable p) \<noteq> None)" and same: "same_adm B a a1"
  then have s1: "sd_schema (ad_sd a1) = s" and g: "grown (log_map p s) {} (db_cat (sd_db (ad_sd a)) (ad_cat a)) (db_cat (sd_db (ad_sd a1)) (ad_cat a1))"
    by (simp_all add: set_up_def)
  have "runs B (init_each env (map fst s)) a1 (set_up env p s (map fst s) (sd_db (ad_sd a1)) (ad_cat a1))"
  proof (rule init_each_runs)
    show "db_ready env (ad_sd a1) B" using same rdy by (simp add: same_adm_def db_ready_def)
    show "cat_ok (sd_db (ad_sd a1)) (ad_cat a1)" by (rule cat_ok_grown [OF ok g])
    show "sd_prefix (ad_sd a1) = p" using same p by (simp add: same_adm_def)
    show "\<forall>t\<in>set (map fst s). watchable p (ad_cat a1) t \<and> map_of s t \<noteq> None"
      using ts watchable_grown [OF _ g] by (auto simp: map_of_eq_None_iff)
  qed (use s1 dist in simp_all)
  then have "runs B (init_each env (map fst s)) a1 (\<lambda>r d c s'. set_up env p s (map fst s) (sd_db (ad_sd a)) (ad_cat a) r d c s' \<and>
     (r = Ok () \<longrightarrow> d (globalMetaTable p) \<noteq> None))"
  proof (rule runs_weaken)
    fix r d c s'
    let ?M = "\<Union>t\<in>set (map fst s). triggers_of p t"
    assume su: "set_up env p s (map fst s) (sd_db (ad_sd a1)) (ad_cat a1) r d c s'"
    from g have "grown (log_map p s) ?M (db_cat (sd_db (ad_sd a)) (ad_cat a)) (db_cat (sd_db (ad_sd a1)) (ad_cat a1))" by (auto elim: grown_mono)
    with su have "set_up env p s (map fst s) (sd_db (ad_sd a)) (ad_cat a) r d c s'" by (auto simp: set_up_def intro: grown_trans)
    moreover have "d (globalMetaTable p) \<noteq> None" using su a1 grown_table [of _ _ _ "db_cat d c"] by (fastforce simp: set_up_def)
    ultimately show "set_up env p s (map fst s) (sd_db (ad_sd a)) (ad_cat a) r d c s' \<and> (r = Ok () \<longrightarrow> d (globalMetaTable p) \<noteq> None)" by simp
  qed
  then show "runs B (\<lambda>a. init_each env (map fst (sd_schema (ad_sd a))) a) a1 (\<lambda>r d c s'. set_up env p s (map fst s) (sd_db (ad_sd a)) (ad_cat a) r d c s' \<and>
     (r = Ok () \<longrightarrow> d (globalMetaTable p) \<noteq> None))" using s1 by (simp add: runs_def)
qed (auto simp: set_up_def elim!: grown_mono)

section \<open>A fresh or earlier installation\<close>

text \<open>What an installation may find: no change logs, or those of an earlier run for the same columns.\<close>

definition cdc_before :: "string \<Rightarrow> schema_list \<Rightarrow> sqldb \<Rightarrow> bool" where
  "cdc_before p s d \<longleftrightarrow>
     cdc_schema p s \<and> (\<forall>gt. d (globalMetaTable p) = Some gt \<longrightarrow> global_wf gt) \<and>
     (\<forall>t info lt. map_of s t = Some info \<longrightarrow> d (metaTable p t changeLogName) = Some lt \<longrightarrow> log_wf info lt) \<and>
     (\<forall>g\<in>set (queue p d). queued_ok p s d g)"

lemma empty_table_wf [simp]: "log_wf info (empty_table (log_cols info))" "global_wf (empty_table global_cols)"
  by (simp_all add: log_wf_def global_wf_def empty_table_def)

lemma grown_rows: "grown L M (db_cat d0 c0) (db_cat d c) \<Longrightarrow> rows_of d t = rows_of d0 t"
  by (auto simp: grown_def rows_of_def empty_table_def split: option.splits) (metis option.distinct(1) option.inject sqltable.select_convs(4))+

lemma grown_cdc:
  assumes g: "grown (log_map p s) M (db_cat d0 c0) (db_cat d c)" and before: "cdc_before p s d0"
    and tabs: "d (globalMetaTable p) \<noteq> None" "\<forall>t\<in>fst ` set s. d (metaTable p t changeLogName) \<noteq> None"
  shows "cdc_wf p s d" and "pending p s d = pending p s d0"
proof -
  note rows = grown_rows [OF g]
  have q: "queue p d = queue p d0" "log_row p d = log_row p d0" "queued_ok p s d = queued_ok p s d0"
    by (auto simp: queue_def log_row_def queued_ok_def rows fun_eq_iff)
  show "pending p s d = pending p s d0" by (simp add: pending_def q change_event_def)
  have new: "d t = d0 t \<or> (\<exists>cols. log_map p s t = Some cols \<and> d t = Some (empty_table cols))" for t
    using g unfolding grown_def db_cat_simps by blast
  have "\<exists>gt. d (globalMetaTable p) = Some gt \<and> global_wf gt"
    using new [of "globalMetaTable p"] tabs(1) before by (auto simp: cdc_before_def)
  moreover have "\<exists>lt. d (metaTable p t changeLogName) = Some lt \<and> log_wf info lt" if i: "map_of s t = Some info" for t info
  proof -
    from i have "t \<in> fst ` set s" by (metis (no_types) map_of_eq_None_iff option.distinct(1))
    with tabs(2) obtain lt where "d (metaTable p t changeLogName) = Some lt" by blast
    with new [of "metaTable p t changeLogName"] i before show ?thesis by (auto simp: cdc_before_def)
  qed
  ultimately show "cdc_wf p s d" using before by (auto simp: cdc_wf_def cdc_before_def q)
qed

lemma grown_app_table:
  assumes "grown (log_map p s) M (db_cat d0 c0) (db_cat d c)" and "\<not> has_prefix t p"
  shows "d t = d0 t"
proof -
  have "log_map p s t = None"
    using assms(2) by (auto simp: log_map_def map_of_eq_None_iff metaTable_def globalMetaTable_def)
  with assms(1) show ?thesis unfolding grown_def db_cat_simps by (metis option.distinct(1))
qed

text \<open>What \<open>InstallCDC\<close> leaves: \<open>s0\<close>, \<open>d0\<close>, \<open>c0\<close> before, \<open>s\<close>, \<open>d\<close>, \<open>c\<close> after.\<close>

definition installed ::
  "db_env \<Rightarrow> string \<Rightarrow> string list \<Rightarrow> unit res \<Rightarrow> schema_list \<Rightarrow> sqldb \<Rightarrow> catalog \<Rightarrow> unit res \<Rightarrow> sqldb \<Rightarrow> catalog \<Rightarrow> schema_list \<Rightarrow> bool" where
  "installed env p ns watcher s0 d0 c0 r d c s \<longleftrightarrow>
     (\<exists>s1. grown (log_map p s1) (\<Union>t\<in>fst ` set s1. triggers_of p t) (db_cat d0 c0) (db_cat d c)) \<and>
     (r = Ok () \<longrightarrow> grown (log_map p s) UNIV (db_cat d0 c0) (db_cat d c) \<and> d (globalMetaTable p) \<noteq> None \<and> (\<forall>t\<in>fst ` set s. logged p d c t)) \<and>
     (healthy env \<and> watcher = Ok () \<longrightarrow> r = Ok () \<and> s = watch_all c0 ns s0)"

lemma set_up_installed:
  assumes "set_up env p s (map fst s) d0 c0 r d c s'" and "r = Ok () \<longrightarrow> d (globalMetaTable p) \<noteq> None"
    and "healthy env \<longrightarrow> s = watch_all c0 ns s0"
  shows "r = Ok () \<Longrightarrow> installed env p ns watcher s0 d0 c0 watcher d c s'"
    and "r = Err e \<Longrightarrow> installed env p ns watcher s0 d0 c0 (Err e) d c s'"
proof -
  from assms(1) have g: "grown (log_map p s) (\<Union>t\<in>fst ` set s. triggers_of p t) (db_cat d0 c0) (db_cat d c)" and s: "s' = s"
    by (simp_all add: set_up_def)
  from grown_mono [OF g subset_UNIV] have "grown (log_map p s) UNIV (db_cat d0 c0) (db_cat d c)" .
  with assms s g show "r = Ok () \<Longrightarrow> installed env p ns watcher s0 d0 c0 watcher d c s'"
    and "r = Err e \<Longrightarrow> installed env p ns watcher s0 d0 c0 (Err e) d c s'"
    unfolding installed_def set_up_def by (simp_all, blast+)
qed

lemma installed_nothing: "\<not> healthy env \<Longrightarrow> installed env p ns watcher s0 d0 c0 (Err e) d0 c0 s"
  by (simp add: installed_def)

lemma InstallCDC_runs:
  assumes rdy: "db_ready env (ad_sd a) B" and room: "Suc (card B) < p_cap (sd_pool (ad_sd a))"
    and ok: "cat_ok (sd_db (ad_sd a)) (ad_cat a)" and dist: "distinct (map fst (sd_schema (ad_sd a)))"
    and ts: "\<forall>t\<in>fst ` set (sd_schema (ad_sd a)) \<union> set ns. watchable p (ad_cat a) t"
    and p: "sd_prefix (ad_sd a) = p" and watcher: "returns watcher"
  shows "runs B (InstallCDC env watcher ns) a (installed env p ns watcher (sd_schema (ad_sd a)) (sd_db (ad_sd a)) (ad_cat a))"
    (is "runs B _ a ?Q")
  unfolding InstallCDC_def
proof (rule runs_conn [OF rdy])
  fix e assume "\<not> healthy env"
  then show "?Q (Err e) (sd_db (ad_sd a)) (ad_cat a) (sd_schema (ad_sd a))" by (rule installed_nothing)
next
  fix x and q :: SQLitePool
  let ?s0 = "sd_schema (ad_sd a)" and ?d0 = "sd_db (ad_sd a)" and ?c0 = "ad_cat a" and ?B = "insert x B"
  define a1 where "a1 = a\<lparr>ad_sd := (ad_sd a)\<lparr>sd_pool := q\<rparr>\<rparr>"
  assume x: "x \<notin> B" and inv: "pool_inv q ?B" and cap: "p_cap q = p_cap (sd_pool (ad_sd a))"
  have dr: "driver_returns (e_driver env)" and fin: "finite B" using rdy by (auto simp: db_ready_def dest: pool_inv_finite)
  let ?P = "\<lambda>r d c s. d = ?d0 \<and> c = ?c0 \<and> fst ` set s \<subseteq> fst ` set ?s0 \<union> set ns \<and> distinct (map fst s) \<and>
     (healthy env \<longrightarrow> r = Ok () \<and> s = watch_all ?c0 ns ?s0)"
  have "runs ?B (watch_tables env ns) (a1\<lparr>ad_sd := (ad_sd a1)\<lparr>sd_tick := k\<rparr>\<rparr>) ?P" for k
    using watch_tables_runs [of "a1\<lparr>ad_sd := (ad_sd a1)\<lparr>sd_tick := k\<rparr>\<rparr>" ?B env ns] inv dist by (simp add: a1_def)
  then have tx: "runs ?B (adm_tx env (watch_tables env ns)) a1 ?P"
  proof (rule runs_tx [rotated])
    fix e :: go_error and r :: "unit res" and d c s
    assume "?P r d c s" and "r = Err e \<or> \<not> healthy env"
    then show "?P (Err e) (sd_db (ad_sd a1)) (ad_cat a1) s" by (auto simp: a1_def)
  qed (use inv dist in \<open>auto simp: a1_def\<close>)
  have "runs ?B (bindR (adm_tx env (watch_tables env ns)) (\<lambda>_. bindR (installChangeLogTriggers env) (\<lambda>_. bindR (lift_res watcher) (\<lambda>_. ret ())))) a1 ?Q"
  proof (rule runs_bind [OF tx])
    fix u :: unit and a2 :: "'a AdminDB"
    assume a2: "?P (Ok u) (sd_db (ad_sd a2)) (ad_cat a2) (sd_schema (ad_sd a2))" and same: "same_adm ?B a1 a2"
    from a2 have eq: "sd_db (ad_sd a2) = ?d0" "ad_cat a2 = ?c0" "distinct (map fst (sd_schema (ad_sd a2)))"
      and h: "healthy env \<longrightarrow> sd_schema (ad_sd a2) = watch_all ?c0 ns ?s0" by blast+
    have keys: "fst ` set (sd_schema (ad_sd a2)) \<subseteq> fst ` set ?s0 \<union> set ns" using a2 by blast
    have pre: "db_ready env (ad_sd a2) ?B" "sd_prefix (ad_sd a2) = p" "cat_ok (sd_db (ad_sd a2)) (ad_cat a2)"
      using same dr room cap x fin p ok eq(1,2) by (simp_all add: same_adm_def db_ready_def a1_def)
    have tabs: "\<forall>t\<in>fst ` set (sd_schema (ad_sd a2)). watchable p (ad_cat a2) t"
      using keys ts unfolding eq(2) by blast
    note run = install_runs [OF pre(1,3,2) refl eq(3) tabs, unfolded eq(1,2)]
    from run show "runs ?B (bindR (installChangeLogTriggers env) (\<lambda>_. bindR (lift_res watcher) (\<lambda>_. ret ()))) a2 ?Q"
    proof (rule runs_bind)
      fix v :: unit and a3 :: "'a AdminDB"
      assume a3: "set_up env p (sd_schema (ad_sd a2)) (map fst (sd_schema (ad_sd a2))) ?d0 ?c0 (Ok v) (sd_db (ad_sd a3)) (ad_cat a3) (sd_schema (ad_sd a3)) \<and>
        (Ok v = Ok () \<longrightarrow> sd_db (ad_sd a3) (globalMetaTable p) \<noteq> None)" and same3: "same_adm ?B a2 a3"
      then have inst: "?Q watcher (sd_db (ad_sd a3)) (ad_cat a3) (sd_schema (ad_sd a3))"
        by (intro set_up_installed(1) [of env p "sd_schema (ad_sd a2)" ?d0 ?c0 "Ok v", OF _ _ h]) (blast, blast, simp)
      have "runs ?B (lift_res watcher) a3 ?Q"
        by (rule runs_lift) (use inst same3 watcher in \<open>simp_all add: same_adm_def\<close>)
      moreover have "bindR (lift_res watcher) (\<lambda>_. ret ()) = (lift_res watcher :: ('a AdminDB, unit) prog)"
        by (rule ext) (simp add: bindR_def lift_res_def ret_def split: res.splits)
      ultimately show "runs ?B (bindR (lift_res watcher) (\<lambda>_. ret ())) a3 ?Q" by simp
    next
      fix e d c s' assume "set_up env p (sd_schema (ad_sd a2)) (map fst (sd_schema (ad_sd a2))) ?d0 ?c0 (Err e) d c s' \<and>
        (Err e = Ok () \<longrightarrow> d (globalMetaTable p) \<noteq> None)"
      then show "?Q (Err e) d c s'" by (intro set_up_installed(2) [of env p "sd_schema (ad_sd a2)" ?d0 ?c0 "Err e", OF _ _ h]) (blast, blast, simp)
    qed
  next
    fix e d c s assume "?P (Err e) d c s"
    then have "\<not> healthy env" "d = ?d0" "c = ?c0" by auto
    then show "?Q (Err e) d c s" by (simp add: installed_nothing)
  qed
  then show "runs ?B (bindR (adm_tx env (watch_tables env ns)) (\<lambda>_. bindR (installChangeLogTriggers env) (\<lambda>_. bindR (lift_res watcher) (\<lambda>_. ret ()))))
      (a\<lparr>ad_sd := (ad_sd a)\<lparr>sd_pool := q\<rparr>\<rparr>) ?Q" by (simp add: a1_def)
qed

end
