(* ===== verification/InstallProps.thy ===== *)
theory InstallProps
  imports Install ChangeLogProps
begin

text \<open>
  What setting up and removing change capture promises: an installation touches nothing that is there
  and leaves the change logs in the state the publisher needs, removal takes away what was installed
  (and, because of the wildcards in its pattern, more).
\<close>

section \<open>Opening\<close>

lemma new_pool_lazy:
  "length (p_chan s) + n \<le> p_cap s \<Longrightarrow> \<exists>t. new_pool_loop env True n s = (Ok (), t) \<and> p_cap t = p_cap s"
proof (induction n arbitrary: s)
  case (Suc n)
  let ?s = "s\<lparr>p_heap := (p_heap s)(p_next s := conn_zero), p_next := Suc (p_next s), p_chan := p_chan s @ [p_next s]\<rparr>"
  from Suc.IH [of ?s] Suc.prems show ?case
    by (auto simp: bindR_def alloc_conn_def ret_def chan_send_def)
qed simp

lemma NewSQLitePool_lazy:
  "\<exists>q. NewSQLitePool env self dns PoolSize True = (Ok (), q) \<and> pool_inv q {} \<and> p_cap q = PoolSize"
proof -
  have "\<exists>q. NewSQLitePool env self dns PoolSize True = (Ok (), q) \<and> p_cap q = PoolSize"
    unfolding NewSQLitePool_def by (rule new_pool_lazy [THEN exE]) (auto simp: PoolSize_def)
  with NewSQLitePool_inv show ?thesis by blast
qed

lemma performCheckpoint_done:
  "0 \<notin> set bs \<Longrightarrow> performCheckpoint (map (\<lambda>b. Ok (b, x, y)) bs @ Ok (0, i, j) # rows) = Ok ()"
  by (simp add: performCheckpoint_busy)

lemma OpenStreamDB_run:
  assumes h: "healthy env" and dr: "driver_returns (e_driver env)" and ck: "performCheckpoint checkpoints = Ok ()"
  shows "\<exists>q. pool_inv q {} \<and> p_cap q = PoolSize \<and> OpenStreamDB env self path checkpoints d tick x =
     Ok \<lparr>sd_prefix = MarmotPrefix, sd_schema = [], sd_publishLock = False, sd_pool = q, sd_db = d,
         sd_tick = tick, sd_published = 0, sd_pendingPublish = 0, sd_ext = x\<rparr>"
proof -
  from NewSQLitePool_lazy [of "e_driver env" self] obtain q where q: "NewSQLitePool (e_driver env) self (path @ ''?_journal_mode=WAL'') PoolSize True = (Ok (), q)"
    "p_cap q = PoolSize" by blast
  let ?w = "\<lparr>sd_prefix = MarmotPrefix, sd_schema = [], sd_publishLock = False, sd_pool = q, sd_db = d,
     sd_tick = tick, sd_published = 0, sd_pendingPublish = 0, sd_ext = x\<rparr>"
  have "db_ready env ?w {}" using NewSQLitePool_inv [OF q(1)] q(2) dr by (simp add: db_ready_def PoolSize_def)
  from borrow_conn_healthy [OF h this, of "lift_res (performCheckpoint checkpoints)"] ck q(2)
  obtain p where "pool_inv p {}" "p_cap p = PoolSize"
    "borrow_conn env (lift_res (performCheckpoint checkpoints)) ?w = (Ok (), ?w\<lparr>sd_pool := p\<rparr>)"
    by (auto simp: lift_res_def)
  with q ck show ?thesis by (auto simp: OpenStreamDB_def intro!: exI [of _ p])
qed

section \<open>Installing\<close>

text \<open>
  C33: whatever the driver does, \<open>InstallCDC\<close> returns and gives both its connections back; it
  changes no row and no column of a table that is there, every table it creates has a name with the
  marmot prefix, no trigger is lost but the ones it replaces, and when it reports success every
  watched table has its change log and its three triggers, on that table and no other.
\<close>

theorem install_safe_under_faults:
  assumes "db_ready env (ad_sd a) B" and "Suc (card B) < p_cap (sd_pool (ad_sd a))"
    and "cat_ok (sd_db (ad_sd a)) (ad_cat a)" and "distinct (map fst (sd_schema (ad_sd a)))"
    and "\<forall>t\<in>fst ` set (sd_schema (ad_sd a)) \<union> set tables. watchable (sd_prefix (ad_sd a)) (ad_cat a) t"
    and "returns watcher"
  shows "\<exists>r a'. InstallCDC env watcher tables a = (r, a') \<and> returns r \<and> db_ready env (ad_sd a') B \<and>
     (\<forall>t tb. sd_db (ad_sd a) t = Some tb \<longrightarrow> sd_db (ad_sd a') t = Some tb) \<and>
     (\<forall>t. \<not> has_prefix t (sd_prefix (ad_sd a)) \<longrightarrow> sd_db (ad_sd a') t = sd_db (ad_sd a) t) \<and>
     (\<forall>n t. \<not> has_prefix n (sd_prefix (ad_sd a)) \<longrightarrow>
        ((n, t) \<in> set (cat_triggers (ad_cat a')) \<longleftrightarrow> (n, t) \<in> set (cat_triggers (ad_cat a)))) \<and>
     (r = Ok () \<longrightarrow> (\<forall>t\<in>fst ` set (sd_schema (ad_sd a')). logged (sd_prefix (ad_sd a)) (sd_db (ad_sd a')) (ad_cat a') t))"
proof -
  let ?p = "sd_prefix (ad_sd a)"
  from InstallCDC_runs [OF assms(1-5) refl assms(6)] obtain r a' where i: "InstallCDC env watcher tables a = (r, a')" "returns r"
    "same_adm B a a'" "installed env ?p tables watcher (sd_schema (ad_sd a)) (sd_db (ad_sd a)) (ad_cat a) r (sd_db (ad_sd a')) (ad_cat a') (sd_schema (ad_sd a'))"
    by (rule runsE)
  from i(4) obtain s1 where g: "grown (log_map ?p s1) (\<Union>t\<in>fst ` set s1. triggers_of ?p t)
      (db_cat (sd_db (ad_sd a)) (ad_cat a)) (db_cat (sd_db (ad_sd a')) (ad_cat a'))"
    and ok: "r = Ok () \<longrightarrow> (\<forall>t\<in>fst ` set (sd_schema (ad_sd a')). logged ?p (sd_db (ad_sd a')) (ad_cat a') t)"
    by (auto simp: installed_def)
  have "n \<notin> (\<Union>t\<in>fst ` set s1. triggers_of ?p t)" if "\<not> has_prefix n ?p" for n
    using that by (auto simp: triggers_of_def trigger_for_def metaTable_def)
  with g have "\<forall>n t. \<not> has_prefix n ?p \<longrightarrow> ((n, t) \<in> set (cat_triggers (ad_cat a')) \<longleftrightarrow> (n, t) \<in> set (cat_triggers (ad_cat a)))"
    unfolding grown_def db_cat_simps by blast
  moreover have "db_ready env (ad_sd a') B" using i(3) assms(1) by (simp add: same_adm_def db_ready_def)
  moreover have "\<forall>t tb. sd_db (ad_sd a) t = Some tb \<longrightarrow> sd_db (ad_sd a') t = Some tb" using grown_table [OF g] by simp
  moreover have "\<forall>t. \<not> has_prefix t ?p \<longrightarrow> sd_db (ad_sd a') t = sd_db (ad_sd a) t" using grown_app_table [OF g] by blast
  ultimately show ?thesis using i(1,2) ok by blast
qed

text \<open>
  A freshly opened stream database on which nothing fails watches exactly the tables it is given, each
  with a key; its change logs satisfy the invariant of the publisher and keep what waited in them.
\<close>

lemma InstallCDC_start:
  assumes h: "healthy env" and rdy: "db_ready env w {}" and w: "p_cap (sd_pool w) = PoolSize" "sd_prefix w = MarmotPrefix" "sd_schema w = []"
    and cat: "cat_ok (sd_db w) c" "\<forall>t\<in>set tables. watchable MarmotPrefix c t" "cdc_before MarmotPrefix (watch_all c tables []) (sd_db w)"
  shows "\<exists>a'. InstallCDC env (Ok ()) tables \<lparr>ad_sd = w, ad_cat = c\<rparr> = (Ok (), a') \<and> db_ready env (ad_sd a') {} \<and>
     same_adm {} \<lparr>ad_sd = w, ad_cat = c\<rparr> a' \<and> sd_schema (ad_sd a') = watch_all c tables [] \<and>
     (\<forall>t\<in>set tables. \<exists>k\<in>set (watched (ad_sd a') t). ci_IsPrimaryKey k) \<and>
     cdc_wf MarmotPrefix (sd_schema (ad_sd a')) (sd_db (ad_sd a')) \<and>
     pending MarmotPrefix (sd_schema (ad_sd a')) (sd_db (ad_sd a')) = pending MarmotPrefix (watch_all c tables []) (sd_db w) \<and>
     (\<forall>t. \<not> has_prefix t MarmotPrefix \<longrightarrow> sd_db (ad_sd a') t = sd_db w t)"
proof -
  let ?a = "\<lparr>ad_sd = w, ad_cat = c\<rparr>"
  have "runs {} (InstallCDC env (Ok ()) tables) ?a (installed env MarmotPrefix tables (Ok ()) (sd_schema (ad_sd ?a)) (sd_db (ad_sd ?a)) (ad_cat ?a))"
    by (rule InstallCDC_runs) (use rdy w cat in \<open>simp_all add: PoolSize_def\<close>)
  then obtain r a' where i: "InstallCDC env (Ok ()) tables ?a = (r, a')" "same_adm {} ?a a'"
    "installed env MarmotPrefix tables (Ok ()) [] (sd_db w) c r (sd_db (ad_sd a')) (ad_cat a') (sd_schema (ad_sd a'))"
    using w by (auto elim: runsE)
  then have r: "r = Ok ()" and s: "sd_schema (ad_sd a') = watch_all c tables []" using h by (auto simp: installed_def)
  have g: "grown (log_map MarmotPrefix (watch_all c tables [])) UNIV (db_cat (sd_db w) c) (db_cat (sd_db (ad_sd a')) (ad_cat a'))"
    and tabs: "sd_db (ad_sd a') (globalMetaTable MarmotPrefix) \<noteq> None"
      "\<forall>t\<in>fst ` set (watch_all c tables []). sd_db (ad_sd a') (metaTable MarmotPrefix t changeLogName) \<noteq> None"
    using i(3) r s by (auto simp: installed_def logged_def)
  have "map_of (watch_all c tables []) t = Some (columns_of (cat_info c t))" if "t \<in> set tables" for t
    using that by (rule watch_all_map)
  then have "\<forall>t\<in>set tables. \<exists>k\<in>set (watched (ad_sd a') t). ci_IsPrimaryKey k"
    using columns_of_key by (simp add: watched_def s)
  moreover have "db_ready env (ad_sd a') {}" using rdy i(2) by (simp add: same_adm_def db_ready_def)
  ultimately show ?thesis using i(1,2) r s grown_cdc [OF g cat(3) tabs] grown_app_table [OF g] by simp
qed

text \<open>A database with one table, never watched before; a driver that fails at the sixth call.\<close>

definition wit_cat :: catalog where
  "wit_cat = \<lparr>cat_tables = [''t''], cat_triggers = [(''audit'', ''t'')], cat_indexes = [],
     cat_info = (\<lambda>_. [(''id'', ''INTEGER'', True, DNull, 1), (''v'', ''TEXT'', False, DNull, 0)])\<rparr>"

definition wit_plain_db :: sqldb where
  "wit_plain_db = [''t'' \<mapsto> wit_repl_table]"

definition wit_admin :: "unit AdminDB" where
  "wit_admin = \<lparr>ad_sd = \<lparr>sd_prefix = MarmotPrefix, sd_schema = [], sd_publishLock = False,
      sd_pool = snd (NewSQLitePool (e_driver wit_repl_env) 3 ''db'' PoolSize True), sd_db = wit_plain_db, sd_tick = 0, sd_published = 0,
      sd_pendingPublish = 0, sd_ext = ()\<rparr>, ad_cat = wit_cat\<rparr>"

definition wit_fault6 :: db_env where
  "wit_fault6 = wit_repl_env\<lparr>e_fault := (\<lambda>n. if n = 6 then Some (External 1) else None)\<rparr>"

lemma wit_watchable: "watchable MarmotPrefix wit_cat ''t''"
  unfolding watchable_def wit_cat_def MarmotPrefix_def by code_simp

lemma wit_cat_ok: "cat_ok wit_plain_db wit_cat"
  by (simp add: cat_ok_def wit_plain_db_def wit_cat_def)

lemma wit_before: "cdc_before MarmotPrefix (watch_all wit_cat [''t''] []) wit_plain_db"
  by (simp add: cdc_before_def cdc_schema_def watch_all_def wit_cat_def columns_of_def column_of_def MarmotPrefix_def
      wit_plain_db_def queue_def rows_of_def globalMetaTable_def metaTable_def)

lemma wit_admin_ready: "db_ready wit_repl_env (ad_sd wit_admin) {}" "db_ready wit_fault6 (ad_sd wit_admin) {}"
  "p_cap (sd_pool (ad_sd wit_admin)) = PoolSize"
  using NewSQLitePool_lazy [of "e_driver wit_repl_env" 3 "''db''"] wit_ready
  by (auto simp: db_ready_def wit_admin_def wit_fault6_def PoolSize_def)

theorem install_safe_under_faults_witness:
  "\<exists>r a'. InstallCDC wit_fault6 (Ok ()) [''t''] wit_admin = (r, a') \<and> returns r \<and> sd_db (ad_sd a') ''t'' = Some wit_repl_table \<and>
     (''audit'', ''t'') \<in> set (cat_triggers (ad_cat a'))"
proof -
  have "Suc (card {}) < p_cap (sd_pool (ad_sd wit_admin))" using wit_admin_ready(3) by (simp add: PoolSize_def)
  from install_safe_under_faults [OF wit_admin_ready(2) this, of "[''t'']" "Ok ()"] wit_watchable wit_cat_ok show ?thesis
    by (auto simp: wit_admin_def wit_plain_db_def wit_cat_def MarmotPrefix_def)
qed

section \<open>Removing\<close>

lemma raw_put [simp]: "raw_of (put_raw a w) = w" "put_raw (put_raw a w) w' = put_raw a w'" "put_raw a (raw_of a) = a"
  by (simp_all add: raw_of_def put_raw_def)

lemma on_raw_bind: "bindR (on_raw env F) (\<lambda>x. on_raw env (G x)) = on_raw env (\<lambda>fault. bindR (F fault) (\<lambda>x. G x fault))"
  by (rule ext) (simp add: on_raw_def bindR_def split: prod.splits res.splits)

lemma on_raw_ret: "ret x = on_raw env (\<lambda>fault. ret x)"
  by (rule ext) (simp add: on_raw_def ret_def)

lemma marmot_removed_db_cat:
  "marmot_removed p b k (raw_of a) w \<longleftrightarrow> marmot_removed p b k (db_cat (sd_db (ad_sd a)) (ad_cat a)) (db_cat (rd_db w) (rd_cat w))"
  by (simp add: marmot_removed_def raw_of_def)

definition remove_prog :: "bool \<Rightarrow> string \<Rightarrow> faults \<Rightarrow> (rawdb, unit) prog" where
  "remove_prog tables p fault = bindR (removeMarmotTriggers fault p) (\<lambda>_. if tables then removeMarmotTables fault p else ret ())"

lemma remove_prog_run:
  "\<exists>r w'. remove_prog tables p fault w = (r, w') \<and> returns r \<and> (no_faults fault \<longrightarrow> r = Ok ()) \<and>
     marmot_removed p tables (r = Ok ()) w w'"
proof (cases tables)
  case True
  then show ?thesis using remove_marmot_run [of fault p w] by (simp add: remove_prog_def)
next
  case False
  have "bindR f (\<lambda>_. ret ()) = f" for f :: "(rawdb, unit) prog"
    by (rule ext) (simp add: bindR_def ret_def split: prod.splits res.splits)
  with False removeMarmotTriggers_run [of fault p w] show ?thesis by (auto simp: remove_prog_def)
qed

lemma RemoveCDC_runs:
  assumes rdy: "db_ready env (ad_sd a) B"
  shows "runs B (RemoveCDC env tables) a (\<lambda>r d c s. s = sd_schema (ad_sd a) \<and> (healthy env \<longrightarrow> r = Ok ()) \<and>
     marmot_removed (sd_prefix (ad_sd a)) tables (r = Ok ()) (db_cat (sd_db (ad_sd a)) (ad_cat a)) (db_cat d c))"
    (is "runs B _ a ?Q")
  unfolding RemoveCDC_def
proof (rule runs_conn [OF rdy])
  fix c and q :: SQLitePool
  let ?p = "sd_prefix (ad_sd a)"
  define a1 where "a1 = a\<lparr>ad_sd := (ad_sd a)\<lparr>sd_pool := q\<rparr>\<rparr>"
  assume "pool_inv q (insert c B)"
  then have inv: "pool_inv (sd_pool (ad_sd a1)) (insert c B)" by (simp add: a1_def)
  from remove_prog_run [of tables ?p "e_fault env" "raw_of a1"] obtain r w' where
    r: "remove_prog tables ?p (e_fault env) (raw_of a1) = (r, w')" "returns r" "no_faults (e_fault env) \<longrightarrow> r = Ok ()"
    "marmot_removed ?p tables (r = Ok ()) (raw_of a1) w'" by blast
  have "runs (insert c B) (on_raw env (remove_prog tables ?p)) a1 ?Q"
    by (rule runs_raw [where f = "remove_prog tables ?p", OF r(1,2) inv]) (use r(3,4) healthy_no_faults [of env] in \<open>auto simp: marmot_removed_db_cat a1_def\<close>)
  moreover have "bindR (on_raw env (\<lambda>fault. removeMarmotTriggers fault ?p)) (\<lambda>_.
      if tables then on_raw env (\<lambda>fault. removeMarmotTables fault ?p) else ret ()) = (on_raw env (remove_prog tables ?p) :: ('a AdminDB, unit) prog)"
    by (cases tables) (simp_all add: on_raw_bind [symmetric] remove_prog_def [abs_def] on_raw_ret [of "()" env])
  moreover have "sd_prefix (ad_sd a1) = ?p" by (simp add: a1_def)
  ultimately show "runs (insert c B) (\<lambda>a. bindR (on_raw env (\<lambda>fault. removeMarmotTriggers fault (sd_prefix (ad_sd a)))) (\<lambda>_.
       if tables then on_raw env (\<lambda>fault. removeMarmotTables fault (sd_prefix (ad_sd a))) else ret ()) a)
       (a\<lparr>ad_sd := (ad_sd a)\<lparr>sd_pool := q\<rparr>\<rparr>) ?Q"
    unfolding a1_def [symmetric] runs_def by (simp only:)
qed (simp add: marmot_removed_def)

text \<open>
  C35: whatever the driver does, \<open>RemoveCDC\<close> returns and gives its connection back, and every table
  and trigger whose name does not match the pattern stays. When it reports success no matching
  trigger is left and, when tables were to go too, no matching table; without faults it succeeds.
\<close>

theorem remove_safe_under_faults:
  assumes "db_ready env (ad_sd a) B"
  shows "\<exists>r a'. RemoveCDC env tables a = (r, a') \<and> returns r \<and> db_ready env (ad_sd a') B \<and> (healthy env \<longrightarrow> r = Ok ()) \<and>
     (\<forall>t. \<not> like (sd_prefix (ad_sd a) @ ''%'') t \<longrightarrow> sd_db (ad_sd a') t = sd_db (ad_sd a) t) \<and>
     (\<forall>n t. \<not> like (sd_prefix (ad_sd a) @ ''%'') n \<longrightarrow> \<not> like (sd_prefix (ad_sd a) @ ''%'') t \<longrightarrow>
        ((n, t) \<in> set (cat_triggers (ad_cat a')) \<longleftrightarrow> (n, t) \<in> set (cat_triggers (ad_cat a)))) \<and>
     (r = Ok () \<longrightarrow>
        (\<forall>n t. (n, t) \<in> set (cat_triggers (ad_cat a')) \<longrightarrow> \<not> like (sd_prefix (ad_sd a) @ ''%'') n) \<and>
        (tables \<longrightarrow> (\<forall>t\<in>set (cat_tables (ad_cat a')). \<not> like (sd_prefix (ad_sd a) @ ''%'') t)) \<and>
        (\<not> tables \<longrightarrow> sd_db (ad_sd a') = sd_db (ad_sd a)))"
proof -
  from RemoveCDC_runs [OF assms, of tables] obtain r a' where r: "RemoveCDC env tables a = (r, a')" "returns r" "same_adm B a a'"
    "healthy env \<longrightarrow> r = Ok ()"
    "marmot_removed (sd_prefix (ad_sd a)) tables (r = Ok ()) (db_cat (sd_db (ad_sd a)) (ad_cat a)) (db_cat (sd_db (ad_sd a')) (ad_cat a'))"
    by (auto elim: runsE)
  then have "db_ready env (ad_sd a') B" using assms by (simp add: same_adm_def db_ready_def)
  with r show ?thesis by (intro exI [of _ r] exI [of _ a']) (auto simp: marmot_removed_def)
qed

theorem remove_safe_under_faults_witness:
  "\<exists>a'. RemoveCDC wit_repl_env True wit_admin = (Ok (), a') \<and> sd_db (ad_sd a') ''t'' = Some wit_repl_table \<and>
     (''audit'', ''t'') \<in> set (cat_triggers (ad_cat a'))"
proof -
  have n: "\<not> like (MarmotPrefix @ ''%'') ''t''" "\<not> like (MarmotPrefix @ ''%'') ''audit''"
    unfolding like_marmot MarmotPrefix_def by code_simp+
  from remove_safe_under_faults [OF wit_admin_ready(1), of True] wit_healthy obtain a' where
    "RemoveCDC wit_repl_env True wit_admin = (Ok (), a')"
    "\<forall>t. \<not> like (MarmotPrefix @ ''%'') t \<longrightarrow> sd_db (ad_sd a') t = wit_plain_db t"
    "\<forall>n t. \<not> like (MarmotPrefix @ ''%'') n \<longrightarrow> \<not> like (MarmotPrefix @ ''%'') t \<longrightarrow>
        ((n, t) \<in> set (cat_triggers (ad_cat a')) \<longleftrightarrow> (n, t) \<in> set (cat_triggers wit_cat))"
    by (auto simp: wit_admin_def)
  with n show ?thesis by (auto simp: wit_plain_db_def wit_cat_def)
qed

text \<open>Everything \<open>InstallCDC\<close> creates matches the pattern, so removing undoes an installation.\<close>

lemma like_prefixed: "CHR ''%'' \<notin> set p \<Longrightarrow> has_prefix t p \<Longrightarrow> like (p @ ''%'') t"
  by (simp add: like_prefix matches_prefix)

lemma removed_triggers:
  assumes g: "grown L (\<Union>t\<in>T. triggers_of MarmotPrefix t) w w1" and r: "marmot_removed MarmotPrefix True True w1 w2"
    and pre: "\<forall>(n, t)\<in>set (cat_triggers (rd_cat w)). \<not> like (MarmotPrefix @ ''%'') n \<and> t \<in> set (cat_tables (rd_cat w))"
      "\<forall>t\<in>set (cat_tables (rd_cat w)). \<not> like (MarmotPrefix @ ''%'') t"
  shows "(n, t) \<in> set (cat_triggers (rd_cat w2)) \<longleftrightarrow> (n, t) \<in> set (cat_triggers (rd_cat w))"
proof -
  let ?m = "like (MarmotPrefix @ ''%'')"
  have "?m n" if "n \<in> (\<Union>t\<in>T. triggers_of MarmotPrefix t)" for n
    using that by (auto simp: triggers_of_def trigger_for_def metaTable_def intro!: like_prefixed)
  then have keep: "(n, t) \<in> set (cat_triggers (rd_cat w1)) \<longleftrightarrow> (n, t) \<in> set (cat_triggers (rd_cat w))" if "\<not> ?m n" for n t
    using g that unfolding grown_def by blast
  show ?thesis
  proof
    assume "(n, t) \<in> set (cat_triggers (rd_cat w2))"
    with r have "\<not> ?m n" "(n, t) \<in> set (cat_triggers (rd_cat w1))" unfolding marmot_removed_def by blast+
    with keep show "(n, t) \<in> set (cat_triggers (rd_cat w))" by blast
  next
    assume "(n, t) \<in> set (cat_triggers (rd_cat w))"
    with pre keep have "\<not> ?m n" "\<not> ?m t" "(n, t) \<in> set (cat_triggers (rd_cat w1))" by blast+
    with r show "(n, t) \<in> set (cat_triggers (rd_cat w2))" unfolding marmot_removed_def by blast
  qed
qed

text \<open>
  C34: installing change capture and removing it again with its tables leaves the database exactly as
  it was, table by table, and its triggers too, when no name matched the pattern before.
\<close>

theorem install_remove_roundtrip:
  assumes "healthy env" and "db_ready env (ad_sd a) B" and "Suc (card B) < p_cap (sd_pool (ad_sd a))"
    and "cat_ok (sd_db (ad_sd a)) (ad_cat a)" and "distinct (map fst (sd_schema (ad_sd a)))"
    and "\<forall>t\<in>fst ` set (sd_schema (ad_sd a)) \<union> set tables. watchable MarmotPrefix (ad_cat a) t"
    and "sd_prefix (ad_sd a) = MarmotPrefix"
    and "\<forall>t\<in>set (cat_tables (ad_cat a)). \<not> like (MarmotPrefix @ ''%'') t"
    and "\<forall>(n, t)\<in>set (cat_triggers (ad_cat a)). \<not> like (MarmotPrefix @ ''%'') n \<and> t \<in> set (cat_tables (ad_cat a))"
  shows "\<exists>a' a''. InstallCDC env (Ok ()) tables a = (Ok (), a') \<and> RemoveCDC env True a' = (Ok (), a'') \<and>
     sd_db (ad_sd a'') = sd_db (ad_sd a) \<and> set (cat_triggers (ad_cat a'')) = set (cat_triggers (ad_cat a)) \<and>
     db_ready env (ad_sd a'') B"
proof -
  let ?m = "like (MarmotPrefix @ ''%'')"
  from InstallCDC_runs [OF assms(2-7), of "Ok ()"] obtain r1 a' where "InstallCDC env (Ok ()) tables a = (r1, a')" "same_adm B a a'"
    "installed env MarmotPrefix tables (Ok ()) (sd_schema (ad_sd a)) (sd_db (ad_sd a)) (ad_cat a) r1 (sd_db (ad_sd a')) (ad_cat a') (sd_schema (ad_sd a'))"
    by (auto elim: runsE)
  then obtain s1 where i: "InstallCDC env (Ok ()) tables a = (Ok (), a')" "same_adm B a a'"
    "grown (log_map MarmotPrefix s1) (\<Union>t\<in>fst ` set s1. triggers_of MarmotPrefix t) (db_cat (sd_db (ad_sd a)) (ad_cat a)) (db_cat (sd_db (ad_sd a')) (ad_cat a'))"
    using assms(1) by (auto simp: installed_def)
  have rdy: "db_ready env (ad_sd a') B" and p: "sd_prefix (ad_sd a') = MarmotPrefix"
    using i(2) assms(2,7) by (simp_all add: same_adm_def db_ready_def)
  from RemoveCDC_runs [OF rdy, of True] obtain r2 a'' where "RemoveCDC env True a' = (r2, a'')" "same_adm B a' a''" "healthy env \<longrightarrow> r2 = Ok ()"
    "marmot_removed MarmotPrefix True (r2 = Ok ()) (db_cat (sd_db (ad_sd a')) (ad_cat a')) (db_cat (sd_db (ad_sd a'')) (ad_cat a''))"
    unfolding p by (auto elim: runsE)
  then have r: "RemoveCDC env True a' = (Ok (), a'')" "same_adm B a' a''"
    "marmot_removed MarmotPrefix True True (db_cat (sd_db (ad_sd a')) (ad_cat a')) (db_cat (sd_db (ad_sd a'')) (ad_cat a''))"
    using assms(1) by auto
  have cat1: "cat_ok (sd_db (ad_sd a')) (ad_cat a')" by (rule cat_ok_grown [OF assms(4) i(3)])
  have none: "sd_db (ad_sd a) t = None" if "?m t" for t using assms(4,8) that by (auto simp: cat_ok_def)
  have "sd_db (ad_sd a'') t = sd_db (ad_sd a) t" for t
  proof (cases "?m t")
    case True
    with r(3) cat1 none [OF True] show ?thesis by (auto simp: marmot_removed_def cat_ok_def)
  next
    case False
    then have "sd_db (ad_sd a') t = sd_db (ad_sd a) t" using grown_app_table [OF i(3)] like_prefixed marmot_no_percent by blast
    with False r(3) show ?thesis by (simp add: marmot_removed_def)
  qed
  moreover have "(n, t) \<in> set (cat_triggers (ad_cat a'')) \<longleftrightarrow> (n, t) \<in> set (cat_triggers (ad_cat a))" for n t
    using removed_triggers [OF i(3) r(3), unfolded db_cat_simps, OF assms(9,8)] .
  ultimately show ?thesis using i(1) r rdy by (auto simp: same_adm_def db_ready_def)
qed

theorem install_remove_roundtrip_witness:
  "\<exists>a' a''. InstallCDC wit_repl_env (Ok ()) [''t''] wit_admin = (Ok (), a') \<and> RemoveCDC wit_repl_env True a' = (Ok (), a'') \<and>
     sd_db (ad_sd a'') = wit_plain_db \<and> set (cat_triggers (ad_cat a'')) = {(''audit'', ''t'')}"
proof -
  have n: "\<not> like (MarmotPrefix @ ''%'') ''t''" "\<not> like (MarmotPrefix @ ''%'') ''audit''"
    unfolding like_marmot MarmotPrefix_def by code_simp+
  have "Suc (card {}) < p_cap (sd_pool (ad_sd wit_admin))" using wit_admin_ready(3) by (simp add: PoolSize_def)
  from install_remove_roundtrip [OF wit_healthy wit_admin_ready(1) this, of "[''t'']"] wit_watchable wit_cat_ok n show ?thesis
    by (auto simp: wit_admin_def wit_cat_def)
qed

section \<open>The wildcards in the pattern\<close>

lemma lookalike_matches:
  assumes "length x = 2" and "length y = 2"
  shows "matches MarmotPrefix (x @ ''marmot'' @ y @ rest)"
proof -
  obtain a b c d where "x = [a, b]" "y = [c, d]"
    using assms by (auto simp: numeral_2_eq_2 length_Suc_conv)
  then show ?thesis by (simp add: MarmotPrefix_def)
qed

text \<open>
  C40: the underscores of the prefix \<open>__marmot__\<close> are wildcards of LIKE. A table of the application
  with any two characters, then \<open>marmot\<close>, then any two characters at the start of its name (such as
  \<open>mymarmot01\<close>) is not among the tables a node offers to watch, and removing change capture drops it
  with all its rows.
\<close>

theorem remove_drops_lookalike:
  assumes "healthy env" and "db_ready env (ad_sd a) B" and "cat_ok (sd_db (ad_sd a)) (ad_cat a)"
    and "sd_prefix (ad_sd a) = MarmotPrefix" and "length x = 2" and "length y = 2" and "t = x @ ''marmot'' @ y @ rest"
  shows "\<exists>a'. RemoveCDC env True a = (Ok (), a') \<and> sd_db (ad_sd a') t = None \<and>
     (\<exists>names. fst (listDBTables (e_fault env) (raw_of a)) = Ok names \<and> t \<notin> set names)"
proof -
  have l: "like (MarmotPrefix @ ''%'') t" using lookalike_matches [OF assms(5,6)] assms(7) by (simp add: like_marmot)
  from RemoveCDC_runs [OF assms(2), of True] obtain r a' where r: "RemoveCDC env True a = (r, a')" "r = Ok ()"
    "marmot_removed MarmotPrefix True (r = Ok ()) (db_cat (sd_db (ad_sd a)) (ad_cat a)) (db_cat (sd_db (ad_sd a')) (ad_cat a'))"
    using assms(1,4) by (auto elim: runsE)
  have "sd_db (ad_sd a') t = None" using r(2,3) l assms(3) by (auto simp: marmot_removed_def cat_ok_def)
  moreover have "\<exists>names. fst (listDBTables (e_fault env) (raw_of a)) = Ok names \<and> t \<notin> set names"
    using assms(1) l by (auto simp: listDBTables_def bindR_def raw_call_def healthy_def)
  ultimately show ?thesis using r(1,2) by blast
qed

definition wit_lookalike :: "unit AdminDB" where
  "wit_lookalike = wit_admin\<lparr>ad_sd := (ad_sd wit_admin)\<lparr>sd_db := [''mymarmot01'' \<mapsto> wit_repl_table]\<rparr>,
     ad_cat := wit_cat\<lparr>cat_tables := [''mymarmot01''], cat_triggers := []\<rparr>\<rparr>"

theorem remove_drops_lookalike_witness:
  "sd_db (ad_sd wit_lookalike) ''mymarmot01'' = Some wit_repl_table \<and>
   (\<exists>a'. RemoveCDC wit_repl_env True wit_lookalike = (Ok (), a') \<and> sd_db (ad_sd a') ''mymarmot01'' = None)"
proof -
  have rdy: "db_ready wit_repl_env (ad_sd wit_lookalike) {}"
    using wit_admin_ready(1) by (simp add: db_ready_def wit_lookalike_def)
  have ok: "cat_ok (sd_db (ad_sd wit_lookalike)) (ad_cat wit_lookalike)" "sd_prefix (ad_sd wit_lookalike) = MarmotPrefix"
    by (simp_all add: cat_ok_def wit_lookalike_def wit_admin_def)
  from remove_drops_lookalike [OF wit_healthy rdy ok, of "''my''" "''01''" "''mymarmot01''" "[]"] show ?thesis
    by (auto simp: wit_lookalike_def)
qed

end
