(* ===== verification/Watch.thy ===== *)
theory Watch
  imports ChangeLogProps
begin

text \<open>
  The watcher: \<open>utils/timeout.go\<close>, \<open>WithReadTx\<close> of \<open>db/sqlite.go\<close> and \<open>watchChanges\<close> of
  \<open>db/change_log.go\<close>, the goroutine that publishes whenever the files of the database change or the
  polling interval has passed.
\<close>

section \<open>Timers\<close>

datatype ticker = Running int | Stopped

record TimeoutPublisher =
  tp_duration :: int
  tp_ticker :: "ticker option"

text \<open>A publisher with duration 0 has no ticker: its channel never delivers. \<open>time.NewTicker\<close> panics below 0.\<close>

definition NewTimeoutPublisher :: "int \<Rightarrow> TimeoutPublisher res" where
  "NewTimeoutPublisher duration =
     (if duration = 0 then Ok \<lparr>tp_duration = duration, tp_ticker = None\<rparr>
      else if duration < 0 then Panic ''non-positive interval for NewTicker''
      else Ok \<lparr>tp_duration = duration, tp_ticker = Some (Running duration)\<rparr>)"

definition tp_Reset :: "TimeoutPublisher \<Rightarrow> TimeoutPublisher" where
  "tp_Reset t = (case tp_ticker t of None \<Rightarrow> t | Some _ \<Rightarrow> t\<lparr>tp_ticker := Some (Running (tp_duration t))\<rparr>)"

definition tp_Stop :: "TimeoutPublisher \<Rightarrow> TimeoutPublisher" where
  "tp_Stop t = (case tp_ticker t of None \<Rightarrow> t | Some _ \<Rightarrow> t\<lparr>tp_ticker := Some Stopped\<rparr>)"

text \<open>Whether the channel \<open>Channel\<close> returns can ever deliver.\<close>

definition tp_Channel :: "TimeoutPublisher \<Rightarrow> bool" where
  "tp_Channel t = (case tp_ticker t of Some (Running _) \<Rightarrow> True | _ \<Rightarrow> False)"

text \<open>\<open>AutoResetEventTimer\<close>: \<open>subscribed\<close> is what \<open>bus.Subscribe\<close> returns; the handler it registers is \<open>Reset\<close>.\<close>

definition AutoResetEventTimer :: "unit res \<Rightarrow> int \<Rightarrow> (TimeoutPublisher \<times> (TimeoutPublisher \<Rightarrow> TimeoutPublisher)) res" where
  "AutoResetEventTimer subscribed duration =
     bindE (NewTimeoutPublisher duration) (\<lambda>t.
       case subscribed of
         Ok _ \<Rightarrow> Ok (t, tp_Reset)
       | Err e \<Rightarrow> Panic ''Unable to subscribe timeout event bus''
       | Panic p \<Rightarrow> Panic p
       | Block \<Rightarrow> Block)"

section \<open>The watcher\<close>

text \<open>
  \<open>WithReadTx\<close>: \<open>opened\<close> is the outcome of \<open>OpenRaw\<close>. A panic of the callback is recovered and the
  function returns nil; an error of \<open>BeginTx\<close> or of the rollback is dropped.
\<close>

definition WithReadTx :: "unit res \<Rightarrow> ('s, unit) prog \<Rightarrow> ('s, unit) prog" where
  "WithReadTx opened cb = bindR (lift_res opened) (\<lambda>_ s.
     case cb s of (Panic p, s1) \<Rightarrow> (Ok (), s1) | (r, s1) \<Rightarrow> (r, s1))"

text \<open>
  What the loop meets in a round: the connection for the read transaction cannot be opened, an event
  of the watcher (whether it is only a change of mode), the closed channel of the watcher, a tick.
\<close>

datatype watch_in = OpenErr go_error | FsEvent bool | FsClosed | Tick

fun opened_by :: "watch_in \<Rightarrow> unit res" where
  "opened_by (OpenErr e) = Err e"
| "opened_by _ = Ok ()"

fun on_watch :: "db_env \<Rightarrow> u32 \<Rightarrow> 'x on_change \<Rightarrow> watch_in \<Rightarrow> ('x StreamDB, unit) prog" where
  "on_watch env limit cb FsClosed = lift_res (Err ErrEndOfWatch)"
| "on_watch env limit cb (FsEvent chmod) =
     (if \<not> chmod then bindR (publishChangeLog env limit cb) (\<lambda>_. ret ()) else ret ())"
| "on_watch env limit cb Tick = bindR (publishChangeLog env limit cb) (\<lambda>_. ret ())"
| "on_watch env limit cb (OpenErr e) = ret ()"

text \<open>The watcher's own state: whether the last \<open>Add\<close> of each file failed, and how often \<open>Add\<close> was called.\<close>

record 'x watch_state =
  wa_sd :: "'x StreamDB"
  wa_adds :: nat
  wa_errDB :: bool
  wa_errShm :: bool
  wa_errWal :: bool

definition add_db :: "(nat \<Rightarrow> string \<Rightarrow> bool) \<Rightarrow> string \<Rightarrow> 'x watch_state \<Rightarrow> 'x watch_state" where
  "add_db fails path s = s\<lparr>wa_errDB := fails (wa_adds s) path, wa_adds := Suc (wa_adds s)\<rparr>"

definition add_shm :: "(nat \<Rightarrow> string \<Rightarrow> bool) \<Rightarrow> string \<Rightarrow> 'x watch_state \<Rightarrow> 'x watch_state" where
  "add_shm fails path s = s\<lparr>wa_errShm := fails (wa_adds s) (path @ ''-shm''), wa_adds := Suc (wa_adds s)\<rparr>"

definition add_wal :: "(nat \<Rightarrow> string \<Rightarrow> bool) \<Rightarrow> string \<Rightarrow> 'x watch_state \<Rightarrow> 'x watch_state" where
  "add_wal fails path s = s\<lparr>wa_errWal := fails (wa_adds s) (path @ ''-wal''), wa_adds := Suc (wa_adds s)\<rparr>"

definition add_all :: "(nat \<Rightarrow> string \<Rightarrow> bool) \<Rightarrow> string \<Rightarrow> 'x watch_state \<Rightarrow> 'x watch_state" where
  "add_all fails path s = add_wal fails path (add_shm fails path (add_db fails path s))"

definition add_failed :: "(nat \<Rightarrow> string \<Rightarrow> bool) \<Rightarrow> string \<Rightarrow> 'x watch_state \<Rightarrow> 'x watch_state" where
  "add_failed fails path s =
     (let s1 = if wa_errDB s then add_db fails path s else s;
          s2 = if wa_errShm s1 then add_shm fails path s1 else s1 in
      if wa_errWal s2 then add_wal fails path s2 else s2)"

text \<open>One round; an error of \<open>WithReadTx\<close>, also the end of the watch, makes the loop subscribe again and go on.\<close>

definition watch_round ::
  "db_env \<Rightarrow> u32 \<Rightarrow> 'x on_change \<Rightarrow> (nat \<Rightarrow> string \<Rightarrow> bool) \<Rightarrow> string \<Rightarrow> watch_in \<Rightarrow> ('x watch_state, unit) prog" where
  "watch_round env limit cb fails path i s =
     (case WithReadTx (opened_by i) (on_watch env limit cb i) (wa_sd s) of
        (Ok _, w) \<Rightarrow> (Ok (), add_failed fails path (s\<lparr>wa_sd := w\<rparr>))
      | (Err e, w) \<Rightarrow> (Ok (), add_failed fails path (add_all fails path (s\<lparr>wa_sd := w\<rparr>)))
      | (Panic p, w) \<Rightarrow> (Panic p, s\<lparr>wa_sd := w\<rparr>)
      | (Block, w) \<Rightarrow> (Block, s\<lparr>wa_sd := w\<rparr>))"

text \<open>The loop waits for ever when nothing more happens; a tick only arrives when there is a ticker.\<close>

fun watch_loop ::
  "db_env \<Rightarrow> u32 \<Rightarrow> 'x on_change \<Rightarrow> (nat \<Rightarrow> string \<Rightarrow> bool) \<Rightarrow> string \<Rightarrow> TimeoutPublisher \<Rightarrow> watch_in list \<Rightarrow> ('x watch_state, unit) prog" where
  "watch_loop env limit cb fails path t [] s = (Block, s)"
| "watch_loop env limit cb fails path t (i # is) s =
     (let t1 = tp_Reset t in
      if i = Tick \<and> \<not> tp_Channel t1 then watch_loop env limit cb fails path t1 is s
      else bindR (watch_round env limit cb fails path i) (\<lambda>_. watch_loop env limit cb fails path t1 is) s)"

definition watchChanges ::
  "db_env \<Rightarrow> u32 \<Rightarrow> 'x on_change \<Rightarrow> (nat \<Rightarrow> string \<Rightarrow> bool) \<Rightarrow> string \<Rightarrow> u32 \<Rightarrow> watch_in list \<Rightarrow> ('x watch_state, unit) prog" where
  "watchChanges env limit cb fails path pollingInterval is s =
     (let s1 = add_all fails path s in
      bindR (lift_res (NewTimeoutPublisher (uint pollingInterval * 1000000))) (\<lambda>t s1.
        case publishChangeLog env limit cb (wa_sd s1) of
          (Ok _, w) \<Rightarrow> watch_loop env limit cb fails path t is (s1\<lparr>wa_sd := w\<rparr>)
        | (Err e, w) \<Rightarrow> watch_loop env limit cb fails path t is (s1\<lparr>wa_sd := w\<rparr>)
        | (Panic p, w) \<Rightarrow> (Panic p, s1\<lparr>wa_sd := w\<rparr>)
        | (Block, w) \<Rightarrow> (Block, s1\<lparr>wa_sd := w\<rparr>)) s1)"

section \<open>Lemmas\<close>

lemma add_sd [simp]: "wa_sd (add_all fails path s) = wa_sd s" "wa_sd (add_failed fails path s) = wa_sd s"
  by (simp_all add: add_all_def add_failed_def add_db_def add_shm_def add_wal_def Let_def)

lemma NewTimeoutPublisher_u32: "\<exists>t. NewTimeoutPublisher (uint (d :: u32) * 1000000) = Ok t \<and> (tp_Channel t \<longleftrightarrow> d \<noteq> 0)"
  by (cases "d = 0") (auto simp: NewTimeoutPublisher_def tp_Channel_def uint_0_iff)

lemma tp_Reset_Channel: "tp_Channel t \<Longrightarrow> tp_Channel (tp_Reset t)"
  by (auto simp: tp_Channel_def tp_Reset_def split: option.splits)

lemma tp_Reset_None: "tp_ticker t = None \<Longrightarrow> tp_Reset t = t"
  by (simp add: tp_Reset_def)

text \<open>A callback that never fails; the state after a list of events.\<close>

definition cb_ok :: "(ChangeLogEvent \<Rightarrow> ('x, unit) prog) \<Rightarrow> bool" where
  "cb_ok f \<longleftrightarrow> (\<forall>e x. fst (f e x) = Ok ())"

definition after_all :: "(ChangeLogEvent \<Rightarrow> ('x, unit) prog) \<Rightarrow> ChangeLogEvent list \<Rightarrow> 'x \<Rightarrow> 'x" where
  "after_all f es x = fold (\<lambda>e x. snd (f e x)) es x"

lemma deliver_ok: "cb_ok f \<Longrightarrow> deliver f es x = (length es, after_all f es x)"
proof (induction es arbitrary: x)
  case (Cons e es)
  then have "f e x = (Ok (), snd (f e x))" by (metis cb_ok_def prod.collapse)
  with Cons show ?case by (auto simp: after_all_def retry_def split: prod.splits)
qed (simp add: after_all_def)

lemma cb_ok_returns: "cb_ok f \<Longrightarrow> deliver_returns f es x"
  by (rule cb_returns_deliver) (simp add: cb_ok_def cb_returns_def)

text \<open>\<open>drained env B f k w w'\<close>: \<open>k\<close> changes further, nothing else touched.\<close>

definition drained :: "db_env \<Rightarrow> nat set \<Rightarrow> (ChangeLogEvent \<Rightarrow> ('x, unit) prog) \<Rightarrow> nat \<Rightarrow> 'x StreamDB \<Rightarrow> 'x StreamDB \<Rightarrow> bool" where
  "drained env B f k w w' \<longleftrightarrow>
     pub_frame env B w w' \<and>
     pending (sd_prefix w) (sd_schema w) (sd_db w') = drop k (pending (sd_prefix w) (sd_schema w) (sd_db w)) \<and>
     sd_ext w' = after_all f (take k (pending (sd_prefix w) (sd_schema w) (sd_db w))) (sd_ext w)"

lemma drained_0: "db_ready env w B \<Longrightarrow> cdc_wf (sd_prefix w) (sd_schema w) (sd_db w) \<Longrightarrow> drained env B f 0 w w"
  by (simp add: drained_def pub_frame_def after_all_def)

lemma drained_trans:
  assumes "drained env B f k w w1" and "drained env B f l w1 w2"
  shows "drained env B f (k + l) w w2"
proof -
  let ?p = "pending (sd_prefix w) (sd_schema w) (sd_db w)"
  from assms have "pub_frame env B w w2" "sd_prefix w1 = sd_prefix w" "sd_schema w1 = sd_schema w"
    by (auto simp: drained_def pub_frame_def)
  moreover have "after_all f (take l (drop k ?p)) (after_all f (take k ?p) x) = after_all f (take (k + l) ?p) x" for x
    by (simp add: after_all_def take_add)
  ultimately show ?thesis using assms by (simp add: drained_def add.commute)
qed

lemma publish_drains:
  assumes h: "healthy env" and rdy: "db_ready env w B" and wf: "cdc_wf (sd_prefix w) (sd_schema w) (sd_db w)"
    and lock: "\<not> sd_publishLock w" and cb: "cb_ok f" and lim: "0 < limit"
  shows "\<exists>w'. publishChangeLog env limit (Some f) w = (Ok (), w') \<and> drained env B f (unat limit) w w' \<and> \<not> sd_publishLock w'"
proof -
  let ?p = "pending (sd_prefix w) (sd_schema w) (sd_db w)" and ?w = "w\<lparr>sd_publishLock := True\<rparr>"
  have n: "limit_rows (unat limit) ?p = take (unat limit) ?p" using lim by (simp add: limit_rows_def word_gt_0 unat_eq_zero)
  from publish_locked_healthy [OF h, of ?w B f limit] rdy wf cb_ok_returns [OF cb]
  obtain w' where w': "publish_locked env limit (Some f) ?w = (Ok (), w')" "pub_frame env B ?w w'"
    "sd_ext w' = after_all f (take (unat limit) ?p) (sd_ext w)"
    "pending (sd_prefix w) (sd_schema w) (sd_db w') = drop (length (take (unat limit) ?p)) ?p"
    by (auto simp: n deliver_ok [OF cb])
  have "drop (length (take (unat limit) ?p)) ?p = drop (unat limit) ?p" by (simp add: min_def)
  with w' lock pub_frame_unlock [OF w'(2) lock] show ?thesis
    by (auto simp: publishChangeLog_def drained_def)
qed

text \<open>The rounds that publish.\<close>

definition wakes :: "bool \<Rightarrow> watch_in list \<Rightarrow> nat" where
  "wakes ticking is = length (filter (\<lambda>i. i = FsEvent False \<or> (ticking \<and> i = Tick)) is)"

definition idle :: "db_env \<Rightarrow> nat set \<Rightarrow> 'x StreamDB \<Rightarrow> bool" where
  "idle env B w \<longleftrightarrow> db_ready env w B \<and> cdc_wf (sd_prefix w) (sd_schema w) (sd_db w) \<and> \<not> sd_publishLock w"

lemma drained_idle: "drained env B f k w w' \<Longrightarrow> \<not> sd_publishLock w' \<Longrightarrow> idle env B w'"
  by (auto simp: drained_def pub_frame_def idle_def)

lemma watch_round_drains:
  assumes h: "healthy env" and w: "idle env B (wa_sd s)" and cb: "cb_ok f" and lim: "0 < limit"
    and i: "i = Tick \<longrightarrow> ticking"
  shows "\<exists>s'. watch_round env limit (Some f) fails path i s = (Ok (), s') \<and>
     drained env B f (wakes ticking [i] * unat limit) (wa_sd s) (wa_sd s') \<and> \<not> sd_publishLock (wa_sd s')"
proof -
  from publish_drains [OF h _ _ _ cb lim, of "wa_sd s" B] w obtain w' where
    p: "publishChangeLog env limit (Some f) (wa_sd s) = (Ok (), w')" "drained env B f (unat limit) (wa_sd s) w'" "\<not> sd_publishLock w'"
    by (auto simp: idle_def)
  have z: "drained env B f 0 (wa_sd s) (wa_sd s)" "\<not> sd_publishLock (wa_sd s)" using w by (simp_all add: idle_def drained_0)
  show ?thesis using p z i
    by (cases i) (auto simp: watch_round_def WithReadTx_def bindR_def lift_res_def ret_def wakes_def)
qed

lemma watch_loop_drains:
  assumes "healthy env" and "idle env B (wa_sd s)" and "cb_ok f" and "0 < limit"
    and "tp_Channel t = ticking" and "\<not> ticking \<longrightarrow> tp_ticker t = None"
  shows "\<exists>s'. watch_loop env limit (Some f) fails path t is s = (Block, s') \<and>
     drained env B f (wakes ticking is * unat limit) (wa_sd s) (wa_sd s') \<and> \<not> sd_publishLock (wa_sd s')"
  using assms
proof (induction "is" arbitrary: s t)
  case Nil
  then show ?case by (simp add: idle_def wakes_def drained_0)
next
  case (Cons i js)
  have t1: "tp_Channel (tp_Reset t) = ticking" "\<not> ticking \<longrightarrow> tp_ticker (tp_Reset t) = None"
    using Cons.prems(5,6) by (auto simp: tp_Reset_Channel tp_Reset_None)
  show ?case
  proof (cases "i = Tick \<and> \<not> ticking")
    case True
    with Cons.IH [OF Cons.prems(1-4) t1] t1(1) show ?thesis by (auto simp: wakes_def Let_def)
  next
    case False
    from watch_round_drains [OF Cons.prems(1-4), of i ticking fails path] False obtain s1 where
      s1: "watch_round env limit (Some f) fails path i s = (Ok (), s1)"
      "drained env B f (wakes ticking [i] * unat limit) (wa_sd s) (wa_sd s1)" "\<not> sd_publishLock (wa_sd s1)" by blast
    from Cons.IH [OF Cons.prems(1) drained_idle [OF s1(2,3)] Cons.prems(3,4) t1] obtain s' where
      s': "watch_loop env limit (Some f) fails path (tp_Reset t) js s1 = (Block, s')"
      "drained env B f (wakes ticking js * unat limit) (wa_sd s1) (wa_sd s')" "\<not> sd_publishLock (wa_sd s')" by blast
    have "wakes ticking [i] * unat limit + wakes ticking js * unat limit = wakes ticking (i # js) * unat limit"
      by (simp add: wakes_def)
    with drained_trans [OF s1(2) s'(2)] s' s1(1) False t1(1) show ?thesis
      by (auto simp: bindR_def Let_def)
  qed
qed


definition wit_watch :: "ChangeLogEvent list watch_state" where
  "wit_watch = \<lparr>wa_sd = wit_pub_world, wa_adds = 0, wa_errDB = False, wa_errShm = False, wa_errWal = False\<rparr>"


end
