(* ===== verification/Config.thy ===== *)
theory Config
  imports Prelude
begin

text \<open>
  \<open>cfg/config.go\<close>: the configuration with its defaults, the node id (a hash of the machine id),
  loading a file over the defaults, and the parts of Go's \<open>path\<close> package it uses. The TOML
  decoder, the machine id and the working directory come from outside and are arguments.
\<close>

section \<open>Paths\<close>

text \<open>\<open>strings.Split(s, "/")\<close> and joining back.\<close>

fun split_slash :: "string \<Rightarrow> string list" where
  "split_slash [] = [[]]"
| "split_slash (c # cs) =
     (if c = CHR ''/'' then [] # split_slash cs
      else (case split_slash cs of [] \<Rightarrow> [[c]] | s # ss \<Rightarrow> (c # s) # ss))"

fun join_slash :: "string list \<Rightarrow> string" where
  "join_slash [] = []"
| "join_slash [s] = s"
| "join_slash (s # ss) = s @ CHR ''/'' # join_slash ss"

text \<open>\<open>path.Clean\<close>: drop empty and \<open>.\<close> elements, resolve \<open>..\<close> lexically.\<close>

fun clean_elems :: "bool \<Rightarrow> string list \<Rightarrow> string list \<Rightarrow> string list" where
  "clean_elems rooted acc [] = rev acc"
| "clean_elems rooted acc (e # es) =
     (if e = [] \<or> e = ''.'' then clean_elems rooted acc es
      else if e = ''..'' then
        (case acc of
           a # as \<Rightarrow> if a \<noteq> ''..'' then clean_elems rooted as es else clean_elems rooted (e # acc) es
         | [] \<Rightarrow> if rooted then clean_elems rooted [] es else clean_elems rooted [e] es)
      else clean_elems rooted (e # acc) es)"

definition path_Clean :: "string \<Rightarrow> string" where
  "path_Clean s =
     (let rooted = has_prefix s ''/''; es = clean_elems rooted [] (split_slash s) in
      if rooted then CHR ''/'' # join_slash es
      else if es = [] then ''.'' else join_slash es)"

definition path_Join :: "string list \<Rightarrow> string" where
  "path_Join elems =
     (case filter (\<lambda>e. e \<noteq> []) elems of [] \<Rightarrow> [] | es \<Rightarrow> path_Clean (join_slash es))"

text \<open>Everything up to the last slash.\<close>

definition path_Dir :: "string \<Rightarrow> string" where
  "path_Dir s = path_Clean (rev (dropWhile (\<lambda>c. c \<noteq> CHR ''/'') (rev s)))"

text \<open>\<open>filepath.Abs\<close>; the working directory may be unreadable.\<close>

definition filepath_Abs :: "string res \<Rightarrow> string \<Rightarrow> string res" where
  "filepath_Abs cwd p =
     (if has_prefix p ''/'' then Ok (path_Clean p) else bindE cwd (\<lambda>wd. Ok (path_Join [wd, p])))"

section \<open>The configuration\<close>

record ReplicationLogConfiguration =
  rl_Shards :: u64
  rl_MaxEntries :: int
  rl_Replicas :: int
  rl_Compress :: bool
  rl_UpdateExisting :: bool

record S3Configuration =
  s3_DirPath :: string
  s3_Endpoint :: string
  s3_AccessKey :: string
  s3_SecretKey :: string
  s3_SessionToken :: string
  s3_Bucket :: string
  s3_UseSSL :: bool

record ObjectStoreConfiguration =
  os_Replicas :: int
  os_BucketName :: string

text \<open>\<open>SnapshotStoreType\<close> is a string; these are its named values.\<close>

definition Nats :: string where "Nats = ''nats''"
definition S3 :: string where "S3 = ''s3''"
definition WebDAV :: string where "WebDAV = ''webdav''"
definition SFTP :: string where "SFTP = ''sftp''"

text \<open>\<open>WebDAVConfiguration\<close> and \<open>SFTPConfiguration\<close> are a single URL each.\<close>

record SnapshotConfiguration =
  sn_Enable :: bool
  sn_Interval :: u32
  sn_StoreType :: string
  sn_Nats :: ObjectStoreConfiguration
  sn_S3 :: S3Configuration
  sn_WebDAV :: string
  sn_SFTP :: string

record NATSConfiguration =
  nc_URLs :: "string list"
  nc_SubjectPrefix :: string
  nc_StreamPrefix :: string
  nc_ServerConfigFile :: string
  nc_SeedFile :: string
  nc_CredsUser :: string
  nc_CredsPassword :: string
  nc_CAFile :: string
  nc_CertFile :: string
  nc_KeyFile :: string
  nc_BindAddress :: string
  nc_ConnectRetries :: int
  nc_ReconnectWaitSeconds :: int

record LoggingConfiguration =
  lg_Verbose :: bool
  lg_Format :: string

record PrometheusConfiguration =
  pr_Bind :: string
  pr_Enable :: bool
  pr_Namespace :: string
  pr_Subsystem :: string

record Configuration =
  cf_SeqMapPath :: string
  cf_DBPath :: string
  cf_NodeID :: u64
  cf_Publish :: bool
  cf_Replicate :: bool
  cf_ScanMaxChanges :: u32
  cf_CleanupInterval :: u32
  cf_SleepTimeout :: u32
  cf_PollingInterval :: u32
  cf_Snapshot :: SnapshotConfiguration
  cf_ReplicationLog :: ReplicationLogConfiguration
  cf_NATS :: NATSConfiguration
  cf_Logging :: LoggingConfiguration
  cf_Prometheus :: PrometheusConfiguration

definition default_config :: "string \<Rightarrow> Configuration" where
  "default_config tmp =
     \<lparr>cf_SeqMapPath = path_Join [tmp, ''seq-map.cbor''], cf_DBPath = path_Join [tmp, ''marmot.db''],
      cf_NodeID = 0, cf_Publish = True, cf_Replicate = True, cf_ScanMaxChanges = 512,
      cf_CleanupInterval = 5000, cf_SleepTimeout = 0, cf_PollingInterval = 0,
      cf_Snapshot =
        \<lparr>sn_Enable = True, sn_Interval = 0, sn_StoreType = Nats,
         sn_Nats = \<lparr>os_Replicas = 1, os_BucketName = ''''\<rparr>,
         sn_S3 = \<lparr>s3_DirPath = '''', s3_Endpoint = '''', s3_AccessKey = '''', s3_SecretKey = '''',
                 s3_SessionToken = '''', s3_Bucket = '''', s3_UseSSL = False\<rparr>,
         sn_WebDAV = '''', sn_SFTP = ''''\<rparr>,
      cf_ReplicationLog =
        \<lparr>rl_Shards = 1, rl_MaxEntries = 1024, rl_Replicas = 1, rl_Compress = True, rl_UpdateExisting = False\<rparr>,
      cf_NATS =
        \<lparr>nc_URLs = [], nc_SubjectPrefix = ''marmot-change-log'', nc_StreamPrefix = ''marmot-changes'',
         nc_ServerConfigFile = '''', nc_SeedFile = '''', nc_CredsUser = '''', nc_CredsPassword = '''',
         nc_CAFile = '''', nc_CertFile = '''', nc_KeyFile = '''', nc_BindAddress = '':-1'',
         nc_ConnectRetries = 5, nc_ReconnectWaitSeconds = 2\<rparr>,
      cf_Logging = \<lparr>lg_Verbose = False, lg_Format = ''console''\<rparr>,
      cf_Prometheus = \<lparr>pr_Bind = '':3010'', pr_Enable = False, pr_Namespace = ''marmot'', pr_Subsystem = ''''\<rparr>\<rparr>"

text \<open>\<open>init\<close>: the machine id, or a random UUID when there is none.\<close>

definition cfg_init :: "string res \<Rightarrow> string \<Rightarrow> Configuration \<Rightarrow> Configuration" where
  "cfg_init machineid uuid c =
     (let ident = (case machineid of Ok i \<Rightarrow> i | _ \<Rightarrow> uuid) in c\<lparr>cf_NodeID := fnv64 (bytes_of ident)\<rparr>)"

text \<open>
  \<open>toml.DecodeFile\<close> fills the configuration in as far as it gets; its error is a missing file or
  any other. The state is the configuration and \<open>DataRootDir\<close>.
\<close>

datatype toml_result = TomlOk | TomlNotExist | TomlErr go_error

definition Load ::
  "(string \<Rightarrow> Configuration \<Rightarrow> toml_result \<times> Configuration) \<Rightarrow> string res \<Rightarrow> string \<Rightarrow>
   (Configuration \<times> string, unit) prog" where
  "Load decode cwd filePath s =
     (case decode filePath (fst s) of
        (TomlNotExist, c) \<Rightarrow> (Ok (), (c, snd s))
      | (TomlErr e, c) \<Rightarrow> (Err e, (c, snd s))
      | (TomlOk, c) \<Rightarrow>
          (case filepath_Abs cwd (path_Dir (cf_DBPath c)) of
             Ok root \<Rightarrow>
               (Ok (), (if cf_SeqMapPath c = '''' then c\<lparr>cf_SeqMapPath := path_Join [root, ''seq-map.cbor'']\<rparr>
                        else c, root))
           | Err e \<Rightarrow> (Err e, (c, ''''))
           | Panic p \<Rightarrow> (Panic p, (c, snd s))
           | Block \<Rightarrow> (Block, (c, snd s))))"

definition SnapshotStorageType :: "Configuration \<Rightarrow> string" where
  "SnapshotStorageType c = sn_StoreType (cf_Snapshot c)"

definition NodeNamePrefix :: string where
  "NodeNamePrefix = ''marmot-node''"

definition EmbeddedClusterName :: string where
  "EmbeddedClusterName = ''e-marmot''"

definition NodeName :: "Configuration \<Rightarrow> string" where
  "NodeName c = NodeNamePrefix @ ''-'' @ fmt_u64 (cf_NodeID c)"

section \<open>Lemmas\<close>

lemma split_slash_not_Nil [simp]: "split_slash s \<noteq> []"
  by (induction s) (auto split: list.splits)

lemma join_split_slash [simp]: "join_slash (split_slash s) = s"
proof (induction s)
  case (Cons c s)
  then show ?case
    by (cases "split_slash s") (auto split: list.splits, (cases "tl (split_slash s)"; simp)+)
qed simp

end
