(* ===== verification/Telemetry.thy ===== *)
theory Telemetry
  imports Config
begin

text \<open>
  \<open>telemetry/telemetry.go\<close>, \<open>utils/stop_watch.go\<close> and \<open>utils/deep.go\<close>. A statistic is a collector of the
  registry, or does nothing when telemetry is off. Prometheus is outside: \<open>prom_env\<close> holds its calls, on a
  registry \<open>'r\<close>. The rest of the program only writes statistics and never reads them, so no other theory
  depends on this one.
\<close>

section \<open>Statistics\<close>

datatype metric_kind = CounterKind | GaugeKind | HistogramKind

record metric =
  mt_kind :: metric_kind
  mt_Namespace :: string
  mt_Subsystem :: string
  mt_Name :: string
  mt_Help :: string
  mt_ConstLabels :: "(string \<times> string) list"

datatype stat = NoopStat | Collector metric

text \<open>The methods of the interfaces \<open>Counter\<close>, \<open>Gauge\<close> and \<open>Histogram\<close>; the values written are whole numbers.\<close>

datatype stat_op = Observe int | SetTo int | Inc | Dec | AddBy int | SubBy int | SetToCurrentTime

record 'r prom_env =
  pe_NewRegistry :: 'r
  pe_MustRegister :: "metric \<Rightarrow> ('r, unit) prog"
  pe_apply :: "metric \<Rightarrow> stat_op \<Rightarrow> 'r \<Rightarrow> 'r"

text \<open>The package's variable \<open>registry\<close>, nil until telemetry is initialised.\<close>

type_synonym 'r registry = "'r option"

definition stat_call :: "'r prom_env \<Rightarrow> stat \<Rightarrow> stat_op \<Rightarrow> 'r registry \<Rightarrow> 'r registry" where
  "stat_call env s op registry =
     (case s of NoopStat \<Rightarrow> registry | Collector m \<Rightarrow> map_option (pe_apply env m op) registry)"

definition new_stat :: "'r prom_env \<Rightarrow> Configuration \<Rightarrow> metric_kind \<Rightarrow> string \<Rightarrow> string \<Rightarrow> ('r registry, stat) prog" where
  "new_stat env c kind name help registry =
     (case registry of
        None \<Rightarrow> (Ok NoopStat, None)
      | Some r \<Rightarrow>
          (let m = \<lparr>mt_kind = kind, mt_Namespace = pr_Namespace (cf_Prometheus c), mt_Subsystem = pr_Subsystem (cf_Prometheus c),
                    mt_Name = name, mt_Help = help, mt_ConstLabels = [(''node_id'', fmt_u64 (cf_NodeID c))]\<rparr> in
           case pe_MustRegister env m r of
             (Ok _, r1) \<Rightarrow> (Ok (Collector m), Some r1)
           | (Err e, r1) \<Rightarrow> (Err e, Some r1)
           | (Panic p, r1) \<Rightarrow> (Panic p, Some r1)
           | (Block, r1) \<Rightarrow> (Block, Some r1)))"

definition NewCounter :: "'r prom_env \<Rightarrow> Configuration \<Rightarrow> string \<Rightarrow> string \<Rightarrow> ('r registry, stat) prog" where
  "NewCounter env c = new_stat env c CounterKind"

definition NewGauge :: "'r prom_env \<Rightarrow> Configuration \<Rightarrow> string \<Rightarrow> string \<Rightarrow> ('r registry, stat) prog" where
  "NewGauge env c = new_stat env c GaugeKind"

definition NewHistogram :: "'r prom_env \<Rightarrow> Configuration \<Rightarrow> string \<Rightarrow> string \<Rightarrow> ('r registry, stat) prog" where
  "NewHistogram env c = new_stat env c HistogramKind"

text \<open>The result is the address of the server that is started, if any.\<close>

definition InitializeTelemetry :: "'r prom_env \<Rightarrow> Configuration \<Rightarrow> 'r registry \<Rightarrow> string option \<times> 'r registry" where
  "InitializeTelemetry env c registry =
     (if \<not> pr_Enable (cf_Prometheus c) then (None, registry)
      else (Some (pr_Bind (cf_Prometheus c)), Some (pe_NewRegistry env)))"

text \<open>The statistics of a stream database.\<close>

record statsSqliteStreamDB =
  ss_published :: stat
  ss_pendingPublish :: stat
  ss_countChanges :: stat
  ss_scanChanges :: stat

definition new_stats :: "'r prom_env \<Rightarrow> Configuration \<Rightarrow> ('r registry, statsSqliteStreamDB) prog" where
  "new_stats env c =
     bindR (NewCounter env c ''published'' ''number of rows published'') (\<lambda>a.
     bindR (NewGauge env c ''pending_publish'' ''rows pending publishing'') (\<lambda>b.
     bindR (NewHistogram env c ''count_changes'' ''latency counting changes in microseconds'') (\<lambda>d.
     bindR (NewHistogram env c ''scan_changes'' ''latency scanning change rows in DB'') (\<lambda>e.
       ret \<lparr>ss_published = a, ss_pendingPublish = b, ss_countChanges = d, ss_scanChanges = e\<rparr>))))"

section \<open>The stop watch\<close>

record StopWatch =
  sw_startTime :: int
  sw_name :: string

definition NewStopWatch :: "string \<Rightarrow> int \<Rightarrow> StopWatch" where
  "NewStopWatch name now = \<lparr>sw_startTime = now, sw_name = name\<rparr>"

text \<open>Times in nanoseconds.\<close>

definition sw_Stop :: "StopWatch \<Rightarrow> int \<Rightarrow> int" where
  "sw_Stop t now = now - sw_startTime t"

text \<open>\<open>None\<close> is a nil histogram; the log line is left out.\<close>

definition sw_Log :: "'r prom_env \<Rightarrow> StopWatch \<Rightarrow> int \<Rightarrow> stat option \<Rightarrow> 'r registry \<Rightarrow> 'r registry" where
  "sw_Log env t now hist registry =
     (let dur = sw_Stop t now in
      case hist of None \<Rightarrow> registry | Some h \<Rightarrow> stat_call env h (Observe (dur div 1000)) registry)"

section \<open>Copying and comparing\<close>

text \<open>\<open>DeepCopy\<close>: encode the source and decode it into the destination; the CBOR coder is given.\<close>

definition DeepCopy :: "('a \<Rightarrow> bytes res) \<Rightarrow> (bytes \<Rightarrow> 'b \<Rightarrow> 'b res) \<Rightarrow> 'b \<Rightarrow> 'a \<Rightarrow> 'b res" where
  "DeepCopy enc dec dst src = bindE (enc src) (\<lambda>buf. dec buf dst)"

text \<open>The loop over the indices; \<open>eq\<close> is \<open>reflect.DeepEqual\<close>.\<close>

fun deep_equal_from :: "('a \<Rightarrow> 'a \<Rightarrow> bool) \<Rightarrow> nat \<Rightarrow> nat \<Rightarrow> 'a list \<Rightarrow> 'a list \<Rightarrow> bool" where
  "deep_equal_from eq 0 i a b = True"
| "deep_equal_from eq (Suc k) i a b = (if \<not> eq (a ! i) (b ! i) then False else deep_equal_from eq k (Suc i) a b)"

definition DeepEqualArray :: "('a \<Rightarrow> 'a \<Rightarrow> bool) \<Rightarrow> 'a list \<Rightarrow> 'a list \<Rightarrow> bool" where
  "DeepEqualArray eq a b = (if length a \<noteq> length b then False else deep_equal_from eq (length a) 0 a b)"

section \<open>Lemmas\<close>

lemma deep_equal_from_all: "deep_equal_from eq k i a b \<longleftrightarrow> (\<forall>j < k. eq (a ! (i + j)) (b ! (i + j)))"
proof (induction k arbitrary: i)
  case (Suc k)
  have "(\<forall>j < Suc k. eq (a ! (i + j)) (b ! (i + j))) \<longleftrightarrow> eq (a ! i) (b ! i) \<and> (\<forall>j < k. eq (a ! (Suc i + j)) (b ! (Suc i + j)))"
    by (auto simp: less_Suc_eq_0_disj)
  with Suc show ?case by simp
qed simp

text \<open>Two arrays are equal when their elements are, at every index.\<close>

lemma DeepEqualArray_list_all2: "DeepEqualArray eq a b = list_all2 eq a b"
  by (simp add: DeepEqualArray_def deep_equal_from_all list_all2_conv_all_nth)

text \<open>A copy is faithful when the coder is.\<close>

lemma DeepCopy_same: "enc src = Ok buf \<Longrightarrow> dec buf dst = Ok src \<Longrightarrow> DeepCopy enc dec dst src = Ok src"
  by (simp add: DeepCopy_def res_simps)

text \<open>With telemetry off the statistics are there and do nothing.\<close>

lemma telemetry_off:
  assumes "\<not> pr_Enable (cf_Prometheus c)"
  shows "InitializeTelemetry env c None = (None, None)"
    and "new_stats env c None = (Ok \<lparr>ss_published = NoopStat, ss_pendingPublish = NoopStat, ss_countChanges = NoopStat, ss_scanChanges = NoopStat\<rparr>, None)"
    and "stat_call env NoopStat op registry = registry"
  using assms by (simp_all add: InitializeTelemetry_def new_stats_def NewCounter_def NewGauge_def NewHistogram_def new_stat_def
      bindR_def ret_def stat_call_def)

text \<open>
  A registry refuses (by a panic) a collector whose full name it has, and takes any other; \<open>names r\<close> are
  the names it has.
\<close>

definition metric_id :: "metric \<Rightarrow> string \<times> string \<times> string" where
  "metric_id m = (mt_Namespace m, mt_Subsystem m, mt_Name m)"

definition prom_ok :: "'r prom_env \<Rightarrow> ('r \<Rightarrow> (string \<times> string \<times> string) set) \<Rightarrow> bool" where
  "prom_ok env names \<longleftrightarrow>
     names (pe_NewRegistry env) = {} \<and>
     (\<forall>m r. if metric_id m \<in> names r then \<exists>p r'. pe_MustRegister env m r = (Panic p, r')
            else \<exists>r'. pe_MustRegister env m r = (Ok (), r') \<and> names r' = insert (metric_id m) (names r))"

lemma new_stat_fresh:
  assumes "prom_ok env names" and "names r = N" and "(pr_Namespace (cf_Prometheus c), pr_Subsystem (cf_Prometheus c), name) \<notin> N"
  shows "\<exists>m r'. new_stat env c kind name help (Some r) = (Ok (Collector m), Some r') \<and>
    names r' = insert (pr_Namespace (cf_Prometheus c), pr_Subsystem (cf_Prometheus c), name) N"
proof -
  let ?m = "\<lparr>mt_kind = kind, mt_Namespace = pr_Namespace (cf_Prometheus c), mt_Subsystem = pr_Subsystem (cf_Prometheus c),
     mt_Name = name, mt_Help = help, mt_ConstLabels = [(''node_id'', fmt_u64 (cf_NodeID c))]\<rparr>"
  have id: "metric_id ?m = (pr_Namespace (cf_Prometheus c), pr_Subsystem (cf_Prometheus c), name)" by (simp add: metric_id_def)
  with assms obtain r' where "pe_MustRegister env ?m r = (Ok (), r')" "names r' = insert (metric_id ?m) N"
    unfolding prom_ok_def by metis
  then show ?thesis using id by (simp add: new_stat_def Let_def)
qed

text \<open>
  With telemetry on, the four statistics of the process's one database are registered under four names and
  nothing panics; a second database in the process would panic on the first of them.
\<close>

lemma telemetry_on:
  assumes ok: "prom_ok env names" and on: "pr_Enable (cf_Prometheus c)"
  shows "\<exists>s r. new_stats env c (snd (InitializeTelemetry env c None)) = (Ok s, Some r) \<and> card (names r) = 4 \<and>
     (\<exists>p r'. new_stats env c (Some r) = (Panic p, Some r'))"
proof -
  let ?id = "\<lambda>name. (pr_Namespace (cf_Prometheus c), pr_Subsystem (cf_Prometheus c), name)"
  let ?r0 = "pe_NewRegistry env"
  have n0: "names ?r0 = {}" using ok by (simp add: prom_ok_def)
  obtain m1 r1 where 1: "NewCounter env c ''published'' ''number of rows published'' (Some ?r0) = (Ok (Collector m1), Some r1)"
    "names r1 = {?id ''published''}"
    using new_stat_fresh [OF ok n0, of c "''published''"] unfolding NewCounter_def by blast
  have "?id ''pending_publish'' \<notin> {?id ''published''}" by simp
  from new_stat_fresh [OF ok 1(2) this]
  obtain m2 r2 where 2: "NewGauge env c ''pending_publish'' ''rows pending publishing'' (Some r1) = (Ok (Collector m2), Some r2)"
    "names r2 = {?id ''pending_publish'', ?id ''published''}" unfolding NewGauge_def by blast
  have "?id ''count_changes'' \<notin> {?id ''pending_publish'', ?id ''published''}" by simp
  from new_stat_fresh [OF ok 2(2) this]
  obtain m3 r3 where 3: "NewHistogram env c ''count_changes'' ''latency counting changes in microseconds'' (Some r2) = (Ok (Collector m3), Some r3)"
    "names r3 = {?id ''count_changes'', ?id ''pending_publish'', ?id ''published''}" unfolding NewHistogram_def by blast
  have "?id ''scan_changes'' \<notin> {?id ''count_changes'', ?id ''pending_publish'', ?id ''published''}" by simp
  from new_stat_fresh [OF ok 3(2) this]
  obtain m4 r4 where 4: "NewHistogram env c ''scan_changes'' ''latency scanning change rows in DB'' (Some r3) = (Ok (Collector m4), Some r4)"
    and n4: "names r4 = {?id ''scan_changes'', ?id ''count_changes'', ?id ''pending_publish'', ?id ''published''}" unfolding NewHistogram_def by blast
  have run: "new_stats env c (snd (InitializeTelemetry env c None)) =
      (Ok \<lparr>ss_published = Collector m1, ss_pendingPublish = Collector m2, ss_countChanges = Collector m3, ss_scanChanges = Collector m4\<rparr>, Some r4)"
    using on by (simp add: InitializeTelemetry_def new_stats_def bindR_def ret_def 1(1) 2(1) 3(1) 4)
  from n4 have card: "card (names r4) = 4" by simp
  let ?m = "\<lparr>mt_kind = CounterKind, mt_Namespace = pr_Namespace (cf_Prometheus c), mt_Subsystem = pr_Subsystem (cf_Prometheus c),
     mt_Name = ''published'', mt_Help = ''number of rows published'', mt_ConstLabels = [(''node_id'', fmt_u64 (cf_NodeID c))]\<rparr>"
  have "metric_id ?m \<in> names r4" by (simp add: n4 metric_id_def)
  then obtain p r' where "pe_MustRegister env ?m r4 = (Panic p, r')" using ok unfolding prom_ok_def by metis
  then have "new_stats env c (Some r4) = (Panic p, Some r')"
    by (simp add: new_stats_def NewCounter_def new_stat_def Let_def bindR_def)
  with run card show ?thesis by blast
qed

end
