(* ===== verification/RepState.thy ===== *)
theory RepState
  imports Prelude
begin

text \<open>
  \<open>logstream/replication_state.go\<close>: the highest sequence number processed of each stream, kept in
  memory and in a file that is rewritten in place at every step forward. The file system and the CBOR
  codec are outside: \<open>file_env\<close> says which operations fail (a write may stop after some bytes)
  and how maps are encoded. The locale \<open>seq_store\<close> is what the replicator relies on.
\<close>

section \<open>State and operations\<close>

type_synonym seqmap = "(string \<times> u64) list"

text \<open>\<open>rs_lock\<close>: the mutex is allocated; \<open>rs_fl\<close>: the open file's contents; \<open>rs_tick\<close> counts file operations.\<close>

record replicationState =
  rs_seq :: seqmap
  rs_lock :: bool
  rs_fl :: "bytes option"
  rs_tick :: nat

record file_env =
  fe_open :: "go_error option"
  fe_seek :: "nat \<Rightarrow> go_error option"
  fe_write :: "nat \<Rightarrow> (nat \<times> go_error) option"
  fe_enc :: "seqmap \<Rightarrow> bytes res"
  fe_dec :: "bytes \<Rightarrow> seqmap res"

definition rep_zero :: replicationState where
  "rep_zero = \<lparr>rs_seq = [], rs_lock = False, rs_fl = None, rs_tick = 0\<rparr>"

definition fl_seek :: "file_env \<Rightarrow> (replicationState, unit) prog" where
  "fl_seek env r =
     ((case fe_seek env (rs_tick r) of Some e \<Rightarrow> Err e | None \<Rightarrow> Ok ()), r\<lparr>rs_tick := Suc (rs_tick r)\<rparr>)"

text \<open>\<open>init\<close> on a file with contents \<open>disk\<close>; the decoder reads the first item of the file.\<close>

definition rep_init :: "file_env \<Rightarrow> bytes \<Rightarrow> (replicationState, unit) prog" where
  "rep_init env disk r =
     (case fe_open env of
        Some e \<Rightarrow> (Err e, r)
      | None \<Rightarrow>
          bindR (fl_seek env) (\<lambda>_ r1.
            if length disk < 1 then (Ok (), r1)
            else
              bindR (fl_seek env) (\<lambda>_ r2.
                case fe_dec env disk of
                  Ok m \<Rightarrow> (Ok (), r2\<lparr>rs_seq := m\<rparr>)
                | Err e \<Rightarrow> (Err e, r2)
                | Panic p \<Rightarrow> (Panic p, r2)
                | Block \<Rightarrow> (Block, r2)) r1)
            (r\<lparr>rs_seq := [], rs_lock := True, rs_fl := Some disk\<rparr>))"

text \<open>Writing at the start of the file, without truncating it.\<close>

definition overwrite :: "bytes \<Rightarrow> bytes \<Rightarrow> bytes" where
  "overwrite bs old = bs @ drop (length bs) old"

definition fl_encode :: "file_env \<Rightarrow> bytes \<Rightarrow> (replicationState, unit) prog" where
  "fl_encode env old r =
     (case fe_enc env (rs_seq r) of
        Ok bs \<Rightarrow>
          (case fe_write env (rs_tick r) of
             None \<Rightarrow> (Ok (), r\<lparr>rs_tick := Suc (rs_tick r), rs_fl := Some (overwrite bs old)\<rparr>)
           | Some (k, e) \<Rightarrow>
               (Err e, r\<lparr>rs_tick := Suc (rs_tick r), rs_fl := Some (overwrite (take k bs) old)\<rparr>))
      | Err e \<Rightarrow> (Err e, r)
      | Panic p \<Rightarrow> (Panic p, r)
      | Block \<Rightarrow> (Block, r))"

text \<open>The step forward: seek to the start, set the entry, encode the map over the file.\<close>

definition rep_forward :: "file_env \<Rightarrow> string \<Rightarrow> u64 \<Rightarrow> bytes \<Rightarrow> (replicationState, u64) prog" where
  "rep_forward env streamName seq content =
     bindR (fl_seek env) (\<lambda>_ r1.
       bindR (fl_encode env content) (\<lambda>_. ret seq)
         (r1\<lparr>rs_seq := AList.update streamName seq (rs_seq r1)\<rparr>))"

definition rep_save :: "file_env \<Rightarrow> string \<Rightarrow> u64 \<Rightarrow> (replicationState, u64) prog" where
  "rep_save env streamName seq r =
     (if \<not> rs_lock r then (Panic ''nil pointer dereference'', r)
      else
        (case rs_fl r of
           None \<Rightarrow> (Err ErrNotInitialized, r)
         | Some content \<Rightarrow>
             (case map_of (rs_seq r) streamName of
                Some old \<Rightarrow> if seq \<le> old then (Ok old, r) else rep_forward env streamName seq content r
              | None \<Rightarrow> rep_forward env streamName seq content r)))"

definition rep_get :: "string \<Rightarrow> replicationState \<Rightarrow> u64" where
  "rep_get streamName r = (case map_of (rs_seq r) streamName of Some old \<Rightarrow> old | None \<Rightarrow> 0)"

section \<open>What the codec and the file promise\<close>

text \<open>
  CBOR is self-delimiting: decoding an encoded map followed by anything gives the map back (in some
  order of its keys), and no map encodes to nothing. The codec does not panic.
\<close>

definition seq_codec :: "file_env \<Rightarrow> bool" where
  "seq_codec env \<longleftrightarrow>
     (\<forall>m. returns (fe_enc env m)) \<and> (\<forall>bs. returns (fe_dec env bs)) \<and>
     (\<forall>m bs rest. fe_enc env m = Ok bs \<longrightarrow>
        bs \<noteq> [] \<and> (\<exists>m'. fe_dec env (bs @ rest) = Ok m' \<and> map_of m' = map_of m))"

text \<open>No file operation fails and every map can be encoded.\<close>

definition file_healthy :: "file_env \<Rightarrow> bool" where
  "file_healthy env \<longleftrightarrow> fe_open env = None \<and> (\<forall>n. fe_seek env n = None) \<and> (\<forall>n. fe_write env n = None) \<and>
     (\<forall>m. is_ok (fe_enc env m))"

text \<open>Open, with the in-memory map on disk.\<close>

definition on_disk :: "file_env \<Rightarrow> replicationState \<Rightarrow> bool" where
  "on_disk env r \<longleftrightarrow> rs_lock r \<and>
     (\<exists>disk. rs_fl r = Some disk \<and>
        (if disk = [] then rs_seq r = []
         else \<exists>m. fe_dec env disk = Ok m \<and> map_of m = map_of (rs_seq r)))"

section \<open>The contract of a store of sequence numbers\<close>

text \<open>Any sequence of saves, failing or not.\<close>

fun save_all :: "(string \<Rightarrow> 'n \<Rightarrow> ('s, 'n) prog) \<Rightarrow> (string \<times> 'n) list \<Rightarrow> 's \<Rightarrow> 's" where
  "save_all save [] s = s"
| "save_all save ((x, q) # xs) s = save_all save xs (snd (save x q s))"

locale seq_store =
  fixes get :: "string \<Rightarrow> 's \<Rightarrow> 'n::linorder"
    and save :: "string \<Rightarrow> 'n \<Rightarrow> ('s, 'n) prog"
    and invar :: "'s \<Rightarrow> bool"
  assumes save_invar: "invar s \<Longrightarrow> save x q s = (r, t) \<Longrightarrow> invar t"
    and save_returns: "invar s \<Longrightarrow> returns (fst (save x q s))"
    and save_Ok: "invar s \<Longrightarrow> save x q s = (Ok v, t) \<Longrightarrow> v = max (get x s) q \<and> get x t = v"
    and save_mono: "invar s \<Longrightarrow> save x q s = (r, t) \<Longrightarrow> get y s \<le> get y t"
    and save_other: "invar s \<Longrightarrow> save x q s = (r, t) \<Longrightarrow> y \<noteq> x \<Longrightarrow> get y t = get y s"
    and save_bound: "invar s \<Longrightarrow> save x q s = (r, t) \<Longrightarrow> get x t \<le> max (get x s) q"
begin

lemma save_all_invar: "invar s \<Longrightarrow> invar (save_all save xs s)"
  by (induction xs arbitrary: s) (auto, metis prod.collapse save_invar)

lemma save_all_mono: "invar s \<Longrightarrow> get y s \<le> get y (save_all save xs s)"
proof (induction xs arbitrary: s)
  case (Cons a xs)
  obtain x q where a: "a = (x, q)" by (cases a)
  obtain r t where st: "save x q s = (r, t)" by (cases "save x q s")
  with Cons.IH [OF save_invar [OF Cons.prems st]] save_mono [OF Cons.prems st, of y] show ?case
    by (simp add: a)
qed simp

end

section \<open>Lemmas\<close>

lemma map_of_AList_update: "map_of (AList.update k v m) = (map_of m)(k \<mapsto> v)"
  by (rule update_conv')

lemma rep_get_update:
  "rep_get x (r\<lparr>rs_seq := AList.update y q (rs_seq r)\<rparr>) = (if x = y then q else rep_get x r)"
  by (simp add: rep_get_def map_of_AList_update)

text \<open>The outcome of \<open>save\<close> on an open state.\<close>

lemma rep_save_cases:
  assumes "rs_lock r" and "rs_fl r = Some content"
  obtains (old) old where "map_of (rs_seq r) x = Some old" "q \<le> old" "rep_save env x q r = (Ok old, r)"
  | (seek) e where "rep_save env x q r = (Err e, r\<lparr>rs_tick := Suc (rs_tick r)\<rparr>)" "fe_seek env (rs_tick r) = Some e"
  | (step) "fe_seek env (rs_tick r) = None" "rep_get x r < q \<or> map_of (rs_seq r) x = None"
      "rep_save env x q r = bindR (fl_encode env content) (\<lambda>_. ret q)
         (r\<lparr>rs_tick := Suc (rs_tick r), rs_seq := AList.update x q (rs_seq r)\<rparr>)"
proof -
  have fwd: "rep_forward env x q content r = (case fe_seek env (rs_tick r) of
      Some e \<Rightarrow> (Err e, r\<lparr>rs_tick := Suc (rs_tick r)\<rparr>)
    | None \<Rightarrow> bindR (fl_encode env content) (\<lambda>_. ret q) (r\<lparr>rs_tick := Suc (rs_tick r), rs_seq := AList.update x q (rs_seq r)\<rparr>))"
    by (simp add: rep_forward_def bindR_def fl_seek_def split: option.splits)
  show ?thesis
  proof (cases "\<exists>old. map_of (rs_seq r) x = Some old \<and> q \<le> old")
    case True
    with assms old show ?thesis by (auto simp: rep_save_def)
  next
    case False
    then have "rep_save env x q r = rep_forward env x q content r" "rep_get x r < q \<or> map_of (rs_seq r) x = None"
      using assms by (auto simp: rep_save_def rep_get_def not_le split: option.splits)
    with fwd seek step show ?thesis by (cases "fe_seek env (rs_tick r)") auto
  qed
qed

lemma fl_encode_frame: "fl_encode env old r = (x, r') \<Longrightarrow> rs_seq r' = rs_seq r \<and> rs_lock r' = rs_lock r \<and>
    (rs_fl r \<noteq> None \<longrightarrow> rs_fl r' \<noteq> None)"
  by (auto simp: fl_encode_def split: res.splits option.splits prod.splits)

lemma fl_encode_cases:
  assumes "seq_codec env"
  obtains bs where "fe_enc env (rs_seq r) = Ok bs" "fe_write env (rs_tick r) = None"
      "fl_encode env old r = (Ok (), r\<lparr>rs_tick := Suc (rs_tick r), rs_fl := Some (overwrite bs old)\<rparr>)"
  | bs k e where "fe_write env (rs_tick r) = Some (k, e)"
      "fl_encode env old r = (Err e, r\<lparr>rs_tick := Suc (rs_tick r), rs_fl := Some (overwrite (take k bs) old)\<rparr>)"
  | e where "fe_enc env (rs_seq r) = Err e" "fl_encode env old r = (Err e, r)"
proof -
  have "returns (fe_enc env (rs_seq r))" using assms by (simp add: seq_codec_def)
  then show ?thesis
  proof (cases rule: returnsE)
    case (1 bs)
    then show ?thesis using that by (cases "fe_write env (rs_tick r)") (auto simp: fl_encode_def)
  next
    case (2 e)
    then show ?thesis using that(3) by (simp add: fl_encode_def)
  qed
qed

definition rep_open :: "replicationState \<Rightarrow> bool" where
  "rep_open r \<longleftrightarrow> rs_lock r \<and> rs_fl r \<noteq> None"

text \<open>What a save does, in all its outcomes.\<close>

lemma rep_save_outcome:
  assumes cod: "seq_codec env" and op: "rep_open r" and sv: "rep_save env x q r = (v, r')"
  shows "rep_open r' \<and> returns v \<and> (\<forall>n. v = Ok n \<longrightarrow> n = max (rep_get x r) q \<and> rep_get x r' = n) \<and>
     rep_get x r \<le> rep_get x r' \<and> rep_get x r' \<le> max (rep_get x r) q \<and> (\<forall>y. y \<noteq> x \<longrightarrow> rep_get y r' = rep_get y r)"
proof -
  from op obtain content where c: "rs_lock r" "rs_fl r = Some content" by (auto simp: rep_open_def)
  from c show ?thesis
  proof (cases rule: rep_save_cases [of r content x q env])
    case (old o')
    with sv op show ?thesis by (auto simp: rep_get_def max_def)
  next
    case (seek e)
    with sv op show ?thesis by (auto simp: rep_open_def rep_get_def)
  next
    case step
    let ?r = "r\<lparr>rs_tick := Suc (rs_tick r), rs_seq := AList.update x q (rs_seq r)\<rparr>"
    have le: "rep_get x r \<le> q" using step(2) by (auto simp: rep_get_def)
    have get: "rep_get y ?r = (if y = x then q else rep_get y r)" for y
      by (simp add: rep_get_def map_of_AList_update)
    obtain w r1 where en: "fl_encode env content ?r = (w, r1)" by (cases "fl_encode env content ?r")
    have eq: "rep_get y r1 = rep_get y ?r" for y using fl_encode_frame [OF en] by (simp add: rep_get_def)
    have "rep_open r1" using fl_encode_frame [OF en] c by (auto simp: rep_open_def)
    moreover have "returns w" by (rule fl_encode_cases [OF cod, of ?r content]) (use en in auto)
    moreover have "r' = r1 \<and> (v = Ok q \<or> (\<exists>e. v = Err e))"
      using sv step(3) en \<open>returns w\<close> by (cases w) (auto simp: bindR_def ret_def)
    ultimately show ?thesis using eq get le by (auto simp: max_def)
  qed
qed

text \<open>Without failures a save succeeds; one that is not a step forward changes nothing.\<close>

lemma rep_save_healthy:
  assumes cod: "seq_codec env" and h: "file_healthy env" and op: "rep_open r"
  shows "\<exists>t. rep_save env x q r = (Ok (max (rep_get x r) q), t) \<and> rep_open t \<and> rep_get x t = max (rep_get x r) q"
proof -
  from op obtain content where c: "rs_lock r" "rs_fl r = Some content" by (auto simp: rep_open_def)
  obtain v t where sv: "rep_save env x q r = (v, t)" by (cases "rep_save env x q r")
  from c have "is_ok v"
  proof (cases rule: rep_save_cases [of r content x q env])
    case (seek e)
    with h show ?thesis by (simp add: file_healthy_def)
  next
    case step
    obtain bs where "fe_enc env (AList.update x q (rs_seq r)) = Ok bs" using h unfolding file_healthy_def is_ok_iff by blast
    with sv h step(3) show ?thesis by (auto simp: bindR_def fl_encode_def file_healthy_def ret_def)
  qed (use sv in auto)
  with rep_save_outcome [OF cod op sv] sv show ?thesis by (auto simp: is_ok_iff)
qed

lemma rep_save_stale:
  assumes "rep_open r" and "q \<le> rep_get x r" and "0 < q"
  shows "rep_save env x q r = (Ok (rep_get x r), r)"
  using assms by (auto simp: rep_save_def rep_open_def rep_get_def split: option.splits)

interpretation repst: seq_store rep_get "rep_save env" "\<lambda>r. seq_codec env \<and> rep_open r" for env
proof unfold_locales
  fix s t :: replicationState and x y q r v
  assume i: "seq_codec env \<and> rep_open s"
  show "returns (fst (rep_save env x q s))"
    using rep_save_outcome [of env s x q] i by (cases "rep_save env x q s") auto
  show "v = max (rep_get x s) q \<and> rep_get x t = v" if "rep_save env x q s = (Ok v, t)"
    using rep_save_outcome [OF _ _ that] i by simp
  assume sv: "rep_save env x q s = (r, t)"
  note o = rep_save_outcome [OF _ _ sv]
  show "seq_codec env \<and> rep_open t" "rep_get x t \<le> max (rep_get x s) q" using o i by auto
  show "rep_get y t = rep_get y s" if "y \<noteq> x" using o i that by simp
  show "rep_get y s \<le> rep_get y t" using o i by (cases "y = x") auto
qed


section \<open>Restarts\<close>

lemma on_disk_init:
  assumes "seq_codec env" and "rep_init env disk r0 = (Ok (), r)"
  shows "on_disk env r \<and> rep_open r"
proof -
  let ?r = "r0\<lparr>rs_seq := [], rs_lock := True, rs_fl := Some disk\<rparr>"
  have o: "fe_open env = None" using assms(2) by (cases "fe_open env") (simp_all add: rep_init_def)
  have s: "fe_seek env n = None \<or> (\<exists>e. fl_seek env v = (Err e, v\<lparr>rs_tick := Suc n\<rparr>))" if "rs_tick v = n" for n v
    using that by (auto simp: fl_seek_def split: option.splits)
  show ?thesis
  proof (cases "disk = []")
    case True
    then have "r = ?r\<lparr>rs_tick := Suc (rs_tick r0)\<rparr>"
      using assms(2) o s [of ?r "rs_tick r0"] by (auto simp: rep_init_def bindR_def fl_seek_def)
    with True show ?thesis by (simp add: on_disk_def rep_open_def)
  next
    case False
    then have "r = ?r\<lparr>rs_tick := Suc (Suc (rs_tick r0)), rs_seq := rs_seq r\<rparr> \<and> fe_dec env disk = Ok (rs_seq r)"
      using assms(2) o by (auto simp: rep_init_def bindR_def fl_seek_def Suc_le_eq split: option.splits res.splits)
    with False show ?thesis
      by (metis (no_types, lifting) on_disk_def option.distinct(1) rep_open_def replicationState.select_convs(2,3)
          replicationState.surjective replicationState.update_convs(1-4))
  qed
qed

lemma on_disk_save:
  assumes cod: "seq_codec env" and h: "file_healthy env" and d: "on_disk env r"
  shows "on_disk env (snd (rep_save env x q r))"
proof -
  from d obtain content where c: "rs_lock r" "rs_fl r = Some content" by (auto simp: on_disk_def)
  from c show ?thesis
  proof (cases rule: rep_save_cases [of r content x q env])
    case (old o')
    with d show ?thesis by simp
  next
    case (seek e)
    with h show ?thesis by (simp add: file_healthy_def)
  next
    case step
    let ?r = "r\<lparr>rs_tick := Suc (rs_tick r), rs_seq := AList.update x q (rs_seq r)\<rparr>"
    from h obtain bs where bs: "fe_enc env (rs_seq ?r) = Ok bs" unfolding file_healthy_def is_ok_iff by blast
    with cod obtain m where m: "bs \<noteq> []" "fe_dec env (overwrite bs content) = Ok m" "map_of m = map_of (rs_seq ?r)"
      unfolding seq_codec_def overwrite_def by metis
    have "rep_save env x q r = (Ok q, ?r\<lparr>rs_tick := Suc (rs_tick ?r), rs_fl := Some (overwrite bs content)\<rparr>)"
      using step(3) bs h by (simp add: bindR_def fl_encode_def file_healthy_def ret_def)
    with m c(1) show ?thesis by (simp add: on_disk_def overwrite_def)
  qed
qed

lemma on_disk_save_all:
  assumes "seq_codec env" and "file_healthy env"
  shows "on_disk env r \<Longrightarrow> on_disk env (save_all (rep_save env) xs r)"
proof (induction xs arbitrary: r)
  case (Cons a xs)
  from Cons.IH [OF on_disk_save [OF assms Cons.prems]] show ?case by (cases a) simp
qed simp

lemma on_disk_reload:
  assumes "file_healthy env" and "on_disk env r"
  shows "\<exists>disk r'. rs_fl r = Some disk \<and> rep_init env disk rep_zero = (Ok (), r') \<and> (\<forall>x. rep_get x r' = rep_get x r)"
  using assms by (auto simp: on_disk_def rep_init_def bindR_def fl_seek_def file_healthy_def rep_get_def rep_zero_def
      split: if_splits)

section \<open>Concrete data\<close>

text \<open>A codec: a map as numbers (key length, key, value), each number in unary, zero-terminated.\<close>

definition wit_nats :: "seqmap \<Rightarrow> nat list" where
  "wit_nats m = concat (map (\<lambda>(k, q). length k # map of_char k @ [unat q]) m)"

fun wit_unnats :: "nat \<Rightarrow> nat list \<Rightarrow> seqmap" where
  "wit_unnats (Suc f) (n # ns) = (map char_of (take n ns), of_nat (ns ! n)) # wit_unnats f (drop (Suc n) ns)"
| "wit_unnats _ _ = []"

definition wit_bytes :: "nat list \<Rightarrow> bytes" where
  "wit_bytes ns = concat (map (\<lambda>n. replicate (Suc n) 1 @ [0]) ns) @ [0]"

fun wit_scan :: "nat \<Rightarrow> bytes \<Rightarrow> nat list" where
  "wit_scan c [] = []"
| "wit_scan c (b # bs) =
     (if b \<noteq> 0 then wit_scan (Suc c) bs else if c = 0 then [] else (c - 1) # wit_scan 0 bs)"

definition wit_file :: file_env where
  "wit_file = \<lparr>fe_open = None, fe_seek = (\<lambda>_. None), fe_write = (\<lambda>_. None),
     fe_enc = (\<lambda>m. Ok (wit_bytes (wit_nats m))),
     fe_dec = (\<lambda>bs. Ok (wit_unnats (length bs) (wit_scan 0 bs)))\<rparr>"

lemma wit_scan_replicate: "wit_scan c (replicate k 1 @ xs) = wit_scan (c + k) xs"
  by (induction k arbitrary: c) auto

lemma wit_scan_bytes: "wit_scan 0 (wit_bytes ns @ rest) = ns"
  by (induction ns) (simp_all add: wit_bytes_def wit_scan_replicate del: replicate_Suc)

lemma wit_unnats_nats: "length m \<le> f \<Longrightarrow> wit_unnats f (wit_nats m) = m"
proof (induction m arbitrary: f)
  case (Cons a m)
  obtain k q where a: "a = (k, q)" by (cases a)
  from Cons.prems obtain f' where f: "f = Suc f'" "length m \<le> f'" by (cases f) auto
  have "wit_nats (a # m) = length k # (map of_char k @ [unat q]) @ wit_nats m" by (simp add: wit_nats_def a)
  with Cons.IH [OF f(2)] f show ?case by (simp add: a nth_append comp_def)
qed (cases f, simp_all add: wit_nats_def)

lemma wit_codec_seq: "seq_codec wit_file"
proof -
  have len: "length m \<le> length (wit_bytes (wit_nats m) @ rest)" for m :: seqmap and rest
  proof -
    have "length m \<le> length (wit_nats m)" by (induction m) (auto simp: wit_nats_def)
    also have "length ns \<le> length (wit_bytes ns)" for ns by (induction ns) (auto simp: wit_bytes_def)
    finally show ?thesis by simp
  qed
  show ?thesis
    unfolding seq_codec_def
    by (auto simp: wit_file_def wit_scan_bytes wit_unnats_nats len simp del: length_append) (simp add: wit_bytes_def)
qed

lemma wit_file_healthy: "file_healthy wit_file"
  by (simp add: file_healthy_def wit_file_def)

section \<open>Properties\<close>

text \<open>
  C21: the saved sequence number of a stream never goes back, whatever sequence of saves is made in
  whatever order and whichever file operations fail; a successful \<open>save\<close> returns, and makes
  \<open>get\<close> return, the larger of the saved number and the new one, and touches no other stream.
\<close>

theorem saved_sequence_monotone:
  assumes "seq_codec env" and "rep_open r"
  shows "rep_get y r \<le> rep_get y (save_all (rep_save env) xs r) \<and>
     (\<forall>v r'. rep_save env x q r = (Ok v, r') \<longrightarrow>
        v = max (rep_get x r) q \<and> rep_get x r' = v \<and> (\<forall>z. z \<noteq> x \<longrightarrow> rep_get z r' = rep_get z r))"
  using assms repst.save_all_mono [of env r y xs] repst.save_Ok [of env r x q] repst.save_other [of env r x q]
  by blast

definition wit_rep :: replicationState where
  "wit_rep = \<lparr>rs_seq = [(''s-1'', 7)], rs_lock = True, rs_fl = Some (wit_bytes (wit_nats [(''s-1'', 7)])), rs_tick = 0\<rparr>"

theorem saved_sequence_monotone_witness:
  "rep_get ''s-1'' wit_rep = 7 \<and> 7 \<le> rep_get ''s-1'' (save_all (rep_save wit_file) [(''s-1'', 3), (''s-2'', 1)] wit_rep) \<and>
   fst (rep_save wit_file ''s-1'' 3 wit_rep) = Ok 7"
proof -
  have "rep_open wit_rep" and g: "rep_get ''s-1'' wit_rep = 7" by (simp_all add: rep_open_def wit_rep_def rep_get_def)
  from saved_sequence_monotone [OF wit_codec_seq this(1), of "''s-1''" "[(''s-1'', 3), (''s-2'', 1)]" "''s-1''" 3] g
  show ?thesis by (auto simp: rep_save_def wit_rep_def)
qed



end
