(* ===== verification/MetaStore.thy ===== *)
theory MetaStore
  imports Prelude
begin

text \<open>
  \<open>logstream/replicator_meta_store.go\<close>: a lease kept in a NATS key-value bucket, so that one
  node at a time saves a snapshot. The bucket is the NATS library's: its three calls are arguments
  (\<open>kv_ops\<close>), what is documented of them is \<open>kv_contract\<close>: an update needs the current
  revision, a create needs the key to be absent, revisions only grow. A call that reports an error may
  still have been carried out.
\<close>

section \<open>Operations\<close>

record 'k kv_ops =
  kv_get :: "string \<Rightarrow> ('k, bytes \<times> u64) prog"
  kv_create :: "string \<Rightarrow> bytes \<Rightarrow> ('k, u64) prog"
  kv_update :: "string \<Rightarrow> bytes \<Rightarrow> u64 \<Rightarrow> ('k, u64) prog"

record replicatorLockInfo =
  li_NodeID :: u64
  li_Timestamp :: int

text \<open>CBOR of the lock info; decoding starts from the struct it is given.\<close>

record lock_codec =
  lc_Serialize :: "replicatorLockInfo \<Rightarrow> bytes res"
  lc_DeserializeFrom :: "bytes \<Rightarrow> replicatorLockInfo \<Rightarrow> replicatorLockInfo res"

text \<open>Addition of \<open>int64\<close> wraps.\<close>

definition wrap64 :: "int \<Rightarrow> int" where
  "wrap64 i = signed_take_bit 63 i"

text \<open>The bucket holds an entry: is it ours to take?\<close>

definition lease_take ::
  "'k kv_ops \<Rightarrow> lock_codec \<Rightarrow> u64 \<Rightarrow> int \<Rightarrow> string \<Rightarrow> int \<Rightarrow> bytes \<Rightarrow> bytes \<times> u64 \<Rightarrow> ('k, bool) prog" where
  "lease_take ops lc nodeID now name durationMs payload entry k =
     (case lc_DeserializeFrom lc (fst entry) \<lparr>li_NodeID = nodeID, li_Timestamp = now\<rparr> of
        Ok info \<Rightarrow>
          if li_NodeID info \<noteq> nodeID \<and> wrap64 (li_Timestamp info + durationMs) > now then (Ok False, k)
          else
            (case kv_update ops name payload (snd entry) k of
               (Ok _, k1) \<Rightarrow> (Ok True, k1)
             | (Err e, k1) \<Rightarrow> (Err e, k1)
             | (Panic p, k1) \<Rightarrow> (Panic p, k1)
             | (Block, k1) \<Rightarrow> (Block, k1))
      | Err e \<Rightarrow> (Err e, k)
      | Panic p \<Rightarrow> (Panic p, k)
      | Block \<Rightarrow> (Block, k))"

text \<open>
  What follows the \<open>Get\<close>: create the key when it was absent (a create without an error and
  without a revision would go on to a nil entry), else look at the entry.
\<close>

definition lease_commit ::
  "'k kv_ops \<Rightarrow> lock_codec \<Rightarrow> u64 \<Rightarrow> int \<Rightarrow> string \<Rightarrow> int \<Rightarrow> bytes \<Rightarrow> (bytes \<times> u64) res \<Rightarrow> ('k, bool) prog" where
  "lease_commit ops lc nodeID now name durationMs payload got k =
     (case got of
        Ok entry \<Rightarrow> lease_take ops lc nodeID now name durationMs payload entry k
      | Err e \<Rightarrow>
          if e = NatsErrKeyNotFound then
            (case kv_create ops name payload k of
               (Ok rv, k1) \<Rightarrow> if rv \<noteq> 0 then (Ok True, k1) else (Panic ''nil pointer dereference'', k1)
             | (Err e1, k1) \<Rightarrow> (Err e1, k1)
             | (Panic p, k1) \<Rightarrow> (Panic p, k1)
             | (Block, k1) \<Rightarrow> (Block, k1))
          else (Err e, k)
      | Panic p \<Rightarrow> (Panic p, k)
      | Block \<Rightarrow> (Block, k))"

definition AcquireLease ::
  "'k kv_ops \<Rightarrow> lock_codec \<Rightarrow> u64 \<Rightarrow> int \<Rightarrow> string \<Rightarrow> int \<Rightarrow> ('k, bool) prog" where
  "AcquireLease ops lc nodeID now name durationMs k =
     (case lc_Serialize lc \<lparr>li_NodeID = nodeID, li_Timestamp = now\<rparr> of
        Ok payload \<Rightarrow>
          (case kv_get ops name k of
             (got, k1) \<Rightarrow> lease_commit ops lc nodeID now name durationMs payload got k1)
      | Err e \<Rightarrow> (Err e, k)
      | Panic p \<Rightarrow> (Panic p, k)
      | Block \<Rightarrow> (Block, k))"

section \<open>What the bucket and the codec promise\<close>

text \<open>A write of \<open>v\<close> at \<open>name\<close> that took place, with its new revision.\<close>

definition kv_wrote ::
  "('k \<Rightarrow> string \<Rightarrow> (bytes \<times> u64) option) \<Rightarrow> ('k \<Rightarrow> u64) \<Rightarrow> string \<Rightarrow> bytes \<Rightarrow> 'k \<Rightarrow> 'k \<Rightarrow> u64 \<Rightarrow> bool" where
  "kv_wrote look lastrev name v k k' rv \<longleftrightarrow>
     lastrev k < rv \<and> lastrev k' = rv \<and> look k' = (look k)(name \<mapsto> (v, rv))"

definition kv_same ::
  "('k \<Rightarrow> string \<Rightarrow> (bytes \<times> u64) option) \<Rightarrow> ('k \<Rightarrow> u64) \<Rightarrow> 'k \<Rightarrow> 'k \<Rightarrow> bool" where
  "kv_same look lastrev k k' \<longleftrightarrow> look k' = look k \<and> lastrev k' = lastrev k"

definition kv_get_ok ::
  "'k kv_ops \<Rightarrow> ('k \<Rightarrow> string \<Rightarrow> (bytes \<times> u64) option) \<Rightarrow> ('k \<Rightarrow> u64) \<Rightarrow> bool" where
  "kv_get_ok ops look lastrev \<longleftrightarrow>
     (\<forall>name k r k'. kv_get ops name k = (r, k') \<longrightarrow>
        returns r \<and> kv_same look lastrev k k' \<and> (\<forall>e. r = Ok e \<longrightarrow> look k name = Some e))"

text \<open>The outcome \<open>r\<close> of a write of \<open>v\<close> that needs \<open>pre\<close>.\<close>

definition kv_write_ok ::
  "('k \<Rightarrow> string \<Rightarrow> (bytes \<times> u64) option) \<Rightarrow> ('k \<Rightarrow> u64) \<Rightarrow> string \<Rightarrow> bytes \<Rightarrow> bool \<Rightarrow> 'k \<Rightarrow> u64 res \<Rightarrow> 'k \<Rightarrow> bool" where
  "kv_write_ok look lastrev name v pre k r k' \<longleftrightarrow>
     returns r \<and>
     (kv_same look lastrev k k' \<and> \<not> is_ok r \<or>
      pre \<and> (\<exists>rv. kv_wrote look lastrev name v k k' rv \<and> (\<forall>x. r = Ok x \<longrightarrow> x = rv)))"

definition kv_contract ::
  "'k kv_ops \<Rightarrow> ('k \<Rightarrow> string \<Rightarrow> (bytes \<times> u64) option) \<Rightarrow> ('k \<Rightarrow> u64) \<Rightarrow> bool" where
  "kv_contract ops look lastrev \<longleftrightarrow>
     (\<forall>k name v rv. look k name = Some (v, rv) \<longrightarrow> rv \<le> lastrev k) \<and>
     kv_get_ok ops look lastrev \<and>
     (\<forall>name v k r k'. kv_create ops name v k = (r, k') \<longrightarrow>
        kv_write_ok look lastrev name v (look k name = None) k r k') \<and>
     (\<forall>name v old k r k'. kv_update ops name v old k = (r, k') \<longrightarrow>
        kv_write_ok look lastrev name v (\<exists>v0. look k name = Some (v0, old)) k r k')"

definition lock_codec_ok :: "lock_codec \<Rightarrow> bool" where
  "lock_codec_ok lc \<longleftrightarrow>
     (\<forall>i. returns (lc_Serialize lc i)) \<and> (\<forall>bs j. returns (lc_DeserializeFrom lc bs j)) \<and>
     (\<forall>i bs j. lc_Serialize lc i = Ok bs \<longrightarrow> lc_DeserializeFrom lc bs j = Ok i)"

section \<open>Nodes competing for a lease\<close>

text \<open>
  Each node is idle or between its \<open>Get\<close> and the rest of \<open>AcquireLease\<close>, where the other
  nodes may come in. Every node has its own clock, which does not go back; nothing relates the clocks
  of different nodes. \<open>ls_hist\<close> records every write of the key: who, and with which timestamp.
\<close>

datatype lease_pc = LIdle | LRead int "(bytes \<times> u64) res"

record 'k lease_state =
  ls_kv :: 'k
  ls_pc :: "u64 \<Rightarrow> lease_pc"
  ls_clock :: "u64 \<Rightarrow> int"
  ls_hist :: "(u64 \<times> int) list"

inductive lease_reach ::
  "'k kv_ops \<Rightarrow> lock_codec \<Rightarrow> ('k \<Rightarrow> string \<Rightarrow> (bytes \<times> u64) option) \<Rightarrow> string \<Rightarrow> int \<Rightarrow> 'k lease_state \<Rightarrow> bool"
  for ops lc look name dur where
  start: "look k name = None \<Longrightarrow> (\<And>n. 0 \<le> c n \<and> c n < 2 ^ 62) \<Longrightarrow>
    lease_reach ops lc look name dur \<lparr>ls_kv = k, ls_pc = (\<lambda>_. LIdle), ls_clock = c, ls_hist = []\<rparr>"
| tick: "lease_reach ops lc look name dur s \<Longrightarrow> ls_clock s n \<le> t \<Longrightarrow> t < 2 ^ 62 \<Longrightarrow>
    lease_reach ops lc look name dur (s\<lparr>ls_clock := (ls_clock s)(n := t)\<rparr>)"
| fetch: "lease_reach ops lc look name dur s \<Longrightarrow> ls_pc s n = LIdle \<Longrightarrow> kv_get ops name (ls_kv s) = (got, k) \<Longrightarrow>
    lease_reach ops lc look name dur (s\<lparr>ls_kv := k, ls_pc := (ls_pc s)(n := LRead (ls_clock s n) got)\<rparr>)"
| finish: "lease_reach ops lc look name dur s \<Longrightarrow> ls_pc s n = LRead now got \<Longrightarrow>
    lc_Serialize lc \<lparr>li_NodeID = n, li_Timestamp = now\<rparr> = Ok payload \<Longrightarrow>
    lease_commit ops lc n now name dur payload got (ls_kv s) = (res, k) \<Longrightarrow>
    lease_reach ops lc look name dur
      (s\<lparr>ls_kv := k, ls_pc := (ls_pc s)(n := LIdle),
         ls_hist := (if look k name = look (ls_kv s) name then ls_hist s else ls_hist s @ [(n, now)])\<rparr>)"

text \<open>Consecutive holders: the same node, not earlier, or another one after the lease ran out.\<close>

definition succ_ok :: "int \<Rightarrow> u64 \<times> int \<Rightarrow> u64 \<times> int \<Rightarrow> bool" where
  "succ_ok dur a b \<longleftrightarrow> (if fst a = fst b then snd a \<le> snd b else snd a + dur \<le> snd b)"

fun lease_chain :: "int \<Rightarrow> (u64 \<times> int) list \<Rightarrow> bool" where
  "lease_chain dur (a # b # h) = (succ_ok dur a b \<and> lease_chain dur (b # h))"
| "lease_chain dur _ = True"


section \<open>Lemmas\<close>

lemma wrap64_id: "- (2 ^ 63) \<le> i \<Longrightarrow> i < 2 ^ 63 \<Longrightarrow> wrap64 i = i"
  by (simp add: wrap64_def signed_take_bit_int_eq_self)

lemma kv_contractD:
  assumes "kv_contract ops look lastrev"
  shows "look k name = Some (v, r0) \<Longrightarrow> r0 \<le> lastrev k"
    and "kv_get_ok ops look lastrev"
    and "kv_create ops name v k = (q, k') \<Longrightarrow> kv_write_ok look lastrev name v (look k name = None) k q k'"
    and "kv_update ops name v old k = (q, k') \<Longrightarrow> kv_write_ok look lastrev name v (\<exists>v0. look k name = Some (v0, old)) k q k'"
  using assms unfolding kv_contract_def by simp_all

text \<open>
  A commit either leaves the bucket alone and does not report success, or writes the payload where
  there was nothing or a lease that is the node's own or has run out.
\<close>

definition may_take :: "lock_codec \<Rightarrow> ('k \<Rightarrow> string \<Rightarrow> (bytes \<times> u64) option) \<Rightarrow> u64 \<Rightarrow> int \<Rightarrow> string \<Rightarrow> int \<Rightarrow> 'k \<Rightarrow> bool" where
  "may_take lc look n now name dur k \<longleftrightarrow>
     look k name = None \<or>
     (\<exists>bs r0 info. look k name = Some (bs, r0) \<and> lc_DeserializeFrom lc bs \<lparr>li_NodeID = n, li_Timestamp = now\<rparr> = Ok info \<and>
        (li_NodeID info = n \<or> wrap64 (li_Timestamp info + dur) \<le> now))"

lemma lease_take_outcome:
  assumes kv: "kv_contract ops look lastrev" and lc: "lock_codec_ok lc"
    and got: "\<And>v'. look k name = Some (v', snd entry) \<Longrightarrow> v' = fst entry"
    and c: "lease_take ops lc n now name dur payload entry k = (r, k')"
  shows "returns r \<and> (kv_same look lastrev k k' \<and> r \<noteq> Ok True \<or>
     (\<exists>rv. kv_wrote look lastrev name payload k k' rv) \<and> may_take lc look n now name dur k)"
proof -
  let ?me = "\<lparr>li_NodeID = n, li_Timestamp = now\<rparr>"
  have same: "kv_same look lastrev k k" by (simp add: kv_same_def)
  have "returns (lc_DeserializeFrom lc (fst entry) ?me)" using lc by (simp add: lock_codec_ok_def)
  then show ?thesis
  proof (cases rule: returnsE)
    case (1 info)
    show ?thesis
    proof (cases "li_NodeID info \<noteq> n \<and> wrap64 (li_Timestamp info + dur) > now")
      case True
      with 1 c same show ?thesis by (auto simp: lease_take_def)
    next
      case False
      obtain q k1 where u: "kv_update ops name payload (snd entry) k = (q, k1)"
        by (cases "kv_update ops name payload (snd entry) k")
      note d = kv_contractD(4) [OF kv u, unfolded kv_write_ok_def]
      have k1: "k' = k1" and r: "r = Ok True \<longleftrightarrow> is_ok q" "returns r"
        using c 1 False u d by (cases q; auto simp: lease_take_def)+
      have "may_take lc look n now name dur k" if "look k name = Some (v0, snd entry)" for v0
        using that got [OF that] 1 False unfolding may_take_def by (cases entry) (auto simp: not_less)
      with d k1 r show ?thesis by blast
    qed
  next
    case (2 e)
    with c same show ?thesis by (auto simp: lease_take_def)
  qed
qed

lemma lease_commit_outcome:
  assumes kv: "kv_contract ops look lastrev" and lc: "lock_codec_ok lc" and ret: "returns got"
    and got: "\<And>v rv v'. got = Ok (v, rv) \<Longrightarrow> look k name = Some (v', rv) \<Longrightarrow> v' = v"
    and c: "lease_commit ops lc n now name dur payload got k = (r, k')"
  shows "returns r \<and> (kv_same look lastrev k k' \<and> r \<noteq> Ok True \<or>
     (\<exists>rv. kv_wrote look lastrev name payload k k' rv) \<and> may_take lc look n now name dur k)"
  using ret
proof (cases rule: returnsE)
  case (1 entry)
  then show ?thesis
    using lease_take_outcome [OF kv lc, of k name entry] got c by (cases entry) (auto simp: lease_commit_def)
next
  case (2 e)
  show ?thesis
  proof (cases "e = NatsErrKeyNotFound")
    case False
    with 2 c show ?thesis by (auto simp: lease_commit_def kv_same_def)
  next
    case True
    obtain q k1 where u: "kv_create ops name payload k = (q, k1)" by (cases "kv_create ops name payload k")
    note d = kv_contractD(3) [OF kv u, unfolded kv_write_ok_def]
    have "x \<noteq> 0" if "q = Ok x" for x
      using d that by (auto simp: kv_wrote_def)
    then have k1: "k' = k1" and r: "r = Ok True \<longleftrightarrow> is_ok q" "returns r"
      using c 2 True u d by (cases q; auto simp: lease_commit_def)+
    with d show ?thesis unfolding may_take_def by blast
  qed
qed


section \<open>The invariant\<close>

text \<open>The bucket holds the last write; what a node read is still right if its revision still stands.\<close>

definition kv_inv :: "lock_codec \<Rightarrow> ('k \<Rightarrow> string \<Rightarrow> (bytes \<times> u64) option) \<Rightarrow> string \<Rightarrow> (u64 \<times> int) list \<Rightarrow> 'k \<Rightarrow> bool" where
  "kv_inv lc look name h k \<longleftrightarrow>
     (if h = [] then look k name = None
      else \<exists>bs rv. look k name = Some (bs, rv) \<and>
        lc_Serialize lc \<lparr>li_NodeID = fst (last h), li_Timestamp = snd (last h)\<rparr> = Ok bs)"

definition read_inv :: "('k \<Rightarrow> string \<Rightarrow> (bytes \<times> u64) option) \<Rightarrow> ('k \<Rightarrow> u64) \<Rightarrow> string \<Rightarrow> (bytes \<times> u64) res \<Rightarrow> 'k \<Rightarrow> bool" where
  "read_inv look lastrev name got k \<longleftrightarrow>
     returns got \<and>
     (\<forall>v rv. got = Ok (v, rv) \<longrightarrow> rv \<le> lastrev k \<and> (\<forall>v'. look k name = Some (v', rv) \<longrightarrow> v' = v))"

text \<open>The time a node's next timestamp cannot precede.\<close>

definition node_time :: "'k lease_state \<Rightarrow> u64 \<Rightarrow> int" where
  "node_time s n = (case ls_pc s n of LIdle \<Rightarrow> ls_clock s n | LRead now _ \<Rightarrow> now)"

definition lease_inv ::
  "lock_codec \<Rightarrow> ('k \<Rightarrow> string \<Rightarrow> (bytes \<times> u64) option) \<Rightarrow> ('k \<Rightarrow> u64) \<Rightarrow> string \<Rightarrow> int \<Rightarrow> 'k lease_state \<Rightarrow> bool" where
  "lease_inv lc look lastrev name dur s \<longleftrightarrow>
     kv_inv lc look name (ls_hist s) (ls_kv s) \<and> lease_chain dur (ls_hist s) \<and>
     (\<forall>n. node_time s n \<le> ls_clock s n \<and> ls_clock s n < 2 ^ 62) \<and>
     (\<forall>n. 0 \<le> node_time s n) \<and>
     (\<forall>n now got. ls_pc s n = LRead now got \<longrightarrow> read_inv look lastrev name got (ls_kv s)) \<and>
     (\<forall>(n, ts) \<in> set (ls_hist s). 0 \<le> ts \<and> ts \<le> node_time s n)"

lemma lease_invI:
  assumes "kv_inv lc look name (ls_hist s) (ls_kv s)" and "lease_chain dur (ls_hist s)"
    and "\<And>n. node_time s n \<le> ls_clock s n \<and> ls_clock s n < 2 ^ 62" and "\<And>n. 0 \<le> node_time s n"
    and "\<And>n now got. ls_pc s n = LRead now got \<Longrightarrow> read_inv look lastrev name got (ls_kv s)"
    and "\<And>n ts. (n, ts) \<in> set (ls_hist s) \<Longrightarrow> 0 \<le> ts \<and> ts \<le> node_time s n"
  shows "lease_inv lc look lastrev name dur s"
  unfolding lease_inv_def using assms by blast

lemma lease_invD:
  assumes "lease_inv lc look lastrev name dur s"
  shows "kv_inv lc look name (ls_hist s) (ls_kv s)" "lease_chain dur (ls_hist s)"
    "node_time s n \<le> ls_clock s n" "ls_clock s n < 2 ^ 62" "0 \<le> node_time s n"
    "ls_pc s n = LRead now got \<Longrightarrow> read_inv look lastrev name got (ls_kv s)"
    "(n, ts) \<in> set (ls_hist s) \<Longrightarrow> 0 \<le> ts \<and> ts \<le> node_time s n"
  using assms unfolding lease_inv_def by blast+

lemma read_inv_same: "kv_same look lastrev k k' \<Longrightarrow> read_inv look lastrev name got k \<Longrightarrow> read_inv look lastrev name got k'"
  by (simp add: read_inv_def kv_same_def)

lemma read_inv_wrote:
  "kv_wrote look lastrev name v k k' rv \<Longrightarrow> read_inv look lastrev name got k \<Longrightarrow> read_inv look lastrev name got k'"
  by (force simp: read_inv_def kv_wrote_def)

lemma lease_chain_snoc:
  "lease_chain dur h \<Longrightarrow> (h \<noteq> [] \<Longrightarrow> succ_ok dur (last h) e) \<Longrightarrow> lease_chain dur (h @ [e])"
  by (induction dur h rule: lease_chain.induct) auto

text \<open>A node that may take the lease continues the chain.\<close>

lemma may_take_succ:
  assumes "lease_inv lc look lastrev name dur s" and lc: "lock_codec_ok lc" and dur: "0 \<le> dur" "dur < 2 ^ 62"
    and h: "ls_hist s \<noteq> []" and pc: "ls_pc s n = LRead now got"
    and take: "may_take lc look n now name dur (ls_kv s)"
  shows "succ_ok dur (last (ls_hist s)) (n, now)"
proof -
  obtain m ts where l: "last (ls_hist s) = (m, ts)" by (cases "last (ls_hist s)")
  from assms(1) h have ts: "0 \<le> ts" "ts \<le> node_time s m" "node_time s m \<le> ls_clock s m" "ls_clock s m < 2 ^ 62"
    using last_in_set [OF h] l by (auto simp: lease_inv_def)
  from assms(1) h l obtain bs rv where "look (ls_kv s) name = Some (bs, rv)"
    and s: "lc_Serialize lc \<lparr>li_NodeID = m, li_Timestamp = ts\<rparr> = Ok bs"
    by (auto simp: lease_inv_def kv_inv_def)
  with take lc have "m = n \<or> wrap64 (ts + dur) \<le> now"
    unfolding may_take_def lock_codec_ok_def by fastforce
  moreover have "wrap64 (ts + dur) = ts + dur" using ts dur by (intro wrap64_id) auto
  moreover have "ts \<le> now" if "m = n" using ts(2) pc that by (simp add: node_time_def)
  ultimately show ?thesis by (auto simp: succ_ok_def l)
qed

lemma lease_inv_finish:
  assumes kv: "kv_contract ops look lastrev" and lc: "lock_codec_ok lc" and dur: "0 \<le> dur" "dur < 2 ^ 62"
    and inv: "lease_inv lc look lastrev name dur s" and pc: "ls_pc s n = LRead now got"
    and ser: "lc_Serialize lc \<lparr>li_NodeID = n, li_Timestamp = now\<rparr> = Ok payload"
    and c: "lease_commit ops lc n now name dur payload got (ls_kv s) = (res, k)"
  shows "lease_inv lc look lastrev name dur
      (s\<lparr>ls_kv := k, ls_pc := (ls_pc s)(n := LIdle),
         ls_hist := (if look k name = look (ls_kv s) name then ls_hist s else ls_hist s @ [(n, now)])\<rparr>)"
proof -
  let ?s = "\<lambda>h. s\<lparr>ls_kv := k, ls_pc := (ls_pc s)(n := LIdle), ls_hist := h\<rparr>"
  have rd: "read_inv look lastrev name got (ls_kv s)" using inv pc unfolding lease_inv_def by blast
  have t: "node_time (?s h) m = (if m = n then ls_clock s n else node_time s m)" for h m
    by (simp add: node_time_def split: lease_pc.splits)
  have now: "node_time s n = now" using pc by (simp add: node_time_def)
  have t0: "node_time (s\<lparr>ls_kv := k, ls_pc := (ls_pc s)(n := LIdle)\<rparr>) m = (if m = n then ls_clock s n else node_time s m)" for m
    by (simp add: node_time_def split: lease_pc.splits)
  have tm: "0 \<le> now" "now \<le> ls_clock s n" "0 \<le> ls_clock s m" "(m, ts) \<in> set (ls_hist s) \<Longrightarrow> ts \<le> ls_clock s m" for m ts
    using lease_invD(3,5) [OF inv, of m] lease_invD(3,5) [OF inv, of n] lease_invD(7) [OF inv, of m ts] now by auto
  from lease_commit_outcome [OF kv lc _ _ c] rd have
    "kv_same look lastrev (ls_kv s) k \<or>
     (\<exists>rv. kv_wrote look lastrev name payload (ls_kv s) k rv) \<and> may_take lc look n now name dur (ls_kv s)"
    unfolding read_inv_def by blast
  then show ?thesis
  proof
    assume same: "kv_same look lastrev (ls_kv s) k"
    then have "look k name = look (ls_kv s) name" by (simp add: kv_same_def)
    moreover have "lease_inv lc look lastrev name dur (?s (ls_hist s))"
    proof (rule lease_invI)
      show "kv_inv lc look name (ls_hist (?s (ls_hist s))) (ls_kv (?s (ls_hist s)))"
        using lease_invD(1) [OF inv] same by (auto simp: kv_inv_def kv_same_def)
    qed (use lease_invD [OF inv] read_inv_same [OF same] tm in \<open>auto simp: t0 split: if_splits\<close>)
    ultimately show ?thesis by simp
  next
    assume "(\<exists>rv. kv_wrote look lastrev name payload (ls_kv s) k rv) \<and> may_take lc look n now name dur (ls_kv s)"
    then obtain rv where w: "kv_wrote look lastrev name payload (ls_kv s) k rv"
      and take: "may_take lc look n now name dur (ls_kv s)" by blast
    have "look k name \<noteq> look (ls_kv s) name"
      using w kv_contractD(1) [OF kv, of "ls_kv s" name payload rv] by (auto simp: kv_wrote_def)
    moreover have "lease_chain dur (ls_hist s @ [(n, now)])"
      using inv may_take_succ [OF inv lc dur _ pc take] by (intro lease_chain_snoc) (auto simp: lease_inv_def)
    then have "lease_inv lc look lastrev name dur (?s (ls_hist s @ [(n, now)]))"
    proof (rule_tac lease_invI)
      show "kv_inv lc look name (ls_hist (?s (ls_hist s @ [(n, now)]))) (ls_kv (?s (ls_hist s @ [(n, now)])))"
        using w ser by (simp add: kv_inv_def kv_wrote_def)
    qed (use lease_invD [OF inv] read_inv_wrote [OF w] tm in \<open>auto simp: t split: if_splits\<close>)
    ultimately show ?thesis by simp
  qed
qed


lemma lease_reach_inv:
  assumes kv: "kv_contract ops look lastrev" and lc: "lock_codec_ok lc" and dur: "0 \<le> dur" "dur < 2 ^ 62"
  shows "lease_reach ops lc look name dur s \<Longrightarrow> lease_inv lc look lastrev name dur s"
proof (induction rule: lease_reach.induct)
  case (start k c)
  then show ?case by (simp add: lease_inv_def kv_inv_def node_time_def)
next
  case (tick s n t)
  note inv = lease_invD [OF tick(4)]
  have mono: "node_time s m \<le> node_time (s\<lparr>ls_clock := (ls_clock s)(n := t)\<rparr>) m" for m
    using tick(2) by (auto simp: node_time_def split: lease_pc.splits)
  have "node_time (s\<lparr>ls_clock := (ls_clock s)(n := t)\<rparr>) m \<le> ((ls_clock s)(n := t)) m" for m
    using tick(2) lease_invD(3) [OF tick(4), of m] by (auto simp: node_time_def split: lease_pc.splits)
  moreover have "0 \<le> node_time (s\<lparr>ls_clock := (ls_clock s)(n := t)\<rparr>) m" for m
    using inv(5) [of m] mono [of m] by simp
  moreover have "ts \<le> node_time (s\<lparr>ls_clock := (ls_clock s)(n := t)\<rparr>) m" if "(m, ts) \<in> set (ls_hist s)" for m ts
    using inv(7) [OF that] mono [of m] by simp
  ultimately show ?case using tick(3) inv by (intro lease_invI) auto
next
  case (fetch s n got k)
  have g: "returns got" "kv_same look lastrev (ls_kv s) k" "\<And>e. got = Ok e \<Longrightarrow> look (ls_kv s) name = Some e"
    using kv_contractD(2) [OF kv] fetch(3) unfolding kv_get_ok_def by blast+
  have "read_inv look lastrev name got k"
    using g kv_contractD(1) [OF kv, of k name] by (auto simp: read_inv_def kv_same_def)
  moreover have "node_time (s\<lparr>ls_kv := k, ls_pc := (ls_pc s)(n := LRead (ls_clock s n) got)\<rparr>) m = node_time s m" for m
    using fetch(2) by (simp add: node_time_def split: lease_pc.splits)
  moreover note inv = lease_invD [OF fetch(4)]
  ultimately show ?case
  proof (rule_tac lease_invI)
    show "kv_inv lc look name (ls_hist (s\<lparr>ls_kv := k, ls_pc := (ls_pc s)(n := LRead (ls_clock s n) got)\<rparr>))
       (ls_kv (s\<lparr>ls_kv := k, ls_pc := (ls_pc s)(n := LRead (ls_clock s n) got)\<rparr>))"
      using inv(1) g(2) by (auto simp: kv_inv_def kv_same_def)
  qed (use read_inv_same [OF g(2)] in \<open>auto split: if_splits\<close>)
next
  case (finish s n now got payload res k)
  from lease_inv_finish [OF kv lc dur finish(5) finish(2-4)] show ?case .
qed

text \<open>The chain, at a distance.\<close>

lemma lease_chain_head:
  assumes "0 \<le> dur"
  shows "lease_chain dur (a # h) \<Longrightarrow> b \<in> set h \<Longrightarrow> snd a \<le> snd b \<and> (fst a \<noteq> fst b \<longrightarrow> snd a + dur \<le> snd b)"
proof (induction h arbitrary: a)
  case (Cons c h)
  then have ac: "succ_ok dur a c" "lease_chain dur (c # h)" by auto
  show ?case
  proof (cases "b = c")
    case True
    with ac(1) assms show ?thesis by (auto simp: succ_ok_def split: if_splits)
  next
    case False
    with Cons ac have "snd c \<le> snd b \<and> (fst c \<noteq> fst b \<longrightarrow> snd c + dur \<le> snd b)" by auto
    with ac(1) assms show ?thesis by (auto simp: succ_ok_def split: if_splits)
  qed
qed simp

lemma lease_chain_tl: "lease_chain dur (a # h) \<Longrightarrow> lease_chain dur h"
  by (cases h) auto

lemma lease_chain_nth:
  assumes "0 \<le> dur"
  shows "lease_chain dur h \<Longrightarrow> i < j \<Longrightarrow> j < length h \<Longrightarrow> fst (h ! i) \<noteq> fst (h ! j) \<Longrightarrow> snd (h ! i) + dur \<le> snd (h ! j)"
proof (induction h arbitrary: i j)
  case (Cons a h)
  from Cons.prems(2) obtain j' where j: "j = Suc j'" by (cases j) auto
  show ?case
  proof (cases i)
    case 0
    with Cons.prems j have "h ! j' \<in> set h" by simp
    with lease_chain_head [OF assms Cons.prems(1), of "h ! j'"] Cons.prems j 0 show ?thesis by simp
  next
    case (Suc i')
    with Cons j lease_chain_tl show ?thesis by auto
  qed
qed simp


section \<open>Concrete data\<close>

text \<open>A bucket in memory with one key; it refuses to wrap the revision around.\<close>

type_synonym mem_kv = "(bytes \<times> u64) option"

definition mem_rev :: "mem_kv \<Rightarrow> u64" where
  "mem_rev k = (case k of None \<Rightarrow> 0 | Some e \<Rightarrow> snd e)"

definition mem_look :: "mem_kv \<Rightarrow> string \<Rightarrow> (bytes \<times> u64) option" where
  "mem_look k name = (if name = ''snapshot'' then k else None)"

definition mem_put :: "string \<Rightarrow> bytes \<Rightarrow> (mem_kv, u64) prog" where
  "mem_put name v k =
     (if name \<noteq> ''snapshot'' \<or> mem_rev k = - 1 then (Err (External 1), k)
      else (Ok (mem_rev k + 1), Some (v, mem_rev k + 1)))"

definition mem_ops :: "mem_kv kv_ops" where
  "mem_ops =
     \<lparr>kv_get = (\<lambda>name k. (case mem_look k name of Some e \<Rightarrow> Ok e | None \<Rightarrow> Err NatsErrKeyNotFound, k)),
      kv_create = (\<lambda>name v k. if mem_look k name = None then mem_put name v k else (Err (External 3), k)),
      kv_update = (\<lambda>name v old k.
        if map_option snd (mem_look k name) = Some old then mem_put name v k else (Err (External 4), k))\<rparr>"

definition unary_codec :: lock_codec where
  "unary_codec =
     \<lparr>lc_Serialize = (\<lambda>i. Ok (replicate (unat (li_NodeID i)) 1 @ 0 #
        (if li_Timestamp i < 0 then 1 else 0) # replicate (nat \<bar>li_Timestamp i\<bar>) 1)),
      lc_DeserializeFrom = (\<lambda>bs _.
        let n = length (takeWhile (\<lambda>b. b \<noteq> 0) bs) in
        case drop (Suc n) bs of
          [] \<Rightarrow> Err (External 5)
        | b # us \<Rightarrow> Ok \<lparr>li_NodeID = of_nat n, li_Timestamp = (if b = 0 then int (length us) else - int (length us))\<rparr>)\<rparr>"

lemma word_less_Suc: "(a :: u64) \<noteq> - 1 \<Longrightarrow> a < a + 1"
proof -
  assume "a \<noteq> - 1"
  then have "1 + a \<noteq> 0" using max_word_wrap [of a] by (auto simp: add.commute)
  then have "unat (1 + a) = Suc (unat a)" by (rule unatSuc)
  then show ?thesis by (simp add: word_less_nat_alt add.commute)
qed

lemma mem_put_wrote:
  "mem_put name v k = (r, k') \<Longrightarrow> kv_write_ok mem_look mem_rev name v True k r k'"
  by (auto simp: mem_put_def kv_write_ok_def kv_same_def kv_wrote_def mem_look_def mem_rev_def fun_eq_iff
      word_less_Suc split: if_splits)

lemma mem_contract: "kv_contract mem_ops mem_look mem_rev"
  using mem_put_wrote unfolding kv_contract_def
  by (auto simp: mem_ops_def kv_get_ok_def kv_same_def mem_rev_def mem_look_def kv_write_ok_def split: option.splits if_splits)

lemma unary_codec_ok: "lock_codec_ok unary_codec"
  unfolding lock_codec_ok_def
  by (auto simp: unary_codec_def Let_def takeWhile_append split: list.splits)


text \<open>Node 1 takes the lease at time 0 on its clock, node 2 at time 20 on its own.\<close>

definition wit_lease0 :: "mem_kv lease_state" where
  "wit_lease0 = \<lparr>ls_kv = None, ls_pc = (\<lambda>_. LIdle), ls_clock = (\<lambda>n. if n = 2 then 20 else 0), ls_hist = []\<rparr>"

definition wit_payload :: "u64 \<Rightarrow> int \<Rightarrow> bytes" where
  "wit_payload n t = (case lc_Serialize unary_codec \<lparr>li_NodeID = n, li_Timestamp = t\<rparr> of Ok bs \<Rightarrow> bs | _ \<Rightarrow> [])"

lemma wit_serialize: "lc_Serialize unary_codec \<lparr>li_NodeID = n, li_Timestamp = t\<rparr> = Ok (wit_payload n t)"
  by (simp add: wit_payload_def unary_codec_def)

lemma wit_deserialize: "lc_DeserializeFrom unary_codec (wit_payload n t) j = Ok \<lparr>li_NodeID = n, li_Timestamp = t\<rparr>"
  using unary_codec_ok wit_serialize unfolding lock_codec_ok_def by blast

lemma wit_lease_reach:
  "\<exists>s. lease_reach mem_ops unary_codec mem_look ''snapshot'' 10 s \<and> ls_hist s = [(1, 0), (2, 20)]"
proof -
  let ?R = "lease_reach mem_ops unary_codec mem_look ''snapshot'' 10"
  have s0: "?R wit_lease0"
    unfolding wit_lease0_def by (rule lease_reach.start) (simp_all add: mem_look_def)
  let ?s1 = "wit_lease0\<lparr>ls_kv := None, ls_pc := (ls_pc wit_lease0)(1 := LRead 0 (Err NatsErrKeyNotFound))\<rparr>"
  have s1: "?R ?s1"
    using lease_reach.fetch [OF s0, of 1 "Err NatsErrKeyNotFound" None]
    by (simp add: wit_lease0_def mem_ops_def mem_look_def)
  let ?p1 = "wit_payload 1 0"
  have c1: "lease_commit mem_ops unary_codec 1 0 ''snapshot'' 10 ?p1 (Err NatsErrKeyNotFound) None = (Ok True, Some (?p1, 1))"
    by (simp add: lease_commit_def mem_ops_def mem_look_def mem_put_def mem_rev_def)
  let ?s2 = "\<lparr>ls_kv = Some (?p1, 1), ls_pc = (\<lambda>_. LIdle), ls_clock = ls_clock wit_lease0, ls_hist = [(1, 0)]\<rparr>"
  have s2: "?R ?s2"
    using lease_reach.finish [OF s1, of 1 0 "Err NatsErrKeyNotFound" ?p1 "Ok True" "Some (?p1, 1)"] c1 wit_serialize [of 1 0]
    by (simp add: wit_lease0_def mem_look_def fun_upd_def if_distrib cong: if_cong)
  let ?s3 = "?s2\<lparr>ls_pc := (\<lambda>_. LIdle)(2 := LRead 20 (Ok (?p1, 1)))\<rparr>"
  have s3: "?R ?s3"
    using lease_reach.fetch [OF s2, of 2 "Ok (?p1, 1)" "Some (?p1, 1)"]
    by (simp add: wit_lease0_def mem_ops_def mem_look_def)
  let ?p2 = "wit_payload 2 20"
  have c2: "lease_commit mem_ops unary_codec 2 20 ''snapshot'' 10 ?p2 (Ok (?p1, 1)) (Some (?p1, 1)) = (Ok True, Some (?p2, 2))"
    by (simp add: lease_commit_def lease_take_def wit_deserialize wrap64_id mem_ops_def mem_look_def mem_put_def mem_rev_def)
  show ?thesis
    using lease_reach.finish [OF s3, of 2 20 "Ok (?p1, 1)" ?p2 "Ok True" "Some (?p2, 2)"] c2 wit_serialize [of 2 20]
    by (force simp: mem_look_def)
qed

section \<open>Properties\<close>



text \<open>
  C27: \<open>AcquireLease\<close> returns (it neither panics on a nil entry nor blocks), and when it reports
  the lease as taken, the bucket holds this node's entry, written over nothing, over an entry of its
  own or over one that had run out.
\<close>

theorem acquire_lease_sound:
  assumes "kv_contract ops look lastrev" and "lock_codec_ok lc"
    and "AcquireLease ops lc n now name dur k = (r, k')"
  shows "returns r \<and>
     (r = Ok True \<longrightarrow>
        (\<exists>payload rv. lc_Serialize lc \<lparr>li_NodeID = n, li_Timestamp = now\<rparr> = Ok payload \<and>
           look k' name = Some (payload, rv)) \<and>
        may_take lc look n now name dur k)"
proof -
  let ?me = "\<lparr>li_NodeID = n, li_Timestamp = now\<rparr>"
  have "returns (lc_Serialize lc ?me)" using assms(2) by (simp add: lock_codec_ok_def)
  then show ?thesis
  proof (cases rule: returnsE)
    case (1 payload)
    obtain got k1 where g: "kv_get ops name k = (got, k1)" by (cases "kv_get ops name k")
    have gk: "returns got" "kv_same look lastrev k k1" "\<And>e. got = Ok e \<Longrightarrow> look k name = Some e"
      using kv_contractD(2) [OF assms(1)] g unfolding kv_get_ok_def by blast+
    have c: "lease_commit ops lc n now name dur payload got k1 = (r, k')"
      using assms(3) 1 g by (simp add: AcquireLease_def)
    have m: "may_take lc look n now name dur k1 = may_take lc look n now name dur k"
      using gk(2) by (simp add: may_take_def kv_same_def)
    from lease_commit_outcome [OF assms(1,2) gk(1) _ c] gk(2,3) show ?thesis
      unfolding m by (fastforce simp: kv_wrote_def kv_same_def 1)
  next
    case (2 e)
    with assms(3) show ?thesis by (auto simp: AcquireLease_def)
  qed
qed


theorem acquire_lease_sound_witness:
  "AcquireLease mem_ops unary_codec 1 0 ''snapshot'' 10 None = (Ok True, Some (wit_payload 1 0, 1)) \<and>
   (\<exists>payload rv. mem_look (Some (wit_payload 1 0, 1)) ''snapshot'' = Some (payload, rv))"
proof -
  have a: "AcquireLease mem_ops unary_codec 1 0 ''snapshot'' 10 None = (Ok True, Some (wit_payload 1 0, 1))"
    by (simp add: AcquireLease_def wit_serialize lease_commit_def mem_ops_def mem_look_def mem_put_def mem_rev_def)
  from acquire_lease_sound [OF mem_contract unary_codec_ok a] a show ?thesis by auto
qed

end
