(* ===== verification/LeaseRefresh.thy ===== *)
theory LeaseRefresh
  imports MetaStore
begin

text \<open>
  \<open>ContextRefreshingLease\<close> of \<open>logstream/replicator_meta_store.go\<close>: the lease is taken, and a goroutine
  takes it again every half duration until the context is done. The goroutine runs beside the caller
  and beside the other nodes, which may change the bucket between two of its passes.
\<close>

section \<open>Operations\<close>

text \<open>
  A pass of the loop: the time, what the others have done to the bucket since the pass before, and
  what ends the waiting at its \<open>select\<close>.
\<close>

datatype lease_wake = RefreshTick | CtxDone

record 'k refresh_pass =
  rp_now :: int
  rp_others :: "'k \<Rightarrow> 'k"
  rp_wake :: lease_wake

text \<open>An error ends the loop; a lease that is not ours starts the next pass at once, without the \<open>select\<close>.\<close>

fun refresh_loop ::
  "'k kv_ops \<Rightarrow> lock_codec \<Rightarrow> u64 \<Rightarrow> string \<Rightarrow> int \<Rightarrow> 'k refresh_pass list \<Rightarrow> ('k, unit) prog" where
  "refresh_loop ops lc nodeID name durationMs [] k = (Block, k)"
| "refresh_loop ops lc nodeID name durationMs (p # ps) k =
     (case AcquireLease ops lc nodeID (rp_now p) name durationMs (rp_others p k) of
        (Ok locked, k1) \<Rightarrow>
          if \<not> locked then refresh_loop ops lc nodeID name durationMs ps k1
          else (case rp_wake p of
                  RefreshTick \<Rightarrow> refresh_loop ops lc nodeID name durationMs ps k1
                | CtxDone \<Rightarrow> (Ok (), k1))
      | (Err e, k1) \<Rightarrow> (Ok (), k1)
      | (Panic q, k1) \<Rightarrow> (Panic q, k1)
      | (Block, k1) \<Rightarrow> (Block, k1))"

text \<open>The goroutine is given what the first call returned; \<open>time.NewTicker\<close> panics on an interval that is not positive.\<close>

definition refresh_lease ::
  "'k kv_ops \<Rightarrow> lock_codec \<Rightarrow> u64 \<Rightarrow> string \<Rightarrow> int \<Rightarrow> bool res \<Rightarrow> 'k refresh_pass list \<Rightarrow> ('k, unit) prog" where
  "refresh_lease ops lc nodeID name durationMs got ps k =
     (if got \<noteq> Ok True then (Ok (), k)
      else if durationMs \<le> 0 then (Panic ''non-positive interval for NewTicker'', k)
      else refresh_loop ops lc nodeID name durationMs ps k)"

text \<open>The caller's part: what it waits for is the first call.\<close>

definition ContextRefreshingLease ::
  "'k kv_ops \<Rightarrow> lock_codec \<Rightarrow> u64 \<Rightarrow> int \<Rightarrow> string \<Rightarrow> int \<Rightarrow> ('k, bool) prog" where
  "ContextRefreshingLease ops lc nodeID now name durationMs =
     AcquireLease ops lc nodeID now name durationMs"

section \<open>A lease that is held\<close>

definition holds_lease ::
  "lock_codec \<Rightarrow> ('k \<Rightarrow> string \<Rightarrow> (bytes \<times> u64) option) \<Rightarrow> string \<Rightarrow> u64 \<Rightarrow> int \<Rightarrow> 'k \<Rightarrow> bool" where
  "holds_lease lc look name n ts k \<longleftrightarrow>
     (\<exists>bs rv. look k name = Some (bs, rv) \<and> lc_Serialize lc \<lparr>li_NodeID = n, li_Timestamp = ts\<rparr> = Ok bs)"

text \<open>
  A bucket that works: it answers, and takes an update on the revision it has, as long as there is
  \<open>room\<close>, the number of writes its counter of revisions still has numbers for.
\<close>

definition kv_up ::
  "'k kv_ops \<Rightarrow> ('k \<Rightarrow> string \<Rightarrow> (bytes \<times> u64) option) \<Rightarrow> string \<Rightarrow> ('k \<Rightarrow> nat) \<Rightarrow> bool" where
  "kv_up ops look name room \<longleftrightarrow>
     (\<forall>k entry. look k name = Some entry \<longrightarrow>
        (\<exists>k1. kv_get ops name k = (Ok entry, k1) \<and> room k1 = room k \<and>
           (0 < room k \<longrightarrow> (\<forall>v. \<exists>rv k2. kv_update ops name v (snd entry) k1 = (Ok rv, k2) \<and> room k \<le> Suc (room k2)))))"

text \<open>The others leave the entry of the lease alone.\<close>

definition quiet_pass ::
  "('k \<Rightarrow> string \<Rightarrow> (bytes \<times> u64) option) \<Rightarrow> string \<Rightarrow> ('k \<Rightarrow> nat) \<Rightarrow> 'k refresh_pass \<Rightarrow> bool" where
  "quiet_pass look name room p \<longleftrightarrow> (\<forall>k. look (rp_others p k) name = look k name \<and> room (rp_others p k) = room k)"

definition codec_total :: "lock_codec \<Rightarrow> bool" where
  "codec_total lc \<longleftrightarrow> lock_codec_ok lc \<and> (\<forall>i. is_ok (lc_Serialize lc i))"

lemma codec_totalD:
  assumes "codec_total lc"
  obtains bs where "lc_Serialize lc i = Ok bs" "\<And>j. lc_DeserializeFrom lc bs j = Ok i"
proof (cases "lc_Serialize lc i")
  case (Ok bs)
  with assms that show ?thesis by (simp add: codec_total_def lock_codec_ok_def)
qed (use assms in \<open>auto simp: codec_total_def dest: spec [of _ i]\<close>)

lemma holds_lease_decodes:
  assumes "codec_total lc" and "holds_lease lc look name n ts k"
  obtains bs rv where "look k name = Some (bs, rv)" "\<And>j. lc_DeserializeFrom lc bs j = Ok \<lparr>li_NodeID = n, li_Timestamp = ts\<rparr>"
  using assms by (auto simp: holds_lease_def codec_total_def lock_codec_ok_def)

text \<open>The node's own lease is renewed, whatever its age.\<close>

lemma renew_own:
  assumes kv: "kv_contract ops look lastrev" and up: "kv_up ops look name room" and lc: "codec_total lc"
    and own: "holds_lease lc look name n ts k" and room: "0 < room k"
  obtains k' where "AcquireLease ops lc n now name dur k = (Ok True, k')" "holds_lease lc look name n now k'" "room k \<le> Suc (room k')"
proof -
  obtain payload where p: "lc_Serialize lc \<lparr>li_NodeID = n, li_Timestamp = now\<rparr> = Ok payload" using codec_totalD [OF lc] by blast
  obtain bs rv where e: "look k name = Some (bs, rv)" "\<And>j. lc_DeserializeFrom lc bs j = Ok \<lparr>li_NodeID = n, li_Timestamp = ts\<rparr>"
    by (rule holds_lease_decodes [OF lc own]) blast
  from up e(1) room obtain k1 rv' k2 where g: "kv_get ops name k = (Ok (bs, rv), k1)"
    "kv_update ops name payload rv k1 = (Ok rv', k2)" "room k \<le> Suc (room k2)"
    unfolding kv_up_def by (metis snd_conv)
  have "holds_lease lc look name n now k2"
    using kv_contractD(4) [OF kv g(2)] p by (auto simp: kv_write_ok_def kv_wrote_def holds_lease_def)
  moreover have "AcquireLease ops lc n now name dur k = (Ok True, k2)"
    using p g e by (simp add: AcquireLease_def lease_commit_def lease_take_def)
  ultimately show ?thesis using that g(3) by blast
qed

text \<open>Another node's lease that has not run out is left alone.\<close>

lemma refused_other:
  assumes kv: "kv_contract ops look lastrev" and up: "kv_up ops look name room" and lc: "codec_total lc"
    and other: "holds_lease lc look name m ts k" "m \<noteq> n" and t: "now < wrap64 (ts + dur)"
  obtains k' where "AcquireLease ops lc n now name dur k = (Ok False, k')" "look k' = look k"
proof -
  obtain payload where p: "lc_Serialize lc \<lparr>li_NodeID = n, li_Timestamp = now\<rparr> = Ok payload" using codec_totalD [OF lc] by blast
  obtain bs rv where e: "look k name = Some (bs, rv)" "\<And>j. lc_DeserializeFrom lc bs j = Ok \<lparr>li_NodeID = m, li_Timestamp = ts\<rparr>"
    by (rule holds_lease_decodes [OF lc other(1)]) blast
  from up e(1) obtain k1 where g: "kv_get ops name k = (Ok (bs, rv), k1)" unfolding kv_up_def by blast
  have "look k1 = look k" using kv_contractD(2) [OF kv] g unfolding kv_get_ok_def kv_same_def by blast
  moreover have "AcquireLease ops lc n now name dur k = (Ok False, k1)"
    using p g e other(2) t by (simp add: AcquireLease_def lease_commit_def lease_take_def)
  ultimately show ?thesis using that by blast
qed

lemma holds_lease_others: "quiet_pass look name room p \<Longrightarrow> holds_lease lc look name n ts (rp_others p k) = holds_lease lc look name n ts k"
  by (simp add: holds_lease_def quiet_pass_def)

text \<open>The passes up to the first one that sees the end of the context.\<close>

fun passes_run :: "'k refresh_pass list \<Rightarrow> 'k refresh_pass list" where
  "passes_run [] = []"
| "passes_run (p # ps) = p # (if rp_wake p = CtxDone then [] else passes_run ps)"

lemma refresh_own:
  assumes kv: "kv_contract ops look lastrev" and up: "kv_up ops look name room" and lc: "codec_total lc"
  shows "holds_lease lc look name n ts k \<Longrightarrow> length ps \<le> room k \<Longrightarrow> list_all (quiet_pass look name room) ps \<Longrightarrow>
     \<exists>k'. refresh_loop ops lc n name dur ps k = (if CtxDone \<in> rp_wake ` set ps then Ok () else Block, k') \<and>
       holds_lease lc look name n (last (ts # map rp_now (passes_run ps))) k'"
proof (induction ps arbitrary: k ts)
  case (Cons p ps)
  let ?k = "rp_others p k"
  from Cons.prems have q: "quiet_pass look name room p" and r: "room ?k = room k" by (auto simp: quiet_pass_def)
  with Cons.prems have own: "holds_lease lc look name n ts ?k" and room: "0 < room ?k" by (auto simp: holds_lease_others)
  obtain k1 where k1: "AcquireLease ops lc n (rp_now p) name dur ?k = (Ok True, k1)" "holds_lease lc look name n (rp_now p) k1"
    "room ?k \<le> Suc (room k1)" by (rule renew_own [OF kv up lc own room])
  show ?case
  proof (cases "rp_wake p")
    case CtxDone
    with k1 show ?thesis by simp
  next
    case RefreshTick
    have "length ps \<le> room k1" using k1(3) Cons.prems(2) r by simp
    from Cons.IH [OF k1(2) this] Cons.prems(3) k1(1) RefreshTick show ?thesis by auto
  qed
qed simp

lemma refresh_other:
  assumes kv: "kv_contract ops look lastrev" and up: "kv_up ops look name room" and lc: "codec_total lc" and mn: "m \<noteq> n"
  shows "holds_lease lc look name m ts k \<Longrightarrow> list_all (\<lambda>p. quiet_pass look name room p \<and> rp_now p < wrap64 (ts + dur)) ps \<Longrightarrow>
     \<exists>k'. refresh_loop ops lc n name dur ps k = (Block, k') \<and> holds_lease lc look name m ts k'"
proof (induction ps arbitrary: k)
  case (Cons p ps)
  let ?k = "rp_others p k"
  from Cons.prems have own: "holds_lease lc look name m ts ?k" and t: "rp_now p < wrap64 (ts + dur)" by (auto simp: holds_lease_others)
  obtain k1 where k1: "AcquireLease ops lc n (rp_now p) name dur ?k = (Ok False, k1)" "look k1 = look ?k"
    by (rule refused_other [OF kv up lc own mn t])
  have "holds_lease lc look name m ts k1" using own k1(2) by (simp add: holds_lease_def)
  from Cons.IH [OF this] Cons.prems(2) k1(1) show ?case by simp
qed simp

section \<open>Concrete data\<close>

definition mem_room :: "mem_kv \<Rightarrow> nat" where
  "mem_room k = unat (- 1 - mem_rev k)"

lemma mem_up: "kv_up mem_ops mem_look ''snapshot'' mem_room"
proof -
  have room: "unat (- 1 - r) \<le> Suc (unat (- 1 - (r + 1)))" for r :: u64
    using unatSuc [of "- 1 - (r + 1)"] by (cases "1 + (- 1 - (r + 1)) = 0") (auto simp: algebra_simps)
  show ?thesis
    unfolding kv_up_def
  proof (intro allI impI)
    fix k entry assume e: "mem_look k ''snapshot'' = Some entry"
    then have k: "k = Some entry" by (simp add: mem_look_def)
    have "\<exists>rv k2. kv_update mem_ops ''snapshot'' v (snd entry) k = (Ok rv, k2) \<and> mem_room k \<le> Suc (mem_room k2)"
      if "0 < mem_room k" for v
      using that room [of "snd entry"] by (cases entry) (auto simp: k mem_ops_def mem_look_def mem_put_def mem_rev_def mem_room_def)
    with e show "\<exists>k1. kv_get mem_ops ''snapshot'' k = (Ok entry, k1) \<and> mem_room k1 = mem_room k \<and>
        (0 < mem_room k \<longrightarrow> (\<forall>v. \<exists>rv k2. kv_update mem_ops ''snapshot'' v (snd entry) k1 = (Ok rv, k2) \<and> mem_room k \<le> Suc (mem_room k2)))"
      by (intro exI [of _ k]) (simp add: mem_ops_def)
  qed
qed

lemma unary_total: "codec_total unary_codec"
  using unary_codec_ok by (simp add: codec_total_def unary_codec_def)

definition wit_pass :: "int \<Rightarrow> lease_wake \<Rightarrow> mem_kv refresh_pass" where
  "wit_pass t w = \<lparr>rp_now = t, rp_others = id, rp_wake = w\<rparr>"

section \<open>Properties\<close>

text \<open>
  C26: when the goroutine that keeps the lease alive ends. The lease a node has taken on a working bucket, which the other nodes
  leave alone, is renewed on every pass, also when it had run out, and the goroutine ends at the first pass that sees
  the context done, leaving the entry with the time of that pass: the lease is not given back. It does not end at
  all, whether the context is done or not, while the bucket holds another node's lease that has not run out: then it asks again at
  once, without a pause, and leaves the entry alone. It is not started when the first call did not give the lease.
\<close>

theorem lease_refresh_ends:
  assumes "kv_contract ops look lastrev" and "kv_up ops look name room" and "codec_total lc" and "0 < dur"
  shows "(holds_lease lc look name n ts k \<and> length ps \<le> room k \<and> list_all (quiet_pass look name room) ps \<longrightarrow>
       (\<exists>k'. refresh_lease ops lc n name dur (Ok True) ps k = (if CtxDone \<in> rp_wake ` set ps then Ok () else Block, k') \<and>
          holds_lease lc look name n (last (ts # map rp_now (passes_run ps))) k')) \<and>
     (holds_lease lc look name m ts k \<and> m \<noteq> n \<and>
        list_all (\<lambda>p. quiet_pass look name room p \<and> rp_now p < wrap64 (ts + dur)) ps \<longrightarrow>
       (\<exists>k'. refresh_lease ops lc n name dur (Ok True) ps k = (Block, k') \<and> holds_lease lc look name m ts k')) \<and>
     (got \<noteq> Ok True \<longrightarrow> refresh_lease ops lc n name dur got ps k = (Ok (), k))"
  using refresh_own [OF assms(1-3)] refresh_other [OF assms(1-3)] assms(4) by (simp add: refresh_lease_def)

theorem lease_refresh_ends_witness:
  "\<exists>k'. refresh_lease mem_ops unary_codec 1 ''snapshot'' 10 (Ok True) [wit_pass 5 RefreshTick, wit_pass 30 CtxDone, wit_pass 40 CtxDone]
       (Some (wit_payload 1 0, 1)) = (Ok (), k') \<and> holds_lease unary_codec mem_look ''snapshot'' 1 30 k'"
proof -
  let ?ps = "[wit_pass 5 RefreshTick, wit_pass 30 CtxDone, wit_pass 40 CtxDone]"
  have "length ?ps \<le> mem_room (Some (wit_payload 1 0, 1))" by (simp add: mem_room_def mem_rev_def)
  moreover have "list_all (quiet_pass mem_look ''snapshot'' mem_room) ?ps" by (simp add: quiet_pass_def wit_pass_def)
  moreover have "holds_lease unary_codec mem_look ''snapshot'' 1 0 (Some (wit_payload 1 0, 1))"
    by (simp add: holds_lease_def mem_look_def wit_serialize)
  moreover have "(0 :: int) < 10" by simp
  ultimately show ?thesis
    using lease_refresh_ends [OF mem_contract mem_up unary_total, of 10 1 0 "Some (wit_payload 1 0, 1)" ?ps] by (force simp: wit_pass_def)
qed

end
