(* ===== verification/Replicator.thy ===== *)
theory Replicator
  imports Config RepState LeaseRefresh
begin

text \<open>
  \<open>logstream/replicator.go\<close>: publishing changes to one of several JetStream streams, listening
  to them with at-least-once delivery, and saving and restoring snapshots. JetStream, zstd, the
  key-value bucket and the snapshot store are outside: \<open>nats_env\<close> holds their calls, which work on
  a world \<open>'n\<close>.
\<close>

section \<open>Streams\<close>

record StreamConfig =
  st_Name :: string
  st_Subjects :: "string list"
  st_Discard :: string
  st_MaxMsgs :: int
  st_Storage :: string
  st_Retention :: string
  st_AllowDirect :: bool
  st_MaxConsumers :: int
  st_MaxMsgsPerSubject :: int
  st_Duplicates :: int
  st_DenyDelete :: bool
  st_Replicas :: int

definition streamName :: "Configuration \<Rightarrow> u64 \<Rightarrow> bool \<Rightarrow> string" where
  "streamName c shardID compressed =
     (let compPostfix = (if compressed then ''-c'' else '''') in
      nc_StreamPrefix (cf_NATS c) @ compPostfix @ ''-'' @ fmt_u64 shardID)"

definition subjectName :: "Configuration \<Rightarrow> u64 \<Rightarrow> string" where
  "subjectName c shardID = nc_SubjectPrefix (cf_NATS c) @ ''-'' @ fmt_u64 shardID"

text \<open>The replica count: configured, or a majority of the shards, at most five; \<open>int\<close> has 64 bits.\<close>

definition shard_replicas :: "int \<Rightarrow> u64 \<Rightarrow> int" where
  "shard_replicas configured totalShards =
     (let replicas = (if configured < 1 then wrap64 (wrap64 (uint (drop_bit 1 totalShards)) + 1) else configured) in
      if replicas > 5 then 5 else replicas)"

definition makeShardStreamConfig :: "Configuration \<Rightarrow> u64 \<Rightarrow> u64 \<Rightarrow> bool \<Rightarrow> StreamConfig" where
  "makeShardStreamConfig c shardID totalShards compressed =
     \<lparr>st_Name = streamName c shardID compressed, st_Subjects = [subjectName c shardID],
      st_Discard = ''DiscardOld'', st_MaxMsgs = rl_MaxEntries (cf_ReplicationLog c),
      st_Storage = ''FileStorage'', st_Retention = ''LimitsPolicy'', st_AllowDirect = True,
      st_MaxConsumers = - 1, st_MaxMsgsPerSubject = - 1, st_Duplicates = 0, st_DenyDelete = True,
      st_Replicas = shard_replicas (rl_Replicas (cf_ReplicationLog c)) totalShards\<rparr>"

definition eqShardStreamConfig :: "StreamConfig \<Rightarrow> StreamConfig \<Rightarrow> bool" where
  "eqShardStreamConfig a b \<longleftrightarrow>
     st_Name a = st_Name b \<and> length (st_Subjects a) = 1 \<and> length (st_Subjects b) = 1 \<and>
     hd (st_Subjects a) = hd (st_Subjects b) \<and> st_Discard a = st_Discard b \<and>
     st_MaxMsgs a = st_MaxMsgs b \<and> st_Storage a = st_Storage b \<and> st_Retention a = st_Retention b \<and>
     st_AllowDirect a = st_AllowDirect b \<and> st_MaxConsumers a = st_MaxConsumers b \<and>
     st_MaxMsgsPerSubject a = st_MaxMsgsPerSubject b \<and> st_Duplicates a = st_Duplicates b \<and>
     st_DenyDelete a = st_DenyDelete b \<and> st_Replicas a = st_Replicas b"

section \<open>The replicator\<close>

text \<open>What the replicator calls. \<open>ne_info\<close> gives a stream's configuration and first sequence number.\<close>

record 'n nats_env =
  ne_cfg :: Configuration
  ne_file :: file_env
  ne_connect :: "('n, unit) prog"
  ne_jetstream :: "('n, unit) prog"
  ne_info :: "string \<Rightarrow> ('n, StreamConfig \<times> u64) prog"
  ne_add :: "StreamConfig \<Rightarrow> ('n, StreamConfig \<times> u64) prog"
  ne_upd :: "StreamConfig \<Rightarrow> ('n, StreamConfig \<times> u64) prog"
  ne_publish :: "string \<Rightarrow> bytes \<Rightarrow> ('n, string \<times> u64) prog"
  ne_keyvalue :: "string \<Rightarrow> ('n, unit) prog"
  ne_create_kv :: "string \<Rightarrow> int \<Rightarrow> ('n, unit) prog"
  ne_kv :: "'n kv_ops"
  ne_lock :: lock_codec
  ne_zenc :: "bytes \<Rightarrow> bytes res"
  ne_zdec :: "bytes \<Rightarrow> bytes res"
  ne_snap_save :: "('n, unit) prog"
  ne_snap_restore :: "('n, unit) prog"

text \<open>
  \<open>r_streams\<close> are the keys of \<open>streamMap\<close> (in the order a \<open>range\<close> takes), \<open>r_snapshot\<close>
  says whether there is a snapshot store, \<open>r_spawned\<close> counts the \<open>SaveSnapshot\<close> goroutines
  started, \<open>r_nats\<close> is the world outside.
\<close>

record 'n Replicator =
  r_nodeID :: u64
  r_shards :: u64
  r_compressionEnabled :: bool
  r_lastSnapshot :: int
  r_repState :: replicationState
  r_snapshot :: bool
  r_streams :: "u64 list"
  r_spawned :: nat
  r_nats :: 'n

definition on_nats :: "('n, 'a) prog \<Rightarrow> ('n Replicator, 'a) prog" where
  "on_nats f r = (case f (r_nats r) of (x, n) \<Rightarrow> (x, r\<lparr>r_nats := n\<rparr>))"

definition on_state :: "(replicationState, 'a) prog \<Rightarrow> ('n Replicator, 'a) prog" where
  "on_state f r = (case f (r_repState r) of (x, s) \<Rightarrow> (x, r\<lparr>r_repState := s\<rparr>))"

subsection \<open>Setting up\<close>

text \<open>One shard: look the stream up, create it when it is not there, update it when asked to.\<close>

definition ensure_stream :: "'n nats_env \<Rightarrow> u64 \<Rightarrow> ('n, unit) prog" where
  "ensure_stream env shard =
     (let c = ne_cfg env; compress = rl_Compress (cf_ReplicationLog c);
          streamCfg = makeShardStreamConfig c shard (rl_Shards (cf_ReplicationLog c)) compress in
      bindR (ne_jetstream env) (\<lambda>_.
      bindR (\<lambda>n. case ne_info env (streamName c shard compress) n of
               (Err e, n1) \<Rightarrow> if e = NatsErrStreamNotFound then ne_add env streamCfg n1 else (Err e, n1)
             | x \<Rightarrow> x) (\<lambda>info.
        if rl_UpdateExisting (cf_ReplicationLog c) \<and> \<not> eqShardStreamConfig (fst info) streamCfg
        then bindR (ne_upd env streamCfg) (\<lambda>_. ret ())
        else ret ())))"

text \<open>The loop: \<open>k\<close> shards to go, the next is \<open>i + 1\<close>.\<close>

fun ensure_streams :: "'n nats_env \<Rightarrow> nat \<Rightarrow> u64 \<Rightarrow> u64 list \<Rightarrow> ('n, u64 list) prog" where
  "ensure_streams env 0 i streams = ret streams"
| "ensure_streams env (Suc k) i streams =
     bindR (ensure_stream env (i + 1)) (\<lambda>_. ensure_streams env k (i + 1) (streams @ [i + 1]))"

text \<open>\<open>newReplicatorMetaStore\<close>: open the bucket, or create it when there is none.\<close>

definition newReplicatorMetaStore :: "'n nats_env \<Rightarrow> string \<Rightarrow> ('n, unit) prog" where
  "newReplicatorMetaStore env name =
     bindR (ne_jetstream env) (\<lambda>_ n.
       case ne_keyvalue env name n of
         (Err e, n1) \<Rightarrow>
           if e = NatsErrBucketNotFound then ne_create_kv env name (rl_Replicas (cf_ReplicationLog (ne_cfg env))) n1
           else (Err e, n1)
       | x \<Rightarrow> x)"

definition NewReplicator :: "'n nats_env \<Rightarrow> bool \<Rightarrow> bytes \<Rightarrow> ('n, 'n Replicator) prog" where
  "NewReplicator env hasSnapshot disk n =
     (let c = ne_cfg env; shards = rl_Shards (cf_ReplicationLog c) in
      bindR (ne_connect env) (\<lambda>_.
      bindR (ensure_streams env (unat shards) 0 []) (\<lambda>streams.
      bindR (\<lambda>n1. case rep_init (ne_file env) disk rep_zero of
                (Ok _, s) \<Rightarrow> (Ok s, n1) | (Err e, _) \<Rightarrow> (Err e, n1)
              | (Panic p, _) \<Rightarrow> (Panic p, n1) | (Block, _) \<Rightarrow> (Block, n1)) (\<lambda>repState.
      bindR (newReplicatorMetaStore env EmbeddedClusterName) (\<lambda>_ n2.
        (Ok \<lparr>r_nodeID = cf_NodeID c, r_shards = shards,
             r_compressionEnabled = rl_Compress (cf_ReplicationLog c), r_lastSnapshot = 0,
             r_repState = repState, r_snapshot = hasSnapshot, r_streams = streams, r_spawned = 0,
             r_nats = n2\<rparr>, n2))))) n)"

subsection \<open>Publishing\<close>

definition SnapshotShardID :: u64 where
  "SnapshotShardID = 1"

definition payloadCompress :: "'n nats_env \<Rightarrow> bytes \<Rightarrow> bytes res" where
  "payloadCompress env payload = ne_zenc env payload"

definition payloadDecompress :: "'n nats_env \<Rightarrow> bytes \<Rightarrow> bytes res" where
  "payloadDecompress env payload = ne_zdec env payload"

definition shard_of :: "u64 \<Rightarrow> u64 \<Rightarrow> u64" where
  "shard_of hash shards = hash mod shards + 1"

definition after_publish :: "'n nats_env \<Rightarrow> u64 \<Rightarrow> string \<times> u64 \<Rightarrow> ('n Replicator, unit) prog" where
  "after_publish env shardID ack r =
     (if sn_Enable (cf_Snapshot (ne_cfg env)) then
        bindR (on_state (rep_save (ne_file env) (fst ack) (snd ack))) (\<lambda>seq r1.
          let snapshotEntries = (word_of_int (rl_MaxEntries (cf_ReplicationLog (ne_cfg env))) :: u64) div r_shards r1 in
          (Ok (), if snapshotEntries \<noteq> 0 \<and> seq mod snapshotEntries = 0 \<and> shardID = SnapshotShardID
                  then r1\<lparr>r_spawned := Suc (r_spawned r1)\<rparr> else r1)) r
      else (Ok (), r))"

definition Publish :: "'n nats_env \<Rightarrow> u64 \<Rightarrow> bytes \<Rightarrow> ('n Replicator, unit) prog" where
  "Publish env hash payload r =
     (if r_shards r = 0 then (Panic ''integer divide by zero'', r)
      else
        (let shardID = shard_of hash (r_shards r) in
         if shardID \<notin> set (r_streams r) then (Panic ''Invalid shard'', r)
         else
           bindR (lift_res (if r_compressionEnabled r then payloadCompress env payload else Ok payload)) (\<lambda>data.
           bindR (on_nats (ne_publish env (subjectName (ne_cfg env) shardID) data)) (\<lambda>ack.
             after_publish env shardID ack)) r))"

subsection \<open>Snapshots\<close>

fun restore_loop :: "'n nats_env \<Rightarrow> u64 list \<Rightarrow> ('n Replicator, unit) prog" where
  "restore_loop env [] r = (Ok (), r)"
| "restore_loop env (shardID # shards) r =
     (let strName = streamName (ne_cfg env) shardID (r_compressionEnabled r) in
      bindR (on_nats (ne_info env strName)) (\<lambda>info r1.
        if rep_get strName (r_repState r1) < snd info then on_nats (ne_snap_restore env) r1
        else restore_loop env shards r1) r)"

definition RestoreSnapshot :: "'n nats_env \<Rightarrow> ('n Replicator, unit) prog" where
  "RestoreSnapshot env r = (if \<not> r_snapshot r then (Ok (), r) else restore_loop env (r_streams r) r)"

definition ForceSaveSnapshot :: "'n nats_env \<Rightarrow> int \<Rightarrow> ('n Replicator, unit) prog" where
  "ForceSaveSnapshot env now r =
     (if \<not> r_snapshot r then (Ok (), r)
      else
        (case on_nats (ne_snap_save env) r of
           (Ok _, r1) \<Rightarrow> (Ok (), r1\<lparr>r_lastSnapshot := now\<rparr>)
         | (Err e, r1) \<Rightarrow> (Ok (), r1)
         | (Panic p, r1) \<Rightarrow> (Panic p, r1)
         | (Block, r1) \<Rightarrow> (Block, r1)))"

text \<open>The lease is for ten seconds; without it nothing is saved.\<close>

definition SaveSnapshot :: "'n nats_env \<Rightarrow> int \<Rightarrow> int \<Rightarrow> ('n Replicator, unit) prog" where
  "SaveSnapshot env now later r =
     (case on_nats (ContextRefreshingLease (ne_kv env) (ne_lock env) (cf_NodeID (ne_cfg env)) now ''snapshot'' 10000) r of
        (Ok locked, r1) \<Rightarrow> if locked then ForceSaveSnapshot env later r1 else (Ok (), r1)
      | (Err e, r1) \<Rightarrow> (Ok (), r1)
      | (Panic p, r1) \<Rightarrow> (Panic p, r1)
      | (Block, r1) \<Rightarrow> (Block, r1))"


section \<open>Lemmas\<close>

lemma shard_of_range: "shards \<noteq> 0 \<Longrightarrow> 1 \<le> shard_of hash shards \<and> shard_of hash shards \<le> shards"
proof -
  assume "shards \<noteq> 0"
  then have lt: "unat (hash mod shards) < unat shards"
    by (simp add: unat_mod_distrib unat_gt_0)
  have "unat shards < 2 ^ 64" using unsigned_less [of shards, where 'a = nat] by simp
  with lt have "unat (hash mod shards + 1) = unat (hash mod shards) + 1"
    by (simp add: unat_word_ariths)
  with lt show ?thesis by (simp add: shard_of_def word_le_nat_alt)
qed

lemma ensure_streams_Ok:
  "ensure_streams env k i acc n = (Ok streams, n') \<Longrightarrow> streams = acc @ map (\<lambda>j. i + 1 + of_nat j) [0..<k]"
proof (induction k arbitrary: i acc n)
  case 0
  then show ?case by (simp add: ret_def)
next
  case (Suc k)
  from Suc.prems obtain u n1 where "ensure_streams env k (i + 1) (acc @ [i + 1]) n1 = (Ok streams, n')"
    by (auto elim: bindR_OkE)
  from Suc.IH [OF this] show ?case
    by (simp add: map_upt_Suc algebra_simps del: upt_Suc)
qed


lemma shard_numbers: "set (map (\<lambda>j. 0 + 1 + of_nat j) [0..<unat shards]) = {1..shards :: u64}"
proof (intro equalityI subsetI)
  fix x :: u64 assume "x \<in> set (map (\<lambda>j. 0 + 1 + of_nat j) [0..<unat shards])"
  then obtain j where j: "x = 1 + of_nat j" "j < unat shards" by auto
  have "unat shards < 2 ^ 64" using unsigned_less [of shards, where 'a = nat] by simp
  with j have "unat x = 1 + j" by (simp add: unat_word_ariths unat_of_nat take_bit_nat_eq_self)
  with j show "x \<in> {1..shards}" by (simp add: word_le_nat_alt)
next
  fix x :: u64 assume "x \<in> {1..shards}"
  then have x: "1 \<le> unat x" "unat x \<le> unat shards" by (simp_all add: word_le_nat_alt)
  then have "x = 1 + of_nat (unat x - 1)" by (simp add: of_nat_diff)
  with x show "x \<in> set (map (\<lambda>j. 0 + 1 + of_nat j) [0..<unat shards])"
    by (auto intro!: image_eqI [of _ _ "unat x - 1"])
qed

text \<open>A replicator as \<open>NewReplicator\<close> builds it: a stream per shard, its state open.\<close>

definition rep_wf :: "'n Replicator \<Rightarrow> bool" where
  "rep_wf r \<longleftrightarrow> set (r_streams r) = {1..r_shards r} \<and> rep_open (r_repState r)"

lemma NewReplicator_wf:
  assumes cod: "seq_codec (ne_file env)" and new: "NewReplicator env b disk n = (Ok r, n')"
  shows "rep_wf r \<and> r_shards r = rl_Shards (cf_ReplicationLog (ne_cfg env)) \<and> r_nats r = n'"
proof -
  let ?sh = "rl_Shards (cf_ReplicationLog (ne_cfg env))"
  from new obtain n1 n2 n3 n4 streams rs where "ensure_streams env (unat ?sh) 0 [] n1 = (Ok streams, n2)"
    and "(case rep_init (ne_file env) disk rep_zero of (Ok _, s) \<Rightarrow> (Ok s, n2) | (Err e, _) \<Rightarrow> (Err e, n2)
        | (Panic p, _) \<Rightarrow> (Panic p, n2) | (Block, _) \<Rightarrow> (Block, n2)) = (Ok rs, n3)"
    and r: "r = \<lparr>r_nodeID = cf_NodeID (ne_cfg env), r_shards = ?sh,
             r_compressionEnabled = rl_Compress (cf_ReplicationLog (ne_cfg env)), r_lastSnapshot = 0,
             r_repState = rs, r_snapshot = b, r_streams = streams, r_spawned = 0, r_nats = n4\<rparr>" "n' = n4"
    unfolding NewReplicator_def Let_def by (auto elim!: bindR_OkE)
  then have "set streams = {1..?sh}" and "rep_init (ne_file env) disk rep_zero = (Ok (), rs)"
    using ensure_streams_Ok shard_numbers by (force, auto split: prod.splits res.splits)
  with on_disk_init [OF cod] r show ?thesis by (simp add: rep_wf_def)
qed

text \<open>The calls outside do not panic or hang.\<close>

definition env_returns :: "'n nats_env \<Rightarrow> bool" where
  "env_returns env \<longleftrightarrow>
     (\<forall>p. returns (ne_zenc env p)) \<and> (\<forall>s p n. returns (fst (ne_publish env s p n)))"

lemma after_publish_outcome:
  assumes cod: "seq_codec (ne_file env)" and wf: "rep_wf r" and a: "after_publish env shard ack r = (x, r')"
  shows "returns x \<and> rep_wf r' \<and> r_shards r' = r_shards r \<and> r_nats r' = r_nats r \<and>
     (sn_Enable (cf_Snapshot (ne_cfg env)) \<longrightarrow> x = Ok () \<longrightarrow> snd ack \<le> rep_get (fst ack) (r_repState r')) \<and>
     (\<forall>y. rep_get y (r_repState r) \<le> rep_get y (r_repState r'))"
proof (cases "sn_Enable (cf_Snapshot (ne_cfg env))")
  case False
  with a wf show ?thesis by (auto simp: after_publish_def)
next
  case True
  obtain v s where sv: "rep_save (ne_file env) (fst ack) (snd ack) (r_repState r) = (v, s)"
    by (cases "rep_save (ne_file env) (fst ack) (snd ack) (r_repState r)")
  have op: "rep_open (r_repState r)" using wf by (simp add: rep_wf_def)
  note o = rep_save_outcome [OF cod op sv]
  have mono: "rep_get y (r_repState r) \<le> rep_get y s" for y using o by (cases "y = fst ack") auto
  from o have "returns v" by simp
  then show ?thesis
  proof (cases rule: returnsE)
    case (1 q)
    with a True sv o mono wf show ?thesis
      by (auto simp: after_publish_def bindR_def on_state_def Let_def rep_wf_def max_def split: if_splits)
  next
    case (2 e)
    with a True sv o mono wf show ?thesis
      by (auto simp: after_publish_def bindR_def on_state_def rep_wf_def)
  qed
qed


text \<open>What \<open>Publish\<close> leaves behind when it returns \<open>x\<close>.\<close>

definition publish_post :: "'n nats_env \<Rightarrow> u64 \<Rightarrow> bytes \<Rightarrow> 'n Replicator \<Rightarrow> unit res \<Rightarrow> 'n Replicator \<Rightarrow> bool" where
  "publish_post env hash payload r x r' \<longleftrightarrow>
     returns x \<and> rep_wf r' \<and> r_shards r' = r_shards r \<and>
     (x = Ok () \<longrightarrow>
       (\<exists>data ack. (if r_compressionEnabled r then ne_zenc env payload = Ok data else data = payload) \<and>
          ne_publish env (subjectName (ne_cfg env) (hash mod r_shards r + 1)) data (r_nats r) = (Ok ack, r_nats r') \<and>
          (sn_Enable (cf_Snapshot (ne_cfg env)) \<longrightarrow> snd ack \<le> rep_get (fst ack) (r_repState r'))))"

lemma Publish_outcome:
  assumes cod: "seq_codec (ne_file env)" and ret: "env_returns env" and wf: "rep_wf r" "r_shards r \<noteq> 0"
    and p: "Publish env hash payload r = (x, r')"
  shows "publish_post env hash payload r x r'"
proof -
  let ?sh = "shard_of hash (r_shards r)"
  let ?z = "if r_compressionEnabled r then payloadCompress env payload else Ok payload"
  have sh: "?sh \<in> set (r_streams r)" using wf shard_of_range [of "r_shards r" hash] by (simp add: rep_wf_def)
  have "returns ?z" using ret by (simp add: env_returns_def payloadCompress_def)
  then show ?thesis
  proof (cases rule: returnsE)
    case (2 e)
    then show ?thesis using p wf sh by (auto simp: Publish_def Let_def bindR_def lift_res_def publish_post_def)
  next
    case (1 data)
    obtain y n1 where y: "ne_publish env (subjectName (ne_cfg env) ?sh) data (r_nats r) = (y, n1)"
      by (cases "ne_publish env (subjectName (ne_cfg env) ?sh) data (r_nats r)")
    have wf1: "rep_wf (r\<lparr>r_nats := n1\<rparr>)" using wf by (simp add: rep_wf_def)
    have "returns y" using ret y unfolding env_returns_def by (metis fst_conv)
    then show ?thesis
    proof (cases rule: returnsE)
      case (2 e)
      with p 1 wf wf1 sh y show ?thesis
        by (auto simp: Publish_def Let_def bindR_def lift_res_def on_nats_def publish_post_def)
    next
      case ack: (1 ack)
      then have "after_publish env ?sh ack (r\<lparr>r_nats := n1\<rparr>) = (x, r')"
        using p 1 wf sh y by (simp add: Publish_def Let_def bindR_def lift_res_def on_nats_def)
      from after_publish_outcome [OF cod wf1 this] ack y 1 show ?thesis
        by (cases ack) (auto simp: publish_post_def shard_of_def payloadCompress_def split: if_splits)
    qed
  qed
qed

lemma streamName_inject:
  "streamName c s a = streamName c s' b \<longleftrightarrow> s = s' \<and> a = b"
proof -
  have "hd (fmt_u64 q) \<noteq> CHR ''c''" for q
    using show_nat_digits [of "hd (fmt_u64 q)" "unat q"] hd_in_set [of "fmt_u64 q"] by (auto simp: fmt_u64_def)
  then have "fmt_u64 q \<noteq> CHR ''c'' # xs" for q xs by (metis list.sel(1))
  then show ?thesis
    by (auto simp: streamName_def Let_def) metis+
qed

section \<open>Concrete data\<close>

text \<open>A server that keeps the messages of each subject and numbers them in one sequence per subject.\<close>

type_synonym mem_nats = "(string \<times> bytes) list"

definition mem_seq :: "string \<Rightarrow> mem_nats \<Rightarrow> u64" where
  "mem_seq subj n = of_nat (length (filter (\<lambda>m. fst m = subj) n))"

definition wit_nats_env :: "u64 \<Rightarrow> mem_nats nats_env" where
  "wit_nats_env shards =
     (let c = default_config ''/tmp'' in
      \<lparr>ne_cfg = c\<lparr>cf_ReplicationLog := (cf_ReplicationLog c)\<lparr>rl_Shards := shards\<rparr>\<rparr>, ne_file = wit_file,
       ne_connect = ret (), ne_jetstream = ret (),
       ne_info = (\<lambda>_ n. (Err NatsErrStreamNotFound, n)), ne_add = (\<lambda>sc n. (Ok (sc, 1), n)),
       ne_upd = (\<lambda>sc n. (Ok (sc, 1), n)),
       ne_publish = (\<lambda>subj data n. (Ok (subj, mem_seq subj n + 1), n @ [(subj, data)])),
       ne_keyvalue = (\<lambda>_. ret ()), ne_create_kv = (\<lambda>_ _. ret ()),
       ne_kv = \<lparr>kv_get = (\<lambda>_ n. (Err NatsErrKeyNotFound, n)), kv_create = (\<lambda>_ _ n. (Ok 1, n)), kv_update = (\<lambda>_ _ _ n. (Ok 1, n))\<rparr>,
       ne_lock = unary_codec, ne_zenc = Ok, ne_zdec = Ok,
       ne_snap_save = ret (), ne_snap_restore = ret ()\<rparr>)"

section \<open>Properties\<close>

text \<open>
  C19: a replicator that \<open>NewReplicator\<close> returns has exactly the streams 1 to \<open>shards\<close>. On such a
  replicator with at least one shard \<open>Publish\<close> panics neither on a missing shard nor on the
  division, and keeps it such; when it succeeds, the (compressed) payload was sent once, to the
  subject of shard \<open>hash mod shards + 1\<close>, so changes with equal hashes go to one stream in the order
  they are published, and with snapshots enabled the acknowledged sequence number is saved.
\<close>

theorem publish_routes_by_hash:
  assumes "seq_codec (ne_file env)" and "env_returns env"
  shows "(NewReplicator env b disk n = (Ok r0, n0) \<longrightarrow> rep_wf r0 \<and> r_shards r0 = rl_Shards (cf_ReplicationLog (ne_cfg env))) \<and>
     (rep_wf r \<and> r_shards r \<noteq> 0 \<longrightarrow>
       (\<exists>x r'. Publish env hash payload r = (x, r') \<and> publish_post env hash payload r x r'))"
proof (intro conjI impI)
  assume "NewReplicator env b disk n = (Ok r0, n0)"
  with NewReplicator_wf [OF assms(1)] show "rep_wf r0" "r_shards r0 = rl_Shards (cf_ReplicationLog (ne_cfg env))" by auto
next
  assume "rep_wf r \<and> r_shards r \<noteq> 0"
  with Publish_outcome [OF assms] show "\<exists>x r'. Publish env hash payload r = (x, r') \<and> publish_post env hash payload r x r'"
    by (cases "Publish env hash payload r") auto
qed

definition wit_replicator :: "mem_nats Replicator" where
  "wit_replicator = \<lparr>r_nodeID = 1, r_shards = 2, r_compressionEnabled = False, r_lastSnapshot = 0, r_repState = wit_rep,
     r_snapshot = True, r_streams = [1, 2], r_spawned = 0, r_nats = []\<rparr>"

lemma wit_nats_env_simps [simp]:
  "ne_file (wit_nats_env k) = wit_file" "ne_zenc (wit_nats_env k) = Ok"
  "ne_publish (wit_nats_env k) = (\<lambda>subj data n. (Ok (subj, mem_seq subj n + 1), n @ [(subj, data)]))"
  "ne_zdec (wit_nats_env k) = Ok"
  by (simp_all add: wit_nats_env_def Let_def)

lemma wit_nats_env_cfg [simp]:
  "nc_SubjectPrefix (cf_NATS (ne_cfg (wit_nats_env k))) = ''marmot-change-log''"
  "nc_StreamPrefix (cf_NATS (ne_cfg (wit_nats_env k))) = ''marmot-changes''"
  by (simp_all add: wit_nats_env_def Let_def default_config_def)

lemma wit_env_returns: "env_returns (wit_nats_env k)"
  by (simp add: env_returns_def returns_def)

lemma wit_replicator_wf: "rep_wf wit_replicator"
proof -
  have "{1..2 :: u64} = {1, 2}"
  proof (intro equalityI subsetI)
    fix x :: u64 assume "x \<in> {1..2}"
    then have "1 \<le> unat x" "unat x \<le> 2" by (simp_all add: word_le_nat_alt)
    then have "unat x = 1 \<or> unat x = 2" by linarith
    then show "x \<in> {1, 2}" by (auto simp: word_unat_eq_iff)
  qed (auto simp: word_le_nat_alt)
  then show ?thesis by (auto simp: rep_wf_def wit_replicator_def rep_open_def wit_rep_def)
qed

theorem publish_routes_by_hash_witness:
  "rep_wf wit_replicator \<and> publish_post (wit_nats_env 2) 7 [1, 2] wit_replicator
     (fst (Publish (wit_nats_env 2) 7 [1, 2] wit_replicator)) (snd (Publish (wit_nats_env 2) 7 [1, 2] wit_replicator))"
proof -
  have "r_shards wit_replicator \<noteq> 0" by (simp add: wit_replicator_def)
  with publish_routes_by_hash [of "wit_nats_env 2" True "[]" "[]" wit_replicator "[]" wit_replicator 7 "[1, 2]"]
    wit_codec_seq wit_env_returns [of 2] wit_replicator_wf
  show ?thesis by auto
qed

text \<open>A stream lookup that always answers, with first sequence number \<open>first\<close> of the stream, and changes nothing.\<close>

lemma restore_loop_answered:
  assumes "\<And>x. \<exists>c. ne_info env x (r_nats r) = (Ok (c, first x), r_nats r)"
  shows "restore_loop env shards r =
    (if \<exists>i\<in>set shards. rep_get (streamName (ne_cfg env) i (r_compressionEnabled r)) (r_repState r)
          < first (streamName (ne_cfg env) i (r_compressionEnabled r))
     then on_nats (ne_snap_restore env) r else (Ok (), r))"
proof (induction shards)
  case (Cons i shards)
  let ?x = "streamName (ne_cfg env) i (r_compressionEnabled r)"
  from assms obtain c where "ne_info env ?x (r_nats r) = (Ok (c, first ?x), r_nats r)" by blast
  then have "on_nats (ne_info env ?x) r = (Ok (c, first ?x), r)" by (simp add: on_nats_def)
  with Cons.IH show ?case by (simp add: bindR_def Let_def)
qed simp

lemma shard_replicas_bounds:
  "1 \<le> shard_replicas c n \<and> shard_replicas c n \<le> 5 \<longleftrightarrow> 1 \<le> c \<or> uint n < 2 ^ 64 - 2"
proof -
  have u: "0 \<le> uint n" "uint n < 2 ^ 64" using unsigned_less [of n, where 'a = int] by simp_all
  then have d: "0 \<le> uint n div 2" by simp
  have pos: "0 \<le> i \<Longrightarrow> i < 2 ^ 63 \<Longrightarrow> wrap64 i = i" for i by (rule wrap64_id) simp_all
  have half: "uint (drop_bit 1 n) = uint n div 2" by (simp add: drop_bit_eq_div uint_div_distrib)
  have w: "wrap64 (uint n div 2) = uint n div 2" using u d by (intro pos) simp_all
  have r: "shard_replicas c n = min 5 (if c < 1 then wrap64 (uint n div 2 + 1) else c)"
    unfolding shard_replicas_def half w Let_def by (simp add: min_def)
  show ?thesis
  proof (cases "uint n < 2 ^ 64 - 2")
    case True
    then have "wrap64 (uint n div 2 + 1) = uint n div 2 + 1" using u d by (intro pos) simp_all
    with True u show ?thesis by (auto simp: r)
  next
    case False
    with u have "uint n div 2 = 2 ^ 63 - 1" by simp
    then have "wrap64 (uint n div 2 + 1) = - (2 ^ 63)" by (simp add: wrap64_def)
    with False show ?thesis by (auto simp: r)
  qed
qed

text \<open>
  The streams of two shards, or of one shard with and without compression, never share a name,
  and each takes one subject; the number of replicas asked for is between one and five, unless it is
  derived from a shard count of \<open>2^64 - 2\<close> or more, where the majority does not fit an \<open>int\<close>.
\<close>

lemma shard_streams_distinct:
  "(st_Name (makeShardStreamConfig c i n a) = st_Name (makeShardStreamConfig c j m b) \<longleftrightarrow> i = j \<and> a = b) \<and>
   st_Subjects (makeShardStreamConfig c i n a) = [subjectName c i] \<and>
   (1 \<le> st_Replicas (makeShardStreamConfig c i n a) \<and> st_Replicas (makeShardStreamConfig c i n a) \<le> 5 \<longleftrightarrow>
      1 \<le> rl_Replicas (cf_ReplicationLog c) \<or> uint n < 2 ^ 64 - 2)"
  using shard_replicas_bounds [of "rl_Replicas (cf_ReplicationLog c)" n]
  by (simp add: makeShardStreamConfig_def streamName_inject)

text \<open>
  With a snapshot store, a start restores the snapshot exactly when the first message
  some shard's stream still holds is later than the last one the node has saved, whatever order the
  shards are looked at in; without a store, or when no stream starts that late, nothing changes.
\<close>

lemma restore_when_behind:
  assumes "\<And>x. \<exists>c. ne_info env x (r_nats r) = (Ok (c, first x), r_nats r)"
  shows "RestoreSnapshot env r =
    (if r_snapshot r \<and> (\<exists>i\<in>set (r_streams r). rep_get (streamName (ne_cfg env) i (r_compressionEnabled r)) (r_repState r)
          < first (streamName (ne_cfg env) i (r_compressionEnabled r)))
     then on_nats (ne_snap_restore env) r else (Ok (), r))"
  using restore_loop_answered [of env r first "r_streams r", OF assms] by (simp add: RestoreSnapshot_def)

end
