(* ===== verification/Listener.thy ===== *)
theory Listener
  imports Replicator
begin

text \<open>
  \<open>Listen\<close> and \<open>invokeListener\<close> of \<open>logstream/replicator.go\<close>. What the subscription
  yields is a list of \<open>listen_in\<close>: messages, timeouts, errors, the end of the subscription; between
  two iterations other goroutines of the node may save sequence numbers (\<open>OtherSave\<close>, which is what
  \<open>Publish\<close> does with the acknowledgement of its own message). The callback works on a state
  \<open>'w\<close>.
\<close>

section \<open>Operations\<close>

record Msg =
  m_Data :: bytes
  m_Stream :: string
  m_Seq :: u64

text \<open>\<open>m\<close> with the error of \<open>Metadata\<close> or of \<open>Ack\<close>, if any.\<close>

datatype listen_in =
    Next Msg "go_error option" "go_error option"
  | NextErr go_error
  | Invalid
  | OtherSave string u64

record ('n, 'w) node =
  nd_rep :: "'n Replicator"
  nd_w :: 'w
  nd_tick :: nat

definition maxReplicateRetries :: nat where
  "maxReplicateRetries = 7"

definition on_w :: "('w, 'a) prog \<Rightarrow> (('n, 'w) node, 'a) prog" where
  "on_w f s = (case f (nd_w s) of (r, w) \<Rightarrow> (r, s\<lparr>nd_w := w\<rparr>))"

definition on_rep :: "('n Replicator, 'a) prog \<Rightarrow> (('n, 'w) node, 'a) prog" where
  "on_rep f s = (case f (nd_rep s) of (x, r) \<Rightarrow> (x, s\<lparr>nd_rep := r\<rparr>))"

text \<open>\<open>msg.InProgress()\<close>: the \<open>n\<close>-th such call may fail.\<close>

definition in_progress :: "(nat \<Rightarrow> go_error option) \<Rightarrow> (('n, 'w) node, unit) prog" where
  "in_progress ip s = ((case ip (nd_tick s) of Some e \<Rightarrow> Err e | None \<Rightarrow> Ok ()), s\<lparr>nd_tick := Suc (nd_tick s)\<rparr>)"

text \<open>The retry loop: \<open>k\<close> attempts left, \<open>repRetry\<close> made, \<open>err\<close> the last error.\<close>

fun invoke_loop ::
  "(nat \<Rightarrow> go_error option) \<Rightarrow> (bytes \<Rightarrow> ('w, unit) prog) \<Rightarrow> bytes \<Rightarrow> nat \<Rightarrow> nat \<Rightarrow> go_error option \<Rightarrow> (('n, 'w) node, unit) prog" where
  "invoke_loop ip callback payload 0 repRetry err s = ((case err of None \<Rightarrow> Ok () | Some e \<Rightarrow> Err e), s)"
| "invoke_loop ip callback payload (Suc k) repRetry err s =
     bindR (if repRetry \<noteq> 0 then in_progress ip else ret ()) (\<lambda>_ s1.
       case on_w (callback payload) s1 of
         (Ok _, s2) \<Rightarrow> (Ok (), s2)
       | (Err e, s2) \<Rightarrow>
           if e = ContextCanceled then (Err e, s2)
           else invoke_loop ip callback payload k (Suc repRetry) (Some e) s2
       | (Panic p, s2) \<Rightarrow> (Panic p, s2)
       | (Block, s2) \<Rightarrow> (Block, s2)) s"

definition invokeListener ::
  "'n nats_env \<Rightarrow> (nat \<Rightarrow> go_error option) \<Rightarrow> (bytes \<Rightarrow> ('w, unit) prog) \<Rightarrow> Msg \<Rightarrow> (('n, 'w) node, unit) prog" where
  "invokeListener env ip callback msg s =
     bindR (lift_res (if r_compressionEnabled (nd_rep s) then payloadDecompress env (m_Data msg) else Ok (m_Data msg)))
       (\<lambda>payload. invoke_loop ip callback payload maxReplicateRetries 0 None) s"

text \<open>The listening loop; with no further input it waits for ever.\<close>

fun listen_loop ::
  "'n nats_env \<Rightarrow> (nat \<Rightarrow> go_error option) \<Rightarrow> (bytes \<Rightarrow> ('w, unit) prog) \<Rightarrow> u64 \<Rightarrow> listen_in list \<Rightarrow> (('n, 'w) node, unit) prog" where
  "listen_loop env ip callback savedSeq [] s = (Block, s)"
| "listen_loop env ip callback savedSeq (Invalid # ins) s = (Ok (), s)"
| "listen_loop env ip callback savedSeq (OtherSave x q # ins) s =
     listen_loop env ip callback savedSeq ins (snd (on_rep (on_state (rep_save (ne_file env) x q)) s))"
| "listen_loop env ip callback savedSeq (NextErr e # ins) s =
     (if errors_Is e NatsErrTimeout then listen_loop env ip callback savedSeq ins s else (Err e, s))"
| "listen_loop env ip callback savedSeq (Next msg metaErr ackErr # ins) s =
     (case metaErr of
        Some e \<Rightarrow> (Err e, s)
      | None \<Rightarrow>
          if m_Seq msg \<le> savedSeq then listen_loop env ip callback savedSeq ins s
          else
            (case invokeListener env ip callback msg s of
               (Err e, s1) \<Rightarrow> if errors_Is e ContextCanceled then (Ok (), s1) else (Err e, s1)
             | (Panic p, s1) \<Rightarrow> (Panic p, s1)
             | (Block, s1) \<Rightarrow> (Block, s1)
             | (Ok _, s1) \<Rightarrow>
                 bindR (on_rep (on_state (rep_save (ne_file env) (m_Stream msg) (m_Seq msg)))) (\<lambda>savedSeq' s2.
                   case ackErr of
                     Some e \<Rightarrow> (Err e, s2)
                   | None \<Rightarrow> listen_loop env ip callback savedSeq' ins s2) s1))"

definition Listen ::
  "'n nats_env \<Rightarrow> (nat \<Rightarrow> go_error option) \<Rightarrow> u64 \<Rightarrow> (bytes \<Rightarrow> ('w, unit) prog) \<Rightarrow> unit res \<Rightarrow> listen_in list \<Rightarrow> (('n, 'w) node, unit) prog" where
  "Listen env ip shardID callback subscribed ins s =
     (if shardID \<notin> set (r_streams (nd_rep s)) then (Panic ''nil pointer dereference'', s)
      else
        bindR (lift_res subscribed) (\<lambda>_ s1.
          listen_loop env ip callback
            (rep_get (streamName (ne_cfg env) shardID (r_compressionEnabled (nd_rep s1))) (r_repState (nd_rep s1)))
            ins s1) s)"

section \<open>The attempts\<close>

definition retriable :: "unit res \<Rightarrow> bool" where
  "retriable r \<longleftrightarrow> (\<exists>e. r = Err e \<and> e \<noteq> ContextCanceled)"

text \<open>The callback's state after \<open>j\<close> calls with one payload.\<close>

definition attempts :: "(bytes \<Rightarrow> ('w, unit) prog) \<Rightarrow> bytes \<Rightarrow> nat \<Rightarrow> 'w \<Rightarrow> 'w" where
  "attempts callback payload j w = ((\<lambda>w. snd (callback payload w)) ^^ j) w"

lemma attempts_0 [simp]: "attempts cb p 0 w = w"
  by (simp add: attempts_def)

lemma attempts_Suc: "attempts cb p (Suc j) w = attempts cb p j (snd (cb p w))"
  unfolding attempts_def by (simp only: funpow_Suc_right comp_apply)

text \<open>
  \<open>tried\<close>: \<open>j\<close> calls, all but the last one failing with an error that is retried; the outcome is the
  last call's, or the error of an \<open>InProgress\<close> that failed before the next one.
\<close>

definition tried ::
  "(nat \<Rightarrow> go_error option) \<Rightarrow> (bytes \<Rightarrow> ('w, unit) prog) \<Rightarrow> bytes \<Rightarrow> nat \<Rightarrow> nat \<Rightarrow> 'w \<Rightarrow> unit res \<Rightarrow> 'w \<Rightarrow> bool" where
  "tried ip callback payload k j w x w' \<longleftrightarrow>
     1 \<le> j \<and> j \<le> k \<and> w' = attempts callback payload j w \<and>
     (\<forall>i. Suc i < j \<longrightarrow> retriable (fst (callback payload (attempts callback payload i w)))) \<and>
     (let y = fst (callback payload (attempts callback payload (j - 1) w)) in
      x = y \<and> (retriable y \<longrightarrow> j = k) \<or>
      retriable y \<and> j < k \<and> (\<exists>t e. ip t = Some e \<and> x = Err e))"

lemma tried_one: "\<not> retriable (fst (cb p w)) \<or> k = 1 \<Longrightarrow> 1 \<le> k \<Longrightarrow> tried ip cb p k 1 w (fst (cb p w)) (snd (cb p w))"
  by (auto simp: tried_def attempts_Suc [of _ _ 0, simplified] Let_def)

lemma tried_stop:
  "retriable (fst (cb p w)) \<Longrightarrow> ip t = Some e \<Longrightarrow> 1 < k \<Longrightarrow> tried ip cb p k 1 w (Err e) (snd (cb p w))"
  by (auto simp: tried_def attempts_Suc [of _ _ 0, simplified] Let_def)

lemma tried_again:
  assumes "retriable (fst (cb p w))" and "tried ip cb p k j (snd (cb p w)) x w'"
  shows "tried ip cb p (Suc k) (Suc j) w x w'"
proof -
  have "retriable (fst (cb p (attempts cb p i w)))" if "Suc i < Suc j" for i
    using assms that by (cases i) (auto simp: tried_def attempts_Suc)
  moreover have "attempts cb p (j - 1) (snd (cb p w)) = attempts cb p j w"
    using assms(2) by (cases j) (auto simp: tried_def attempts_Suc)
  ultimately show ?thesis using assms by (auto simp: tried_def attempts_Suc Let_def)
qed

lemma in_progress_cases:
  obtains "in_progress ip s = (Ok (), s\<lparr>nd_tick := Suc (nd_tick s)\<rparr>)"
  | e where "ip (nd_tick s) = Some e" "in_progress ip s = (Err e, s\<lparr>nd_tick := Suc (nd_tick s)\<rparr>)"
  by (cases "ip (nd_tick s)") (simp_all add: in_progress_def)

lemma invoke_loop_tried:
  assumes "invoke_loop ip cb p k n err s = (x, s')"
  shows "nd_rep s' = nd_rep s \<and>
    ((k = 0 \<and> x = (case err of None \<Rightarrow> Ok () | Some e \<Rightarrow> Err e) \<or> n \<noteq> 0 \<and> k \<noteq> 0 \<and> (\<exists>t e. ip t = Some e \<and> x = Err e)) \<and> nd_w s' = nd_w s \<or>
     (\<exists>j. tried ip cb p k j (nd_w s) x (nd_w s')))"
  using assms
proof (induction k arbitrary: n err s)
  case (Suc k)
  show ?case
  proof (cases "n \<noteq> 0 \<and> (\<exists>e. ip (nd_tick s) = Some e)")
    case True
    then obtain e where "n \<noteq> 0" "ip (nd_tick s) = Some e" by blast
    moreover from this Suc.prems have "x = Err e \<and> s' = s\<lparr>nd_tick := Suc (nd_tick s)\<rparr>" by (auto simp: bindR_def in_progress_def)
    ultimately show ?thesis by auto
  next
    case False
    let ?s = "if n \<noteq> 0 then s\<lparr>nd_tick := Suc (nd_tick s)\<rparr> else s"
    obtain y w where y: "cb p (nd_w s) = (y, w)" by (cases "cb p (nd_w s)")
    have eq: "(case on_w (cb p) ?s of (Ok _, s2) \<Rightarrow> (Ok (), s2)
       | (Err e, s2) \<Rightarrow> if e = ContextCanceled then (Err e, s2) else invoke_loop ip cb p k (Suc n) (Some e) s2
       | (Panic p, s2) \<Rightarrow> (Panic p, s2) | (Block, s2) \<Rightarrow> (Block, s2)) = (x, s')"
      using Suc.prems False by (auto simp: bindR_def in_progress_def ret_def)
    have on: "on_w (cb p) ?s = (y, ?s\<lparr>nd_w := w\<rparr>)" using y by (simp add: on_w_def)
    show ?thesis
    proof (cases "retriable y")
      case False
      then have "x = y \<and> s' = ?s\<lparr>nd_w := w\<rparr>"
        using eq unfolding on by (cases y) (auto simp: retriable_def)
      with tried_one [of cb p "nd_w s" "Suc k" ip] False y show ?thesis by auto
    next
      case True
      then obtain e where e: "y = Err e" "e \<noteq> ContextCanceled" by (auto simp: retriable_def)
      then have "invoke_loop ip cb p k (Suc n) (Some e) (?s\<lparr>nd_w := w\<rparr>) = (x, s')" using eq unfolding on by simp
      note ih = Suc.IH [OF this]
      then have "nd_rep s' = nd_rep s" by (simp split: if_splits)
      moreover have "\<exists>j. tried ip cb p (Suc k) j (nd_w s) x (nd_w s')"
        using ih tried_one [of cb p "nd_w s" "Suc k" ip] tried_stop [of cb p "nd_w s" ip _ _ "Suc k"]
          tried_again [of cb p "nd_w s" ip k _ x "nd_w s'"] True y e
        by (elim conjE disjE exE) (simp_all, (blast | metis)+)
      ultimately show ?thesis by blast
    qed
  qed
qed simp

lemma invokeListener_outcome:
  assumes "invokeListener env ip cb m s = (y, s1)"
  shows "nd_rep s1 = nd_rep s \<and>
    (case (if r_compressionEnabled (nd_rep s) then payloadDecompress env (m_Data m) else Ok (m_Data m)) of
       Ok p \<Rightarrow> \<exists>j. tried ip cb p maxReplicateRetries j (nd_w s) y (nd_w s1)
     | z \<Rightarrow> \<not> is_ok y \<and> nd_w s1 = nd_w s \<and> (y = Block \<longrightarrow> z = Block))"
proof (cases "if r_compressionEnabled (nd_rep s) then payloadDecompress env (m_Data m) else Ok (m_Data m)")
  case (Ok p)
  then have "invoke_loop ip cb p maxReplicateRetries 0 None s = (y, s1)"
    using assms by (simp add: invokeListener_def bindR_def lift_res_def)
  from invoke_loop_tried [OF this] Ok show ?thesis by (simp add: maxReplicateRetries_def)
qed (use assms in \<open>auto simp: invokeListener_def bindR_def lift_res_def\<close>)

section \<open>The messages handed to the callback\<close>

fun fresh :: "u64 \<Rightarrow> Msg list \<Rightarrow> Msg list" where
  "fresh q [] = []"
| "fresh q (m # ms) = (if m_Seq m \<le> q then fresh q ms else m # fresh (m_Seq m) ms)"

fun last_seq :: "u64 \<Rightarrow> Msg list \<Rightarrow> u64" where
  "last_seq q [] = q"
| "last_seq q (m # ms) = last_seq (m_Seq m) ms"

fun messages :: "listen_in list \<Rightarrow> Msg list" where
  "messages [] = []"
| "messages (Next m a b # ins) = m # messages ins"
| "messages (_ # ins) = messages ins"

text \<open>The inputs of a listener of stream \<open>x\<close> whose saved number nobody else changes.\<close>

fun own_input :: "string \<Rightarrow> listen_in \<Rightarrow> bool" where
  "own_input x (Next m a b) = (m_Stream m = x)"
| "own_input x (OtherSave y q) = (y \<noteq> x)"
| "own_input x _ = True"

definition plain :: "'n nats_env \<Rightarrow> bool \<Rightarrow> Msg \<Rightarrow> bytes res" where
  "plain env compressed m = (if compressed then payloadDecompress env (m_Data m) else Ok (m_Data m))"

text \<open>The callback handles the payloads one after the other, each within its attempts.\<close>

fun handled :: "(nat \<Rightarrow> go_error option) \<Rightarrow> (bytes \<Rightarrow> ('w, unit) prog) \<Rightarrow> bytes list \<Rightarrow> 'w \<Rightarrow> 'w \<Rightarrow> bool" where
  "handled ip cb [] w w' \<longleftrightarrow> w' = w"
| "handled ip cb (p # ps) w w' \<longleftrightarrow> (\<exists>j w1. tried ip cb p maxReplicateRetries j w (Ok ()) w1 \<and> handled ip cb ps w1 w')"

text \<open>
  What listening does to the callback's state: some first fresh messages are handled; of the next
  one at most failing attempts were made; the saved number \<open>v\<close> covers handled messages only; a
  listener still waiting has handled all and saved the last number.
\<close>

definition listened ::
  "'n nats_env \<Rightarrow> (nat \<Rightarrow> go_error option) \<Rightarrow> (bytes \<Rightarrow> ('w, unit) prog) \<Rightarrow> bool \<Rightarrow> u64 \<Rightarrow> Msg list \<Rightarrow> 'w \<Rightarrow> bool \<Rightarrow> 'w \<Rightarrow> u64 \<Rightarrow> bool" where
  "listened env ip cb c q ms w waiting w' v \<longleftrightarrow>
     (\<exists>taken rest ps w1. fresh q ms = taken @ rest \<and> list_all2 (\<lambda>m p. plain env c m = Ok p) taken ps \<and>
        handled ip cb ps w w1 \<and> q \<le> v \<and> v \<le> last_seq q taken \<and>
        (w' = w1 \<or> (\<exists>m rest' p j y. rest = m # rest' \<and> plain env c m = Ok p \<and>
           tried ip cb p maxReplicateRetries j w1 y w' \<and> \<not> is_ok y)) \<and>
        (waiting \<longrightarrow> rest = [] \<and> w' = w1 \<and> v = last_seq q taken))"

lemma listened_idle: "\<not> b \<or> fresh q ms = [] \<Longrightarrow> listened env ip cb c q ms w b w q"
  unfolding listened_def by (rule exI [of _ "[]"], rule exI [of _ "fresh q ms"], rule exI [of _ "[]"]) auto

lemma listened_skip: "m_Seq m \<le> q \<Longrightarrow> listened env ip cb c q (m # ms) w b w' v = listened env ip cb c q ms w b w' v"
  by (simp add: listened_def)

lemma listened_fail:
  assumes "\<not> m_Seq m \<le> q" and "plain env c m = Ok p" and "tried ip cb p maxReplicateRetries j w y w'" and "\<not> is_ok y"
  shows "listened env ip cb c q (m # ms) w False w' q"
  unfolding listened_def using assms
  by (intro exI [of _ "[]"] exI [of _ "m # fresh (m_Seq m) ms"]) auto

lemma listened_last:
  assumes "\<not> m_Seq m \<le> q" and "plain env c m = Ok p" and "tried ip cb p maxReplicateRetries j w (Ok ()) w'"
    and "q \<le> v" "v \<le> m_Seq m"
  shows "listened env ip cb c q (m # ms) w False w' v"
  unfolding listened_def using assms
  by (intro exI [of _ "[m]"] exI [of _ "fresh (m_Seq m) ms"] exI [of _ "[p]"]) auto

lemma listened_step:
  assumes m: "\<not> m_Seq m \<le> q" and p: "plain env c m = Ok p" and t: "tried ip cb p maxReplicateRetries j w (Ok ()) w1"
    and l: "listened env ip cb c (m_Seq m) ms w1 b w' v"
  shows "listened env ip cb c q (m # ms) w b w' v"
proof -
  from l obtain taken rest ps w2 where d: "fresh (m_Seq m) ms = taken @ rest" "list_all2 (\<lambda>m p. plain env c m = Ok p) taken ps"
    "handled ip cb ps w1 w2" "m_Seq m \<le> v" "v \<le> last_seq (m_Seq m) taken"
    "w' = w2 \<or> (\<exists>m rest' p j y. rest = m # rest' \<and> plain env c m = Ok p \<and>
           tried ip cb p maxReplicateRetries j w2 y w' \<and> \<not> is_ok y)"
    "b \<longrightarrow> rest = [] \<and> w' = w2 \<and> v = last_seq (m_Seq m) taken"
    unfolding listened_def by blast
  have "q \<le> v" using m d(4) by simp
  with d m p t show ?thesis
    unfolding listened_def
    by (intro exI [of _ "m # taken"] exI [of _ rest] exI [of _ "p # ps"] exI [of _ w2]) auto
qed

definition never_blocks :: "'n nats_env \<Rightarrow> (bytes \<Rightarrow> ('w, unit) prog) \<Rightarrow> bool" where
  "never_blocks env cb \<longleftrightarrow> (\<forall>p w. fst (cb p w) \<noteq> Block) \<and> (\<forall>p. ne_zdec env p \<noteq> Block)"

lemma tried_not_Block: "tried ip cb p k j w Block w' \<Longrightarrow> \<exists>w. fst (cb p w) = Block"
  by (auto simp: tried_def Let_def) (metis, metis)

lemma invokeListener_listened:
  assumes inv: "invokeListener env ip cb m s = (y, s1)" and m: "\<not> m_Seq m \<le> q"
  obtains (Ok) p j where "y = Ok ()" "plain env (r_compressionEnabled (nd_rep s)) m = Ok p"
      "tried ip cb p maxReplicateRetries j (nd_w s) (Ok ()) (nd_w s1)" "nd_rep s1 = nd_rep s"
  | (fails) "\<not> is_ok y" "y = Block \<longrightarrow> \<not> never_blocks env cb" "nd_rep s1 = nd_rep s"
      "listened env ip cb (r_compressionEnabled (nd_rep s)) q (m # ms) (nd_w s) False (nd_w s1) q"
proof -
  note o = invokeListener_outcome [OF inv, folded plain_def]
  let ?z = "plain env (r_compressionEnabled (nd_rep s)) m"
  have nb: "?z = Block \<Longrightarrow> \<not> never_blocks env cb"
    by (auto simp: never_blocks_def plain_def payloadDecompress_def split: if_splits)
  show ?thesis
  proof (cases "\<exists>p. ?z = res.Ok p")
    case True
    then obtain p where p: "?z = res.Ok p" by blast
    with o obtain j where t: "tried ip cb p maxReplicateRetries j (nd_w s) y (nd_w s1)" and r: "nd_rep s1 = nd_rep s" by auto
    show ?thesis
    proof (cases "is_ok y")
      case True
      with p t r Ok show ?thesis by (auto simp: is_ok_iff)
    next
      case False
      from t have "y = Block \<longrightarrow> \<not> never_blocks env cb" using tried_not_Block unfolding never_blocks_def by metis
      with False fails listened_fail [OF m p t] r show ?thesis by blast
    qed
  next
    case False
    with o have "\<not> is_ok y \<and> nd_w s1 = nd_w s \<and> (y = Block \<longrightarrow> ?z = Block)" "nd_rep s1 = nd_rep s"
      by (auto split: res.splits)
    with fails nb listened_idle [of False q "m # ms" env ip cb _ "nd_w s"] show ?thesis by simp
  qed
qed

lemma listen_loop_listened:
  assumes cod: "seq_codec (ne_file env)"
  shows "\<forall>i\<in>set ins. own_input x i \<Longrightarrow> rep_open (r_repState (nd_rep s)) \<Longrightarrow> rep_get x (r_repState (nd_rep s)) = q \<Longrightarrow>
    listen_loop env ip cb q ins s = (r, s') \<Longrightarrow>
    listened env ip cb (r_compressionEnabled (nd_rep s)) q (messages ins) (nd_w s) (r = Block \<and> never_blocks env cb)
      (nd_w s') (rep_get x (r_repState (nd_rep s')))"
proof (induction ins arbitrary: s q)
  case Nil
  then show ?case by (auto intro: listened_idle)
next
  case (Cons i ins)
  note IH = Cons.IH
  show ?case
  proof (cases i)
    case (NextErr e)
    with Cons.prems IH [of s q] show ?thesis by (auto intro: listened_idle split: if_splits)
  next
    case Invalid
    with Cons.prems show ?thesis by (auto intro: listened_idle)
  next
    case (OtherSave y p)
    let ?s = "snd (on_rep (on_state (rep_save (ne_file env) y p)) s)"
    obtain v t where sv: "rep_save (ne_file env) y p (r_repState (nd_rep s)) = (v, t)"
      by (cases "rep_save (ne_file env) y p (r_repState (nd_rep s))")
    then have e: "?s = s\<lparr>nd_rep := (nd_rep s)\<lparr>r_repState := t\<rparr>\<rparr>" by (simp add: on_rep_def on_state_def)
    have "rep_open t" "rep_get x t = q"
      using rep_save_outcome [OF cod Cons.prems(2) sv] Cons.prems(1,3) OtherSave by auto
    with IH [of ?s q] Cons.prems OtherSave e show ?thesis by simp
  next
    case (Next m metaErr ackErr)
    show ?thesis
    proof (cases "metaErr = None \<and> \<not> m_Seq m \<le> q")
      case False
      with Next Cons.prems IH [of s q] show ?thesis
        by (cases metaErr) (auto intro: listened_idle simp: listened_skip)
    next
      case True
      obtain y s1 where inv: "invokeListener env ip cb m s = (y, s1)" by (cases "invokeListener env ip cb m s")
      from inv conjunct2 [OF True] show ?thesis
      proof (cases rule: invokeListener_listened [where q = q and ms = "messages ins"])
        case fails
        with Next True inv Cons.prems(4) have "s' = s1 \<and> (r = Block \<longrightarrow> y = Block)"
          by (cases y) (auto split: if_splits)
        with fails Next Cons.prems(3) show ?thesis by auto
      next
        case (Ok p j)
        obtain v t where sv: "rep_save (ne_file env) x (m_Seq m) (r_repState (nd_rep s)) = (v, t)"
          by (cases "rep_save (ne_file env) x (m_Seq m) (r_repState (nd_rep s))")
        note o = rep_save_outcome [OF cod Cons.prems(2) sv]
        let ?s = "s1\<lparr>nd_rep := (nd_rep s1)\<lparr>r_repState := t\<rparr>\<rparr>"
        have save: "on_rep (on_state (rep_save (ne_file env) (m_Stream m) (m_Seq m))) s1 = (v, ?s)"
          using sv Ok(4) Next Cons.prems(1) by (simp add: on_rep_def on_state_def)
        show ?thesis
        proof (cases "\<exists>n. v = res.Ok n \<and> ackErr = None")
          case False
          then have "s' = ?s \<and> r \<noteq> Block"
            using o Next True inv Ok(1) Cons.prems(4) save by (cases v; cases ackErr) (auto simp: bindR_def)
          moreover have "q \<le> rep_get x t \<and> rep_get x t \<le> m_Seq m" using o Cons.prems(3) True by auto
          ultimately show ?thesis
            using listened_last [OF _ Ok(2,3), of q "rep_get x t"] True Next by simp
        next
          case ok: True
          have mx: "max q (m_Seq m) = m_Seq m" using True by auto
          from ok o mx Cons.prems(3) have v: "v = res.Ok (m_Seq m)" and g: "rep_get x t = m_Seq m" by auto
          have l: "listen_loop env ip cb (m_Seq m) ins ?s = (r, s')"
            using v ok Next True inv Ok(1) Cons.prems(4) save by (simp add: bindR_def)
          have "rep_open t" using o by simp
          with IH [of ?s "m_Seq m"] l g Cons.prems(1) Ok(4)
          have "listened env ip cb (r_compressionEnabled (nd_rep s)) (m_Seq m) (messages ins) (nd_w s1)
              (r = Block \<and> never_blocks env cb) (nd_w s') (rep_get x (r_repState (nd_rep s')))" by simp
          from listened_step [OF _ Ok(2,3) this] True Next show ?thesis by simp
        qed
      qed
    qed
  qed
qed

text \<open>
  \<open>in_order n ms\<close>: what a subscription delivers that has delivered the messages up to \<open>n\<close>; any
  message again, or the next one.
\<close>

fun in_order :: "nat \<Rightarrow> Msg list \<Rightarrow> bool" where
  "in_order n [] \<longleftrightarrow> True"
| "in_order n (m # ms) \<longleftrightarrow> unat (m_Seq m) \<le> Suc n \<and> in_order (max n (unat (m_Seq m))) ms"

lemma last_seq_fresh: "q \<le> last_seq q (fresh q ms)"
proof (induction ms arbitrary: q)
  case (Cons m ms)
  from Cons.IH [of q] Cons.IH [of "m_Seq m"] show ?case by auto
qed simp

lemma fresh_consecutive:
  "in_order n ms \<Longrightarrow> n \<le> unat q \<Longrightarrow>
   map (\<lambda>m. unat (m_Seq m)) (fresh q ms) = [Suc (unat q)..<Suc (unat (last_seq q (fresh q ms)))]"
proof (induction ms arbitrary: n q)
  case (Cons m ms)
  show ?case
  proof (cases "m_Seq m \<le> q")
    case True
    with Cons.prems have "max n (unat (m_Seq m)) \<le> unat q" by (simp add: word_le_nat_alt)
    with Cons.IH [of "max n (unat (m_Seq m))" q] Cons.prems True show ?thesis by (simp del: upt_Suc)
  next
    case False
    with Cons.prems have m: "unat (m_Seq m) = Suc (unat q)" by (auto simp: word_le_nat_alt)
    have "unat (m_Seq m) \<le> unat (last_seq (m_Seq m) (fresh (m_Seq m) ms))"
      using last_seq_fresh [of "m_Seq m" ms] by (simp add: word_le_nat_alt)
    moreover from Cons.IH [of "max n (unat (m_Seq m))" "m_Seq m"] Cons.prems m
    have "map (\<lambda>m. unat (m_Seq m)) (fresh (m_Seq m) ms) =
        [Suc (unat (m_Seq m))..<Suc (unat (last_seq (m_Seq m) (fresh (m_Seq m) ms)))]" by (auto simp del: upt_Suc)
    ultimately show ?thesis using False m by (simp add: upt_conv_Cons del: upt_Suc)
  qed
qed simp

lemma Listen_listened:
  assumes cod: "seq_codec (ne_file env)" and wf: "rep_wf (nd_rep s)" and sh: "shard \<in> set (r_streams (nd_rep s))"
    and own: "\<forall>i\<in>set ins. own_input (streamName (ne_cfg env) shard (r_compressionEnabled (nd_rep s))) i"
    and l: "Listen env ip shard cb (Ok ()) ins s = (r, s')"
  shows "listened env ip cb (r_compressionEnabled (nd_rep s))
    (rep_get (streamName (ne_cfg env) shard (r_compressionEnabled (nd_rep s))) (r_repState (nd_rep s)))
    (messages ins) (nd_w s) (r = Block \<and> never_blocks env cb) (nd_w s')
    (rep_get (streamName (ne_cfg env) shard (r_compressionEnabled (nd_rep s))) (r_repState (nd_rep s')))"
proof (rule listen_loop_listened [OF cod own _ refl])
  show "rep_open (r_repState (nd_rep s))" using wf by (simp add: rep_wf_def)
  show "listen_loop env ip cb (rep_get (streamName (ne_cfg env) shard (r_compressionEnabled (nd_rep s))) (r_repState (nd_rep s)))
      ins s = (r, s')" using l sh by (simp add: Listen_def bindR_def lift_res_def)
qed

text \<open>A callback that never fails, as a function on its state.\<close>

lemma invokeListener_total:
  assumes "plain env (r_compressionEnabled (nd_rep s)) m = Ok p" and "\<And>w. cb p w = (Ok (), g w)"
  shows "invokeListener env ip cb m s = (Ok (), s\<lparr>nd_w := g (nd_w s)\<rparr>)"
  using assms by (simp add: invokeListener_def plain_def bindR_def lift_res_def maxReplicateRetries_def numeral_eq_Suc on_w_def ret_def)

lemma listen_skips:
  assumes "\<forall>i\<in>set ins. \<exists>m a. i = Next m None a \<and> m_Seq m \<le> q"
  shows "listen_loop env ip cb q ins s = (Block, s)"
  using assms by (induction ins) auto

section \<open>Concrete data\<close>

text \<open>A node that listens on shard 1 of \<open>wit_nats_env\<close>, has saved message 4, and keeps the payloads it handled.\<close>

definition wit_node :: "(mem_nats, bytes list) node" where
  "wit_node = \<lparr>nd_rep = wit_replicator\<lparr>r_repState := wit_rep\<lparr>rs_seq := [(''marmot-changes-1'', 4)]\<rparr>\<rparr>, nd_w = [], nd_tick = 0\<rparr>"

definition wit_cb :: "bytes \<Rightarrow> (bytes list, unit) prog" where
  "wit_cb p w = (Ok (), w @ [p])"

text \<open>A callback that fails at its first call.\<close>

definition wit_cb_retry :: "bytes \<Rightarrow> (bytes list, unit) prog" where
  "wit_cb_retry p w = (if w = [] then Err (External 7) else Ok (), w @ [p])"

definition wit_msg :: "u64 \<Rightarrow> listen_in" where
  "wit_msg q = Next \<lparr>m_Data = [ucast q], m_Stream = ''marmot-changes-1'', m_Seq = q\<rparr> None None"

lemma wit_stream: "streamName (ne_cfg (wit_nats_env 2)) 1 False = ''marmot-changes-1''"
proof -
  have "show_nat (Suc 0) = ''1''" by code_simp
  then show ?thesis by (simp add: streamName_def fmt_u64_def)
qed

lemma wit_node_simps [simp]:
  "r_compressionEnabled (nd_rep wit_node) = False" "nd_w wit_node = []" "1 \<in> set (r_streams (nd_rep wit_node))"
  "rep_get ''marmot-changes-1'' (r_repState (nd_rep wit_node)) = 4"
  by (simp_all add: wit_node_def wit_replicator_def rep_get_def)

lemma wit_node_wf: "rep_wf (nd_rep wit_node)"
  using wit_replicator_wf by (simp add: rep_wf_def rep_open_def wit_node_def wit_replicator_def wit_rep_def)

section \<open>Properties\<close>

text \<open>
  C25: a message is handed to the callback at least once and at most seven times, again only after an
  error that is not \<open>context.Canceled\<close>; the outcome is that of the last call, and a retriable error is
  only reported after the seventh, unless telling the server that work is in progress fails.
\<close>

theorem callback_attempts_bounded:
  assumes "invokeListener env ip cb m s = (y, s')"
    and "(if r_compressionEnabled (nd_rep s) then payloadDecompress env (m_Data m) else Ok (m_Data m)) = Ok p"
  shows "\<exists>j. 1 \<le> j \<and> j \<le> 7 \<and> nd_w s' = attempts cb p j (nd_w s) \<and> nd_rep s' = nd_rep s \<and>
     (\<forall>i. Suc i < j \<longrightarrow> retriable (fst (cb p (attempts cb p i (nd_w s))))) \<and>
     (y = fst (cb p (attempts cb p (j - 1) (nd_w s))) \<and> (retriable y \<longrightarrow> j = 7) \<or> (\<exists>t e. ip t = Some e \<and> y = Err e))"
  using invokeListener_outcome [OF assms(1)] assms(2) by (auto simp: tried_def maxReplicateRetries_def Let_def)

theorem callback_attempts_bounded_witness:
  "\<exists>y s'. invokeListener (wit_nats_env 2) (\<lambda>_. None) wit_cb_retry \<lparr>m_Data = [1], m_Stream = ''marmot-changes-1'', m_Seq = 5\<rparr> wit_node = (y, s') \<and>
     y = Ok () \<and> (\<exists>j. 1 \<le> j \<and> j \<le> 7 \<and> nd_w s' = attempts wit_cb_retry [1] j [] \<and> nd_w s' = [[1], [1]])"
proof -
  let ?m = "\<lparr>m_Data = [1], m_Stream = ''marmot-changes-1'', m_Seq = 5\<rparr>"
  obtain y s' where i: "invokeListener (wit_nats_env 2) (\<lambda>_. None) wit_cb_retry ?m wit_node = (y, s')"
    by (cases "invokeListener (wit_nats_env 2) (\<lambda>_. None) wit_cb_retry ?m wit_node")
  then have "y = Ok () \<and> nd_w s' = [[1], [1]]"
    by (simp add: invokeListener_def bindR_def lift_res_def maxReplicateRetries_def numeral_eq_Suc on_w_def ret_def
        wit_cb_retry_def in_progress_def) auto
  with callback_attempts_bounded [OF i, of "[1]"] i show ?thesis by auto
qed

text \<open>
  C12: whatever fails (the subscription, metadata, decompression, the callback, saving, acknowledging),
  a listener whose saved number no other goroutine moves hands messages to the callback only past
  that number, each in increasing order of sequence numbers; what it has saved when it stops never
  exceeds the last message it handled successfully, so that a restart repeats the message at which it
  stopped and skips none.
\<close>

theorem listen_safe_under_faults:
  assumes "seq_codec (ne_file env)" and "rep_wf (nd_rep s)" and "shard \<in> set (r_streams (nd_rep s))"
    and "streamName (ne_cfg env) shard (r_compressionEnabled (nd_rep s)) = x"
    and "\<forall>i\<in>set ins. own_input x i" and "Listen env ip shard cb (Ok ()) ins s = (r, s')"
  shows "\<exists>taken rest ps w1. fresh (rep_get x (r_repState (nd_rep s))) (messages ins) = taken @ rest \<and>
     list_all2 (\<lambda>m p. plain env (r_compressionEnabled (nd_rep s)) m = Ok p) taken ps \<and> handled ip cb ps (nd_w s) w1 \<and>
     rep_get x (r_repState (nd_rep s)) \<le> rep_get x (r_repState (nd_rep s')) \<and>
     rep_get x (r_repState (nd_rep s')) \<le> last_seq (rep_get x (r_repState (nd_rep s))) taken \<and>
     (nd_w s' = w1 \<or> (\<exists>m rest' p j y. rest = m # rest' \<and> plain env (r_compressionEnabled (nd_rep s)) m = Ok p \<and>
        tried ip cb p 7 j w1 y (nd_w s') \<and> \<not> is_ok y))"
  using Listen_listened [OF assms(1-3), of ins ip cb r s'] assms(4-6)
  unfolding listened_def maxReplicateRetries_def by blast

theorem listen_safe_under_faults_witness:
  "\<exists>taken rest. fresh 4 (messages [wit_msg 4, wit_msg 5, NextErr (External 1)]) = taken @ rest \<and>
     rep_get ''marmot-changes-1'' (r_repState (nd_rep (snd (Listen (wit_nats_env 2) (\<lambda>_. None) 1 wit_cb (Ok ())
       [wit_msg 4, wit_msg 5, NextErr (External 1)] wit_node)))) \<le> last_seq 4 taken"
proof -
  let ?ins = "[wit_msg 4, wit_msg 5, NextErr (External 1)]"
  obtain r s' where l: "Listen (wit_nats_env 2) (\<lambda>_. None) 1 wit_cb (Ok ()) ?ins wit_node = (r, s')"
    by (cases "Listen (wit_nats_env 2) (\<lambda>_. None) 1 wit_cb (Ok ()) ?ins wit_node")
  have "\<forall>i\<in>set ?ins. own_input ''marmot-changes-1'' i" by (simp add: wit_msg_def)
  with listen_safe_under_faults [of "wit_nats_env 2" wit_node 1 "''marmot-changes-1''" ?ins "\<lambda>_. None" wit_cb r s']
    l wit_codec_seq wit_node_wf wit_stream
  show ?thesis by auto
qed



text \<open>
  C30: a node's own publishing makes its listener lose messages of other nodes. With snapshots
  enabled \<open>Publish\<close> saves the acknowledged number \<open>q\<close> of the stream the listener reads; the next
  message the listener handles (number \<open>m\<close>, before \<open>q\<close>) makes \<open>save\<close> return \<open>q\<close>, and every message
  up to \<open>q\<close> that follows is skipped: the callback sees \<open>m\<close> and nothing else, and \<open>q\<close> is what a restart
  resumes from.
\<close>

theorem own_publish_skips_messages:
  assumes cod: "seq_codec (ne_file env)" and h: "file_healthy (ne_file env)" and wf: "rep_wf (nd_rep s)"
    and sh: "shard \<in> set (r_streams (nd_rep s))"
    and x: "streamName (ne_cfg env) shard (r_compressionEnabled (nd_rep s)) = x"
    and m: "m_Stream m = x" "rep_get x (r_repState (nd_rep s)) < m_Seq m" "m_Seq m \<le> q"
    and cb: "plain env (r_compressionEnabled (nd_rep s)) m = Ok p" "\<And>w. cb p w = (Ok (), g w)"
    and ins: "\<forall>i\<in>set ins. \<exists>m' a. i = Next m' None a \<and> m_Seq m' \<le> q"
  shows "\<exists>s'. Listen env ip shard cb (Ok ()) (OtherSave x q # Next m None None # ins) s = (Block, s') \<and>
     nd_w s' = g (nd_w s) \<and> rep_get x (r_repState (nd_rep s')) = q"
proof -
  have op: "rep_open (r_repState (nd_rep s))" using wf by (simp add: rep_wf_def)
  obtain t where t: "rep_save (ne_file env) x q (r_repState (nd_rep s)) = (Ok q, t)" "rep_open t" "rep_get x t = q"
    using rep_save_healthy [OF cod h op, of x q] m by auto
  let ?s = "s\<lparr>nd_rep := (nd_rep s)\<lparr>r_repState := t\<rparr>\<rparr>"
  have inv: "invokeListener env ip cb m ?s = (Ok (), ?s\<lparr>nd_w := g (nd_w s)\<rparr>)"
    using invokeListener_total [of env ?s m p cb g ip] cb by simp
  have sv: "on_rep (on_state (rep_save (ne_file env) x (m_Seq m))) (?s\<lparr>nd_w := g (nd_w s)\<rparr>) = (Ok q, ?s\<lparr>nd_w := g (nd_w s)\<rparr>)"
    using rep_save_stale [OF t(2), of "m_Seq m" x "ne_file env"] t(3) m word_gt_0_le [OF m(2)] by (simp add: on_rep_def on_state_def)
  have "Listen env ip shard cb (Ok ()) (OtherSave x q # Next m None None # ins) s = listen_loop env ip cb q ins (?s\<lparr>nd_w := g (nd_w s)\<rparr>)"
    using sh x m(1) m(2)[folded not_le] t(1) inv sv by (simp add: Listen_def bindR_def lift_res_def on_rep_def on_state_def)
  with listen_skips [OF ins, of env ip cb] t(3) show ?thesis by simp
qed

theorem own_publish_skips_messages_witness:
  "\<exists>s'. Listen (wit_nats_env 2) (\<lambda>_. None) 1 wit_cb (Ok ())
       [OtherSave ''marmot-changes-1'' 9, wit_msg 5, wit_msg 6, wit_msg 7, wit_msg 8] wit_node = (Block, s') \<and> nd_w s' = [[5]]"
proof -
  let ?m = "\<lparr>m_Data = [5], m_Stream = ''marmot-changes-1'', m_Seq = 5\<rparr>"
  have "wit_msg 5 = Next ?m None None" by (simp add: wit_msg_def)
  with own_publish_skips_messages [of "wit_nats_env 2" wit_node 1 "''marmot-changes-1''" ?m 9 "[5]" wit_cb "\<lambda>w. w @ [[5]]"
      "[wit_msg 6, wit_msg 7, wit_msg 8]" "\<lambda>_. None"] wit_codec_seq wit_file_healthy wit_node_wf wit_stream
  show ?thesis by (auto simp: plain_def wit_cb_def) (auto simp: wit_msg_def)
qed

end
