(* ===== verification/Storage.thy ===== *)
theory Storage
  imports Config
begin

text \<open>
  Where snapshots are kept: the four stores of \<open>snapshot/*_storage.go\<close> behind the interface
  \<open>Storage\<close> of \<open>snapshot/nats_snapshot.go\<close>. A node sees a \<open>world\<close>: its own files, the objects of the
  remote store, and a counter of the calls made to the file system and the network, any of which may
  fail; a write that fails leaves part of the file. The locale \<open>snapshot_storage\<close> is what a client of
  the interface may rely on.
\<close>

section \<open>Files and remote objects\<close>

text \<open>An object carries its contents and the tag the NATS store adds (empty elsewhere).\<close>

record world =
  w_files :: "string \<rightharpoonup> bytes"
  w_remote :: "string \<rightharpoonup> bytes \<times> string"
  w_bucket :: bool
  w_lock :: bool
  w_tick :: nat

text \<open>
  \<open>io_fault n\<close> is the error of the \<open>n\<close>-th call, \<open>io_torn n\<close> how many bytes a write had written when it
  failed, \<open>io_tmp n\<close> the directory the \<open>n\<close>-th call makes when it asks for a temporary one. An answer of a
  server with status \<open>n\<close> is the error \<open>External n\<close>.
\<close>

record io_env =
  io_fault :: "nat \<Rightarrow> go_error option"
  io_torn :: "nat \<Rightarrow> nat"
  io_tmp :: "nat \<Rightarrow> string"

definition io_call :: "io_env \<Rightarrow> (world, unit) prog" where
  "io_call env w = ((case io_fault env (w_tick w) of Some e \<Rightarrow> Err e | None \<Rightarrow> Ok ()), w\<lparr>w_tick := Suc (w_tick w)\<rparr>)"

definition read_file :: "io_env \<Rightarrow> string \<Rightarrow> (world, bytes) prog" where
  "read_file env p = bindR (io_call env) (\<lambda>_ w.
     (case w_files w p of None \<Rightarrow> Err (Errorf ''no such file or directory'') | Some b \<Rightarrow> Ok b, w))"

text \<open>Open with truncation, then copy into the file.\<close>

definition write_file :: "io_env \<Rightarrow> string \<Rightarrow> bytes \<Rightarrow> (world, unit) prog" where
  "write_file env p b = bindR (io_call env) (\<lambda>_ w.
     (case io_call env w of
        (Ok _, w1) \<Rightarrow> (Ok (), w1\<lparr>w_files := (w_files w)(p \<mapsto> b)\<rparr>)
      | (r, w1) \<Rightarrow> (r, w1\<lparr>w_files := (w_files w)(p \<mapsto> take (io_torn env (w_tick w)) b)\<rparr>)))"

definition put_remote :: "string \<Rightarrow> bytes \<Rightarrow> string \<Rightarrow> (world, unit) prog" where
  "put_remote key b tag w = (Ok (), w\<lparr>w_remote := (w_remote w)(key \<mapsto> (b, tag))\<rparr>)"

definition get_remote :: "io_env \<Rightarrow> go_error \<Rightarrow> string \<Rightarrow> (world, bytes) prog" where
  "get_remote env missing key = bindR (io_call env) (\<lambda>_ w.
     (case w_remote w key of None \<Rightarrow> Err missing | Some (b, _) \<Rightarrow> Ok b, w))"

text \<open>Rewriting an error.\<close>

definition on_err :: "(go_error \<Rightarrow> 'a res) \<Rightarrow> ('s, 'a) prog \<Rightarrow> ('s, 'a) prog" where
  "on_err h f s = (case f s of (Err e, s1) \<Rightarrow> (h e, s1) | (r, s1) \<Rightarrow> (r, s1))"

section \<open>NATS\<close>

fun show_hex :: "nat \<Rightarrow> string" where
  "show_hex n =
     (let d = [if n mod 16 < 10 then char_of (48 + n mod 16) else char_of (87 + n mod 16)] in
      if n < 16 then d else show_hex (n div 16) @ d)"

declare show_hex.simps [simp del]

definition fileHash :: "io_env \<Rightarrow> string \<Rightarrow> (world, string) prog" where
  "fileHash env p = bindR (read_file env p) (\<lambda>b.
     bindR (io_call env) (\<lambda>_. ret (show_hex (unat (fnv64 b)))))"

definition blobBucketName :: "Configuration \<Rightarrow> string" where
  "blobBucketName c =
     (if os_BucketName (sn_Nats (cf_Snapshot c)) = '''' then nc_StreamPrefix (cf_NATS c) @ ''-snapshot-store''
      else os_BucketName (sn_Nats (cf_Snapshot c)))"

text \<open>The JetStream context, then the bucket, which is made when it is not there.\<close>

definition getBlobStore :: "io_env \<Rightarrow> (world, unit) prog" where
  "getBlobStore env = bindR (io_call env) (\<lambda>_ w.
     case (case io_call env w of
             (Ok _, w1) \<Rightarrow> ((if w_bucket w1 then Ok () else Err NatsErrStreamNotFound), w1)
           | (r, w1) \<Rightarrow> (r, w1)) of
       (Err e, w1) \<Rightarrow>
         if e = NatsErrStreamNotFound then bindR (io_call env) (\<lambda>_ w2. (Ok (), w2\<lparr>w_bucket := True\<rparr>)) w1 else (Err e, w1)
     | (r, w1) \<Rightarrow> (r, w1))"

definition nats_delete :: "io_env \<Rightarrow> string \<Rightarrow> (world, unit) prog" where
  "nats_delete env name = bindR (io_call env) (\<lambda>_ w.
     if w_remote w name = None then (Err NatsErrObjectNotFound, w) else (Ok (), w\<lparr>w_remote := (w_remote w)(name := None)\<rparr>))"

definition nats_Upload :: "io_env \<Rightarrow> string \<Rightarrow> string \<Rightarrow> (world, unit) prog" where
  "nats_Upload env name filePath =
     bindR (getBlobStore env) (\<lambda>_.
     bindR (on_err (\<lambda>e. if e = NatsErrObjectNotFound then Ok () else Err e) (nats_delete env name)) (\<lambda>_.
     bindR (fileHash env filePath) (\<lambda>hash.
     bindR (read_file env filePath) (\<lambda>rfl.
     bindR (io_call env) (\<lambda>_. put_remote name rfl hash)))))"

text \<open>The loop retries while the server answers 503; \<open>attempts\<close> bounds how long it is followed (\<open>Block\<close>: still trying).\<close>

fun nats_get :: "io_env \<Rightarrow> nat \<Rightarrow> string \<Rightarrow> string \<Rightarrow> (world, unit) prog" where
  "nats_get env 0 filePath name w = (Block, w)"
| "nats_get env (Suc attempts) filePath name w =
     (case bindR (get_remote env NatsErrObjectNotFound name) (write_file env filePath) w of
        (Err e, w1) \<Rightarrow>
          if e = NatsErrObjectNotFound then (Err ErrNoSnapshotFound, w1)
          else if e = External 503 then nats_get env attempts filePath name w1
          else (Err e, w1)
      | (r, w1) \<Rightarrow> (r, w1))"

definition nats_Download :: "io_env \<Rightarrow> nat \<Rightarrow> string \<Rightarrow> string \<Rightarrow> (world, unit) prog" where
  "nats_Download env attempts filePath name = bindR (getBlobStore env) (\<lambda>_. nats_get env attempts filePath name)"

section \<open>S3\<close>

definition s3_path :: "string \<Rightarrow> string \<Rightarrow> string" where
  "s3_path dirPath name = dirPath @ ''/'' @ name"

definition s3_Upload :: "io_env \<Rightarrow> string \<Rightarrow> string \<Rightarrow> string \<Rightarrow> (world, unit) prog" where
  "s3_Upload env dirPath name filePath =
     bindR (read_file env filePath) (\<lambda>b. bindR (io_call env) (\<lambda>_. put_remote (s3_path dirPath name) b ''''))"

definition s3_Download :: "io_env \<Rightarrow> string \<Rightarrow> string \<Rightarrow> string \<Rightarrow> (world, unit) prog" where
  "s3_Download env dirPath filePath name =
     on_err (\<lambda>e. if e = External 404 then Err ErrNoSnapshotFound else Err e)
       (bindR (get_remote env (External 404) (s3_path dirPath name)) (write_file env filePath))"

section \<open>WebDAV\<close>

definition makeStoragePath :: "io_env \<Rightarrow> (world, unit) prog" where
  "makeStoragePath env = on_err (\<lambda>e. if e = External 409 then Ok () else Err e) (io_call env)"

definition webdav_temp :: "string \<Rightarrow> nat \<Rightarrow> string \<Rightarrow> string" where
  "webdav_temp nodeName now name = nodeName @ ''-'' @ show_nat now @ ''-temp-'' @ name"

text \<open>The upload goes to a file of its own, which is then renamed over the snapshot.\<close>

definition webdav_write :: "io_env \<Rightarrow> string \<Rightarrow> bytes \<Rightarrow> (world, unit) prog" where
  "webdav_write env key b w =
     (case io_call env w of
        (Ok _, w1) \<Rightarrow> (Ok (), w1\<lparr>w_remote := (w_remote w)(key \<mapsto> (b, ''''))\<rparr>)
      | (r, w1) \<Rightarrow> (r, w1\<lparr>w_remote := (w_remote w)(key \<mapsto> (take (io_torn env (w_tick w)) b, ''''))\<rparr>))"

definition webdav_rename :: "io_env \<Rightarrow> string \<Rightarrow> string \<Rightarrow> (world, unit) prog" where
  "webdav_rename env old new = bindR (io_call env) (\<lambda>_ w.
     case w_remote w old of
       None \<Rightarrow> (Err (External 404), w)
     | Some x \<Rightarrow> (Ok (), w\<lparr>w_remote := ((w_remote w)(old := None))(new \<mapsto> x)\<rparr>))"

definition webdav_Upload :: "io_env \<Rightarrow> string \<Rightarrow> string \<Rightarrow> nat \<Rightarrow> string \<Rightarrow> string \<Rightarrow> (world, unit) prog" where
  "webdav_Upload env dir nodeName now name filePath =
     bindR (read_file env filePath) (\<lambda>rfl.
     bindR (makeStoragePath env) (\<lambda>_.
     bindR (webdav_write env (webdav_temp nodeName now name) rfl) (\<lambda>_.
       webdav_rename env (webdav_temp nodeName now name) (path_Join [''/'', dir, name]))))"

definition webdav_Download :: "io_env \<Rightarrow> string \<Rightarrow> string \<Rightarrow> string \<Rightarrow> (world, unit) prog" where
  "webdav_Download env dir filePath name =
     bindR (on_err (\<lambda>e. if e = External 404 then Err ErrNoSnapshotFound else Err e)
              (get_remote env (External 404) (path_Join [dir, name])))
       (write_file env filePath)"

section \<open>SFTP\<close>

definition sftp_Upload :: "io_env \<Rightarrow> string \<Rightarrow> string \<Rightarrow> string \<Rightarrow> (world, unit) prog" where
  "sftp_Upload env uploadPath name filePath =
     bindR (io_call env) (\<lambda>_.
     bindR (read_file env filePath) (\<lambda>srcFile.
     bindR (io_call env) (\<lambda>_.
     bindR (put_remote (path_Join [uploadPath, name]) [] '''') (\<lambda>_.
       webdav_write env (path_Join [uploadPath, name]) srcFile))))"

definition sftp_Download :: "io_env \<Rightarrow> string \<Rightarrow> string \<Rightarrow> string \<Rightarrow> (world, unit) prog" where
  "sftp_Download env uploadPath filePath name =
     bindR (on_err (\<lambda>e. if e = Errorf ''file does not exist'' then Err ErrNoSnapshotFound else Err e)
              (get_remote env (Errorf ''file does not exist'') (path_Join [uploadPath, name])))
       (write_file env filePath)"

section \<open>Choosing a store\<close>

datatype Storage = NatsStorage | S3Storage string | WebDAVStorage string | SFTPStorage string

text \<open>The interface's two methods; \<open>attempts\<close>, the node's name and the clock are what the stores use beside it.\<close>

fun Upload :: "io_env \<Rightarrow> string \<Rightarrow> nat \<Rightarrow> Storage \<Rightarrow> string \<Rightarrow> string \<Rightarrow> (world, unit) prog" where
  "Upload env nodeName now NatsStorage = nats_Upload env"
| "Upload env nodeName now (S3Storage dirPath) = s3_Upload env dirPath"
| "Upload env nodeName now (WebDAVStorage dir) = webdav_Upload env dir nodeName now"
| "Upload env nodeName now (SFTPStorage uploadPath) = sftp_Upload env uploadPath"

fun Download :: "io_env \<Rightarrow> nat \<Rightarrow> Storage \<Rightarrow> string \<Rightarrow> string \<Rightarrow> (world, unit) prog" where
  "Download env attempts NatsStorage = nats_Download env attempts"
| "Download env attempts (S3Storage dirPath) = s3_Download env dirPath"
| "Download env attempts (WebDAVStorage dir) = webdav_Download env dir"
| "Download env attempts (SFTPStorage uploadPath) = sftp_Download env uploadPath"

text \<open>What the sources read of a parsed URL; the query parameters in order.\<close>

record url =
  u_user :: string
  u_password :: "string option"
  u_host :: string
  u_path :: string
  u_query :: "(string \<times> string) list"

definition qp_Get :: "(string \<times> string) list \<Rightarrow> string \<Rightarrow> string" where
  "qp_Get qp k = (case map_of qp k of None \<Rightarrow> '''' | Some v \<Rightarrow> v)"

definition qp_Del :: "string \<Rightarrow> (string \<times> string) list \<Rightarrow> (string \<times> string) list" where
  "qp_Del k qp = filter (\<lambda>(k', _). k' \<noteq> k) qp"

text \<open>
  The clients of the stores: connecting to NATS, to a WebDAV server (with the URL the parameters are
  taken out of), dialling SSH and starting SFTP, the calls that make an S3 client and look at its
  bucket; and \<open>url.Parse\<close>.
\<close>

record store_env =
  se_connect :: "unit res"
  se_parse :: "string \<Rightarrow> url res"
  se_webdav :: "url \<Rightarrow> string \<Rightarrow> string \<Rightarrow> unit res"
  se_dial :: "string \<Rightarrow> string \<Rightarrow> string list \<Rightarrow> unit res"
  se_sftp :: "unit res"
  se_minio :: "S3Configuration \<Rightarrow> string \<Rightarrow> unit res"
  se_exists :: "string \<Rightarrow> bool res"
  se_mkbucket :: "string \<Rightarrow> unit res"

definition newNatsStorage :: "store_env \<Rightarrow> Storage res" where
  "newNatsStorage env = bindE (se_connect env) (\<lambda>_. Ok NatsStorage)"

definition newS3Storage :: "store_env \<Rightarrow> Configuration \<Rightarrow> Storage res" where
  "newS3Storage env c =
     (let cS3 = sn_S3 (cf_Snapshot c);
          signer = if s3_AccessKey cS3 = '''' \<and> s3_SecretKey cS3 = '''' then ''anonymous'' else ''v4'' in
      bindE (se_minio env cS3 signer) (\<lambda>_.
      bindE (se_exists env (s3_Bucket cS3)) (\<lambda>exists.
      bindE (if \<not> exists then se_mkbucket env (s3_Bucket cS3) else Ok ()) (\<lambda>_.
        Ok (S3Storage (s3_DirPath cS3))))))"

definition newWebDAVStorage :: "store_env \<Rightarrow> Configuration \<Rightarrow> Storage res" where
  "newWebDAVStorage env c =
     bindE (se_parse env (sn_WebDAV (cf_Snapshot c))) (\<lambda>u.
       let qp = u_query u;
           targetDir = (if qp_Get qp ''dir'' = '''' then ''/'' else qp_Get qp ''dir'');
           login = qp_Get qp ''login''; secret = qp_Get qp ''secret'' in
       if login = '''' \<or> secret = '''' then Err ErrRequiredParameterMissing
       else
         bindE (se_webdav env (u\<lparr>u_query := qp_Del ''secret'' (qp_Del ''login'' (qp_Del ''dir'' qp))\<rparr>) login secret)
           (\<lambda>_. Ok (WebDAVStorage targetDir)))"

definition newSFTPStorage :: "store_env \<Rightarrow> Configuration \<Rightarrow> Storage res" where
  "newSFTPStorage env c =
     bindE (se_parse env (sn_SFTP (cf_Snapshot c))) (\<lambda>u.
       let authMethod = (case u_password u of None \<Rightarrow> [] | Some password \<Rightarrow> [password]) in
       bindE (se_dial env (u_host u) (u_user u) authMethod) (\<lambda>_.
       bindE (se_sftp env) (\<lambda>_. Ok (SFTPStorage (u_path u)))))"

definition NewSnapshotStorage :: "store_env \<Rightarrow> Configuration \<Rightarrow> Storage res" where
  "NewSnapshotStorage env c =
     (let t = SnapshotStorageType c in
      if t = SFTP then newSFTPStorage env c
      else if t = WebDAV then newWebDAVStorage env c
      else if t = Nats then newNatsStorage env
      else if t = S3 then newS3Storage env c
      else Err ErrInvalidStorageType)"

section \<open>The contract of a store\<close>

text \<open>\<open>stored w name\<close> is the snapshot a download of \<open>name\<close> would find.\<close>

locale snapshot_storage =
  fixes upload :: "string \<Rightarrow> string \<Rightarrow> (world, unit) prog"
    and download :: "string \<Rightarrow> string \<Rightarrow> (world, unit) prog"
    and stored :: "world \<Rightarrow> string \<Rightarrow> bytes option"
    and works :: bool
  assumes stored_remote: "w_remote w = w_remote v \<Longrightarrow> stored w = stored v"
    and upload_frame: "upload name p w = (r, w') \<Longrightarrow> w_files w' = w_files w \<and> w_lock w' = w_lock w \<and> returns r"
    and upload_ok: "upload name p w = (Ok (), w') \<Longrightarrow> stored w' name = w_files w p \<and> w_files w p \<noteq> None"
    and upload_works: "works \<Longrightarrow> w_files w p \<noteq> None \<Longrightarrow> fst (upload name p w) = Ok ()"
    and download_frame: "download p name w = (r, w') \<Longrightarrow>
       (\<forall>q. q \<noteq> p \<longrightarrow> w_files w' q = w_files w q) \<and> w_remote w' = w_remote w \<and> w_lock w' = w_lock w"
    and download_ok: "download p name w = (Ok (), w') \<Longrightarrow> w_files w' p = stored w name \<and> stored w name \<noteq> None"
    and download_works: "works \<Longrightarrow> stored w name \<noteq> None \<Longrightarrow> fst (download p name w) = Ok ()"
    and download_missing: "works \<Longrightarrow> stored w name = None \<Longrightarrow> fst (download p name w) = Err ErrNoSnapshotFound"
begin

lemma upload_download:
  assumes up: "upload name p w = (Ok (), w1)" and v: "w_remote v = w_remote w1" and down: "download q name v = (r, v1)"
  shows "r = Ok () \<Longrightarrow> w_files v1 q = w_files w p" and "works \<Longrightarrow> r = Ok ()"
proof -
  have s: "stored v name = w_files w p" "w_files w p \<noteq> None" using upload_ok [OF up] stored_remote [OF v] by auto
  then show "works \<Longrightarrow> r = Ok ()" using download_works [of v name q] down by simp
  show "w_files v1 q = w_files w p" if "r = Ok ()" using download_ok [of q name v v1] down that s by auto
qed

end

section \<open>The stores keep it\<close>

definition no_io_faults :: "io_env \<Rightarrow> bool" where
  "no_io_faults env \<longleftrightarrow> (\<forall>n. io_fault env n = None)"

lemma io_call_cases:
  obtains "io_call env w = (Ok (), w\<lparr>w_tick := Suc (w_tick w)\<rparr>)"
  | e where "io_call env w = (Err e, w\<lparr>w_tick := Suc (w_tick w)\<rparr>)" "\<not> no_io_faults env"
  by (cases "io_fault env (w_tick w)") (auto simp: io_call_def no_io_faults_def)

lemma io_call_healthy: "no_io_faults env \<Longrightarrow> io_call env w = (Ok (), w\<lparr>w_tick := Suc (w_tick w)\<rparr>)"
  by (simp add: io_call_def no_io_faults_def)

lemmas io_defs = io_call_def read_file_def write_file_def put_remote_def get_remote_def on_err_def fileHash_def bindR_def ret_def

definition stored_at :: "(string \<Rightarrow> string) \<Rightarrow> world \<Rightarrow> string \<Rightarrow> bytes option" where
  "stored_at key w name = map_option fst (w_remote w (key name))"

text \<open>What a download does, with \<open>st\<close> the snapshot it should find.\<close>

definition fetches :: "bool \<Rightarrow> bytes option \<Rightarrow> string \<Rightarrow> world \<Rightarrow> unit res \<times> world \<Rightarrow> bool" where
  "fetches works st p w x \<longleftrightarrow> (case x of (r, w') \<Rightarrow>
     (\<forall>q. q \<noteq> p \<longrightarrow> w_files w' q = w_files w q) \<and> w_remote w' = w_remote w \<and> w_lock w' = w_lock w \<and>
     (r = Ok () \<longrightarrow> w_files w' p = st \<and> st \<noteq> None) \<and>
     (works \<longrightarrow> r = (if st = None then Err ErrNoSnapshotFound else Ok ())))"

text \<open>What an upload does.\<close>

definition stores :: "bool \<Rightarrow> (string \<Rightarrow> string) \<Rightarrow> string \<Rightarrow> string \<Rightarrow> world \<Rightarrow> unit res \<times> world \<Rightarrow> bool" where
  "stores works key name p w x \<longleftrightarrow> (case x of (r, w') \<Rightarrow>
     w_files w' = w_files w \<and> w_lock w' = w_lock w \<and> returns r \<and>
     (r = Ok () \<longrightarrow> stored_at key w' name = w_files w p \<and> w_files w p \<noteq> None) \<and>
     (works \<and> w_files w p \<noteq> None \<longrightarrow> r = Ok ()))"

lemma storage_contractI:
  assumes up: "\<And>name p w. stores works key name p w (up name p w)"
    and down: "\<And>name p w. fetches works (stored_at key w name) p w (down p name w)"
  shows "snapshot_storage up down (stored_at key) works"
proof unfold_locales
  fix name p w
  note u = up [of name p w] and d = down [of w name p]
  show "works \<Longrightarrow> w_files w p \<noteq> None \<Longrightarrow> fst (up name p w) = Ok ()" using u by (auto simp: stores_def split: prod.splits)
  show "works \<Longrightarrow> stored_at key w name \<noteq> None \<Longrightarrow> fst (down p name w) = Ok ()"
    and "works \<Longrightarrow> stored_at key w name = None \<Longrightarrow> fst (down p name w) = Err ErrNoSnapshotFound"
    using d by (auto simp: fetches_def split: prod.splits)
  show "w_files w' = w_files w \<and> w_lock w' = w_lock w \<and> returns r" if "up name p w = (r, w')" for r w'
    using u that by (simp add: stores_def)
  show "stored_at key w' name = w_files w p \<and> w_files w p \<noteq> None" if "up name p w = (Ok (), w')" for w'
    using u that by (simp add: stores_def)
  show "(\<forall>q. q \<noteq> p \<longrightarrow> w_files w' q = w_files w q) \<and> w_remote w' = w_remote w \<and> w_lock w' = w_lock w" if "down p name w = (r, w')" for r w'
    using d that by (simp add: fetches_def)
  show "w_files w' p = stored_at key w name \<and> stored_at key w name \<noteq> None" if "down p name w = (Ok (), w')" for w'
    using d that by (simp add: fetches_def)
qed (simp add: stored_at_def [abs_def])

lemma s3_contract: "snapshot_storage (s3_Upload env d) (s3_Download env d) (stored_at (s3_path d)) (no_io_faults env)"
proof (rule storage_contractI)
  show "stores (no_io_faults env) (s3_path d) name p w (s3_Upload env d name p w)" for name p w
    by (auto simp: stores_def s3_Upload_def io_defs stored_at_def no_io_faults_def split: option.splits)
  show "fetches (no_io_faults env) (stored_at (s3_path d) w name) p w (s3_Download env d p name w)" for name p w
    by (auto simp: fetches_def s3_Download_def io_defs stored_at_def no_io_faults_def split: option.splits)
qed

lemma sftp_contract: "snapshot_storage (sftp_Upload env d) (sftp_Download env d) (stored_at (\<lambda>n. path_Join [d, n])) (no_io_faults env)"
proof (rule storage_contractI)
  show "stores (no_io_faults env) (\<lambda>n. path_Join [d, n]) name p w (sftp_Upload env d name p w)" for name p w
    by (auto simp: stores_def sftp_Upload_def webdav_write_def io_defs stored_at_def no_io_faults_def split: option.splits)
  show "fetches (no_io_faults env) (stored_at (\<lambda>n. path_Join [d, n]) w name) p w (sftp_Download env d p name w)" for name p w
    by (auto simp: fetches_def sftp_Download_def io_defs stored_at_def no_io_faults_def split: option.splits)
qed

text \<open>The upload names its target from the root, the download as configured: the same for a rooted directory.\<close>

lemma split_slash_sep: "split_slash (CHR ''/'' # s) = [] # split_slash s"
  by simp

lemma join_rooted:
  assumes "has_prefix d ''/''" shows "path_Join [''/'', d, n] = path_Join [d, n]"
proof -
  obtain d' where d: "d = CHR ''/'' # d'" using assms by (cases d) auto
  show ?thesis by (cases "n = []") (simp_all add: path_Join_def path_Clean_def d Let_def)
qed

lemma webdav_contract:
  assumes "has_prefix d ''/''"
  shows "snapshot_storage (webdav_Upload env d node now) (webdav_Download env d) (stored_at (\<lambda>n. path_Join [d, n])) (no_io_faults env)"
proof (rule storage_contractI)
  show "stores (no_io_faults env) (\<lambda>n. path_Join [d, n]) name p w (webdav_Upload env d node now name p w)" for name p w
    unfolding webdav_Upload_def join_rooted [OF assms]
    by (auto simp: stores_def makeStoragePath_def webdav_write_def webdav_rename_def io_defs stored_at_def no_io_faults_def
        split: option.splits)
  show "fetches (no_io_faults env) (stored_at (\<lambda>n. path_Join [d, n]) w name) p w (webdav_Download env d p name w)" for name p w
    by (auto simp: fetches_def webdav_Download_def io_defs stored_at_def no_io_faults_def split: option.splits)
qed

lemma getBlobStore_frame:
  "getBlobStore env w = (r, w') \<Longrightarrow> returns r \<and> w_files w' = w_files w \<and> w_remote w' = w_remote w \<and> w_lock w' = w_lock w \<and>
     (no_io_faults env \<longrightarrow> r = Ok ())"
  by (auto simp: getBlobStore_def io_call_def bindR_def no_io_faults_def split: option.splits if_splits prod.splits)

lemma nats_get_fetches:
  "fetches (no_io_faults env \<and> 0 < n) (stored_at (\<lambda>n. n) w name) p w (nats_get env n p name w)"
proof (induction n arbitrary: w)
  case 0
  then show ?case by (simp add: fetches_def)
next
  case (Suc n)
  obtain r w1 where g: "bindR (get_remote env NatsErrObjectNotFound name) (write_file env p) w = (r, w1)" by fastforce
  then have f: "(\<forall>q. q \<noteq> p \<longrightarrow> w_files w1 q = w_files w q) \<and> w_remote w1 = w_remote w \<and> w_lock w1 = w_lock w \<and>
     (r = Ok () \<longrightarrow> w_files w1 p = stored_at (\<lambda>n. n) w name \<and> stored_at (\<lambda>n. n) w name \<noteq> None) \<and>
     (no_io_faults env \<longrightarrow> r = (if stored_at (\<lambda>n. n) w name = None then Err NatsErrObjectNotFound else Ok ()))"
    by (auto simp: io_defs stored_at_def no_io_faults_def split: option.splits)
  show ?case
  proof (cases "r = Err (External 503)")
    case True
    with f Suc.IH [of w1] g show ?thesis by (auto simp: fetches_def stored_at_def split: prod.splits)
  next
    case False
    with f g show ?thesis by (cases r) (auto simp: fetches_def)
  qed
qed

text \<open>A call before the upload that leaves the files alone.\<close>

definition quiet :: "bool \<Rightarrow> (world, unit) prog \<Rightarrow> bool" where
  "quiet works f \<longleftrightarrow> (\<forall>w r w'. f w = (r, w') \<longrightarrow> returns r \<and> w_files w' = w_files w \<and> w_lock w' = w_lock w \<and> (works \<longrightarrow> r = Ok ()))"

lemma stores_bind:
  assumes q: "quiet works f" and k: "\<And>w u. stores works key name p w (k u w)"
  shows "stores works key name p w (bindR f k w)"
proof -
  obtain r w1 where f: "f w = (r, w1)" by fastforce
  with q have r: "returns r" "w_files w1 = w_files w" "w_lock w1 = w_lock w" "works \<longrightarrow> r = Ok ()" by (auto simp: quiet_def)
  from r(1) show ?thesis
  proof (cases rule: returnsE)
    case (1 u)
    with k [of w1 u] r f show ?thesis by (auto simp: stores_def bindR_def split: prod.splits)
  next
    case (2 e)
    with r f show ?thesis by (auto simp: stores_def bindR_def)
  qed
qed

lemma nats_contract:
  assumes "0 < attempts"
  shows "snapshot_storage (nats_Upload env) (nats_Download env attempts) (stored_at (\<lambda>n. n)) (no_io_faults env)"
proof (rule storage_contractI)
  show "fetches (no_io_faults env) (stored_at (\<lambda>n. n) w name) p w (nats_Download env attempts p name w)" for name p w
  proof -
    obtain r w1 where g: "getBlobStore env w = (r, w1)" by fastforce
    from nats_get_fetches [of env attempts w1 name p] getBlobStore_frame [OF g] g assms show ?thesis
      by (cases r) (auto simp: fetches_def nats_Download_def bindR_def stored_at_def split: prod.splits)
  qed
  show "stores (no_io_faults env) (\<lambda>n. n) name p w (nats_Upload env name p w)" for name p w
    unfolding nats_Upload_def
  proof (intro stores_bind)
    show "quiet (no_io_faults env) (getBlobStore env)" using getBlobStore_frame by (simp add: quiet_def)
    show "quiet (no_io_faults env) (on_err (\<lambda>e. if e = NatsErrObjectNotFound then Ok () else Err e) (nats_delete env name))"
      by (auto simp: quiet_def nats_delete_def io_defs no_io_faults_def split: option.splits if_splits)
  qed (auto simp: stores_def io_defs stored_at_def no_io_faults_def split: option.splits)
qed

text \<open>The interface dispatches on the store; the contract holds for each.\<close>

fun storage_key :: "Storage \<Rightarrow> string \<Rightarrow> string" where
  "storage_key NatsStorage n = n"
| "storage_key (S3Storage d) n = s3_path d n"
| "storage_key (WebDAVStorage d) n = path_Join [d, n]"
| "storage_key (SFTPStorage d) n = path_Join [d, n]"

fun storage_rooted :: "Storage \<Rightarrow> bool" where
  "storage_rooted (WebDAVStorage d) \<longleftrightarrow> has_prefix d ''/''"
| "storage_rooted _ \<longleftrightarrow> True"

interpretation s3: snapshot_storage "s3_Upload env d" "s3_Download env d" "stored_at (s3_path d)" "no_io_faults env" for env d
  by (rule s3_contract)

interpretation sftp: snapshot_storage "sftp_Upload env d" "sftp_Download env d" "stored_at (\<lambda>n. path_Join [d, n])" "no_io_faults env" for env d
  by (rule sftp_contract)

interpretation webdav: snapshot_storage "webdav_Upload env (CHR ''/'' # d) node now" "webdav_Download env (CHR ''/'' # d)"
  "stored_at (\<lambda>n. path_Join [CHR ''/'' # d, n])" "no_io_faults env" for env d node now
  by (rule webdav_contract) simp

interpretation nats: snapshot_storage "nats_Upload env" "nats_Download env (Suc attempts)" "stored_at (\<lambda>n. n)" "no_io_faults env" for env attempts
  by (rule nats_contract) simp

lemma storage_key_eq: "storage_key NatsStorage = (\<lambda>n. n)" "storage_key (S3Storage d) = s3_path d"
  "storage_key (WebDAVStorage d) = (\<lambda>n. path_Join [d, n])" "storage_key (SFTPStorage d) = (\<lambda>n. path_Join [d, n])"
  by (rule ext, simp)+

lemma storage_contract:
  assumes "storage_rooted st" and "0 < attempts"
  shows "snapshot_storage (Upload env node now st) (Download env attempts st) (stored_at (storage_key st)) (no_io_faults env)"
proof (cases st)
  case NatsStorage
  then show ?thesis using nats_contract [OF assms(2), of env] by (simp add: storage_key_eq)
next
  case (WebDAVStorage d)
  then show ?thesis using webdav_contract [of d env node now] assms(1) by (simp add: storage_key_eq)
qed (use s3_contract sftp_contract in \<open>simp_all add: storage_key_eq\<close>)

end
