(* ===== verification/Snapshot.thy ===== *)
theory Snapshot
  imports Storage Install
begin

text \<open>
  Saving and restoring a snapshot: \<open>BackupTo\<close>, \<open>copyFile\<close> and \<open>RestoreFrom\<close> of \<open>db/sqlite.go\<close>, and
  \<open>SaveSnapshot\<close>, \<open>RestoreSnapshot\<close>, \<open>cleanupDir\<close> of \<open>snapshot/db_snapshot.go\<close>, over any store that keeps
  the contract. A database is its files; what SQLite writes in them is an argument (\<open>sqlite_fmt\<close>).
\<close>

section \<open>Databases as files\<close>

text \<open>
  \<open>fm_dec\<close> reads a database from its main file and its write-ahead log, \<open>fm_enc\<close> is the main file of a
  database without one, \<open>fm_shm\<close> what a fresh shared-memory file holds.
\<close>

record sqlite_fmt =
  fm_enc :: "sqldb \<times> catalog \<Rightarrow> bytes"
  fm_dec :: "bytes option \<Rightarrow> bytes option \<Rightarrow> (sqldb \<times> catalog) option"
  fm_shm :: bytes

definition db_image :: "sqlite_fmt \<Rightarrow> (string \<rightharpoonup> bytes) \<Rightarrow> string \<Rightarrow> (sqldb \<times> catalog) option" where
  "db_image fm files p = fm_dec fm (files p) (files (p @ ''-wal''))"

text \<open>Opening in WAL mode and beginning a transaction: the two side files are there afterwards.\<close>

definition open_wal :: "io_env \<Rightarrow> sqlite_fmt \<Rightarrow> string \<Rightarrow> (world, unit) prog" where
  "open_wal env fm p = bindR (io_call env) (\<lambda>_ w.
     (Ok (), w\<lparr>w_files := (w_files w)
        (p \<mapsto> (case w_files w p of None \<Rightarrow> [] | Some b \<Rightarrow> b),
         p @ ''-shm'' \<mapsto> (case w_files w (p @ ''-shm'') of None \<Rightarrow> fm_shm fm | Some b \<Rightarrow> b),
         p @ ''-wal'' \<mapsto> (case w_files w (p @ ''-wal'') of None \<Rightarrow> [] | Some b \<Rightarrow> b))\<rparr>))"

text \<open>Statements on a database file opened with a rollback journal.\<close>

definition on_file :: "io_env \<Rightarrow> sqlite_fmt \<Rightarrow> string \<Rightarrow> (faults \<Rightarrow> (rawdb, 'a) prog) \<Rightarrow> (world, 'a) prog" where
  "on_file env fm p f w =
     (case db_image fm (w_files w) p of
        None \<Rightarrow> (Err (Errorf ''file is not a database''), w)
      | Some (d, c) \<Rightarrow>
          (case f (io_fault env) \<lparr>rd_tick = w_tick w, rd_db = d, rd_cat = c\<rparr> of
             (r, v) \<Rightarrow> (r, w\<lparr>w_tick := rd_tick v, w_files := (w_files w)(p \<mapsto> fm_enc fm (rd_db v, rd_cat v))\<rparr>)))"

section \<open>Backup and restore\<close>

definition vacuum_into :: "io_env \<Rightarrow> sqlite_fmt \<Rightarrow> string \<Rightarrow> string \<Rightarrow> (world, unit) prog" where
  "vacuum_into env fm dbPath bkFilePath = bindR (io_call env) (\<lambda>_ w.
     case db_image fm (w_files w) dbPath of
       None \<Rightarrow> (Err (Errorf ''file is not a database''), w)
     | Some x \<Rightarrow>
         if w_files w bkFilePath \<noteq> None then (Err (Errorf ''output file already exists''), w)
         else (Ok (), w\<lparr>w_files := (w_files w)(bkFilePath \<mapsto> fm_enc fm x)\<rparr>))"

text \<open>The calls in order: open, copy, close twice, open the copy, remove what belongs to marmot, vacuum.\<close>

definition BackupTo :: "io_env \<Rightarrow> sqlite_fmt \<Rightarrow> string \<Rightarrow> string \<Rightarrow> string \<Rightarrow> (world, unit) prog" where
  "BackupTo env fm pfx dbPath bkFilePath =
     bindR (io_call env) (\<lambda>_.
     bindR (vacuum_into env fm dbPath bkFilePath) (\<lambda>_.
     bindR (io_call env) (\<lambda>_.
     bindR (io_call env) (\<lambda>_.
     bindR (io_call env) (\<lambda>_.
     bindR (on_file env fm bkFilePath (\<lambda>fault. removeMarmotTriggers fault pfx)) (\<lambda>_.
     bindR (on_file env fm bkFilePath (\<lambda>fault. removeMarmotTables fault pfx)) (\<lambda>_.
     bindR (io_call env) (\<lambda>_. ret ()))))))))"

definition copyFile :: "io_env \<Rightarrow> string \<Rightarrow> string \<Rightarrow> (world, unit) prog" where
  "copyFile env toPath fromPath = bindR (read_file env fromPath) (write_file env toPath)"

definition RestoreFrom :: "io_env \<Rightarrow> sqlite_fmt \<Rightarrow> (int \<times> int \<times> int) res list \<Rightarrow> string \<Rightarrow> string \<Rightarrow> (world, unit) prog" where
  "RestoreFrom env fm checkpoints destPath bkFilePath =
     bindR (open_wal env fm destPath) (\<lambda>_.
     bindR (open_wal env fm bkFilePath) (\<lambda>_.
     bindR (io_call env) (\<lambda>_.
     bindR (io_call env) (\<lambda>_.
     bindR (copyFile env destPath bkFilePath) (\<lambda>_.
     bindR (copyFile env (destPath @ ''-shm'') (bkFilePath @ ''-shm'')) (\<lambda>_.
     bindR (copyFile env (destPath @ ''-wal'') (bkFilePath @ ''-wal'')) (\<lambda>_.
     bindR (io_call env) (\<lambda>_.
     bindR (io_call env) (\<lambda>_.
       lift_res (performCheckpoint checkpoints))))))))))"

section \<open>Snapshots\<close>

definition snapshotFileName :: string where
  "snapshotFileName = ''snapshot.db''"

text \<open>\<open>os.RemoveAll\<close>, tried five times.\<close>

fun cleanup_tries :: "io_env \<Rightarrow> nat \<Rightarrow> string \<Rightarrow> world \<Rightarrow> world" where
  "cleanup_tries env 0 p w = w"
| "cleanup_tries env (Suc n) p w =
     (case io_call env w of
        (Ok _, w1) \<Rightarrow> w1\<lparr>w_files := (\<lambda>q. if has_prefix q (p @ ''/'') then None else w_files w1 q)\<rparr>
      | (_, w1) \<Rightarrow> cleanup_tries env n p w1)"

definition cleanupDir :: "io_env \<Rightarrow> string \<Rightarrow> world \<Rightarrow> world" where
  "cleanupDir env p w = cleanup_tries env 5 p w"

text \<open>\<open>MkdirTemp\<close> with the deferred \<open>cleanupDir\<close>.\<close>

definition with_temp :: "io_env \<Rightarrow> (string \<Rightarrow> (world, unit) prog) \<Rightarrow> (world, unit) prog" where
  "with_temp env body w =
     (let tmp = io_tmp env (w_tick w) in
      bindR (io_call env) (\<lambda>_ w1. case body tmp w1 of (Block, w2) \<Rightarrow> (Block, w2) | (r, w2) \<Rightarrow> (r, cleanupDir env tmp w2)) w)"

definition unlocked :: "unit res \<times> world \<Rightarrow> unit res \<times> world" where
  "unlocked x = (case x of (Block, w) \<Rightarrow> (Block, w) | (r, w) \<Rightarrow> (r, w\<lparr>w_lock := False\<rparr>))"

text \<open>The two methods take the store's \<open>Upload\<close> and \<open>Download\<close>.\<close>

definition db_SaveSnapshot ::
  "io_env \<Rightarrow> sqlite_fmt \<Rightarrow> string \<Rightarrow> (string \<Rightarrow> string \<Rightarrow> (world, unit) prog) \<Rightarrow> string \<Rightarrow> (world, unit) prog" where
  "db_SaveSnapshot env fm pfx upload dbPath w =
     (if w_lock w then (Err ErrPendingSnapshot, w)
      else unlocked (with_temp env (\<lambda>tmpSnapshot.
        let bkFilePath = path_Join [tmpSnapshot, snapshotFileName] in
        bindR (BackupTo env fm pfx dbPath bkFilePath) (\<lambda>_. upload snapshotFileName bkFilePath)) (w\<lparr>w_lock := True\<rparr>)))"

definition db_RestoreSnapshot ::
  "io_env \<Rightarrow> sqlite_fmt \<Rightarrow> (int \<times> int \<times> int) res list \<Rightarrow> (string \<Rightarrow> string \<Rightarrow> (world, unit) prog) \<Rightarrow> string \<Rightarrow> (world, unit) prog" where
  "db_RestoreSnapshot env fm checkpoints download dbPath w =
     (if w_lock w then (Block, w)
      else unlocked (with_temp env (\<lambda>tmpSnapshotPath w1.
        let bkFilePath = path_Join [tmpSnapshotPath, snapshotFileName] in
        (case download bkFilePath snapshotFileName w1 of
           (Err e, w2) \<Rightarrow> if e = ErrNoSnapshotFound then (Ok (), w2) else (Err e, w2)
         | (Ok _, w2) \<Rightarrow> RestoreFrom env fm checkpoints dbPath bkFilePath w2
         | (r, w2) \<Rightarrow> (r, w2))) (w\<lparr>w_lock := True\<rparr>)))"

section \<open>Rules\<close>

text \<open>A database with some of its tables, triggers and indexes gone.\<close>

definition pruned :: "sqldb \<times> catalog \<Rightarrow> sqldb \<times> catalog \<Rightarrow> bool" where
  "pruned x y \<longleftrightarrow>
     (\<forall>t. fst y t = fst x t \<or> fst y t = None) \<and> cat_info (snd y) = cat_info (snd x) \<and>
     subseq (cat_tables (snd y)) (cat_tables (snd x)) \<and> subseq (cat_triggers (snd y)) (cat_triggers (snd x)) \<and>
     subseq (cat_indexes (snd y)) (cat_indexes (snd x))"

text \<open>SQLite reads back what it wrote, with no log or an empty one: the database \<open>x\<close>, or what is left of it.\<close>

definition fmt_ok :: "sqlite_fmt \<Rightarrow> sqldb \<times> catalog \<Rightarrow> bool" where
  "fmt_ok fm x \<longleftrightarrow> (\<forall>y. pruned x y \<longrightarrow>
     fm_dec fm (Some (fm_enc fm y)) None = Some y \<and> fm_dec fm (Some (fm_enc fm y)) (Some []) = Some y)"

lemma pruned_refl [simp]: "pruned x x"
  by (simp add: pruned_def)

lemma pruned_trans: "pruned x y \<Longrightarrow> pruned y z \<Longrightarrow> pruned x z"
  unfolding pruned_def by (metis subseq_order.order_trans)

lemma pruned_raw_exec:
  assumes "\<exists>n. st = DropTable n \<or> st = DropTrigger n" and "raw_exec fault st w = (r, w')"
  shows "pruned (rd_db w, rd_cat w) (rd_db w', rd_cat w')"
  using assms by (auto simp: raw_exec_def raw_call_def bindR_def pruned_def split: option.splits if_splits)

lemma pruned_drop_each:
  assumes "\<And>n. \<exists>m. f n = DropTable m \<or> f n = DropTrigger m"
  shows "drop_each fault f ns w = (r, w') \<Longrightarrow> pruned (rd_db w, rd_cat w) (rd_db w', rd_cat w')"
proof (induction ns arbitrary: w)
  case (Cons n ns)
  obtain r1 w1 where e: "raw_exec fault (f n) w = (r1, w1)" by fastforce
  note p = pruned_raw_exec [OF assms e]
  from Cons.prems e Cons.IH [of w1] pruned_trans [OF p] p show ?case
    by (cases r1) (auto simp: bindR_def)
qed (simp add: ret_def)

lemma pruned_remove:
  "removeMarmotTriggers fault p w = (r, w') \<Longrightarrow> pruned (rd_db w, rd_cat w) (rd_db w', rd_cat w')"
  "removeMarmotTables fault p w = (r, w') \<Longrightarrow> pruned (rd_db w, rd_cat w) (rd_db w', rd_cat w')"
  using pruned_drop_each [of DropTrigger fault _ "w\<lparr>rd_tick := Suc (rd_tick w)\<rparr>"] pruned_drop_each [of DropTable fault _ "w\<lparr>rd_tick := Suc (rd_tick w)\<rparr>"]
  by (auto simp: removeMarmotTriggers_def removeMarmotTables_def raw_call_def bindR_def split: option.splits)

lemma pruned_remove_both:
  "bindR (removeMarmotTriggers fault p) (\<lambda>_. removeMarmotTables fault p) w = (r, w') \<Longrightarrow> pruned (rd_db w, rd_cat w) (rd_db w', rd_cat w')"
  by (auto simp: bindR_def split: prod.splits res.splits dest: pruned_remove intro: pruned_trans)

definition gives :: "('s, 'a) prog \<Rightarrow> 's \<Rightarrow> ('a res \<Rightarrow> 's \<Rightarrow> bool) \<Rightarrow> bool" where
  "gives f s P \<longleftrightarrow> (\<exists>r s'. f s = (r, s') \<and> returns r \<and> P r s')"

lemma gives_bind:
  assumes "gives f s P" and "\<And>a s1. P (Ok a) s1 \<Longrightarrow> gives (k a) s1 Q" and "\<And>e s1. P (Err e) s1 \<Longrightarrow> Q (Err e) s1"
  shows "gives (bindR f k) s Q"
proof -
  from assms(1) obtain r s1 where f: "f s = (r, s1)" "returns r" "P r s1" by (auto simp: gives_def)
  from f(2) show ?thesis
  proof (cases rule: returnsE)
    case (1 a)
    with f assms(2) [of a s1] show ?thesis by (auto simp: gives_def bindR_def)
  next
    case (2 e)
    with f assms(3) [of e s1] show ?thesis by (auto simp: gives_def bindR_def)
  qed
qed

lemma gives_weaken: "gives f s P \<Longrightarrow> (\<And>r s'. P r s' \<Longrightarrow> Q r s') \<Longrightarrow> gives f s Q"
  by (auto simp: gives_def)

lemma gives_io_call:
  "gives (io_call env) w (\<lambda>r w'. w' = w\<lparr>w_tick := Suc (w_tick w)\<rparr> \<and> (no_io_faults env \<longrightarrow> r = Ok ()))"
  by (cases rule: io_call_cases [of env w]) (auto simp: gives_def)

lemma bindR_first: "f s = g s \<Longrightarrow> bindR f k s = bindR g k s"
  by (simp add: bindR_def)

text \<open>Worlds that differ in nothing but the counter.\<close>

definition later :: "world \<Rightarrow> world \<Rightarrow> bool" where
  "later w w' \<longleftrightarrow> (\<exists>k. w' = w\<lparr>w_tick := k\<rparr>)"

lemma later_refl [simp]: "later w w" "later w (w\<lparr>w_tick := k\<rparr>)"
  by (auto simp: later_def intro: exI [of _ "w_tick w"])

lemma later_trans: "later w w1 \<Longrightarrow> later w1 w2 \<Longrightarrow> later w w2"
  by (auto simp: later_def)

lemma later_fields: "later w w' \<Longrightarrow> w_files w' = w_files w \<and> w_remote w' = w_remote w \<and> w_lock w' = w_lock w"
  by (auto simp: later_def)

lemma gives_tick:
  assumes "\<And>w1. later w w1 \<Longrightarrow> gives k w1 Q" and "\<And>e w1. later w w1 \<Longrightarrow> \<not> no_io_faults env \<Longrightarrow> Q (Err e) w1"
  shows "gives (bindR (io_call env) (\<lambda>_. k)) w Q"
  by (rule gives_bind [OF gives_io_call]) (use assms in auto)

section \<open>Backup\<close>

lemma on_file_bind:
  assumes fm: "fmt_ok fm x" and im: "db_image fm (w_files w) p = Some x"
    and keep: "\<And>fault v r v'. f fault v = (r, v') \<Longrightarrow> pruned (rd_db v, rd_cat v) (rd_db v', rd_cat v')" and wal: "w_files w (p @ ''-wal'') = None"
  shows "bindR (on_file env fm p f) (\<lambda>_. on_file env fm p g) w = on_file env fm p (\<lambda>fault. bindR (f fault) (\<lambda>_. g fault)) w"
proof -
  obtain d c where x: "x = (d, c)" by (cases x)
  obtain r v where f: "f (io_fault env) \<lparr>rd_tick = w_tick w, rd_db = d, rd_cat = c\<rparr> = (r, v)" by fastforce
  have "db_image fm ((w_files w)(p \<mapsto> fm_enc fm (rd_db v, rd_cat v))) p = Some (rd_db v, rd_cat v)"
    using fm wal keep [OF f] x by (simp add: db_image_def fmt_ok_def)
  then show ?thesis using im x f by (cases r; cases v) (auto simp: on_file_def bindR_def split: prod.splits)
qed

text \<open>What the copy is: the database without what matches the pattern.\<close>

definition clean_copy :: "string \<Rightarrow> sqldb \<times> catalog \<Rightarrow> sqldb \<times> catalog \<Rightarrow> bool" where
  "clean_copy p x y \<longleftrightarrow>
     fst y = (\<lambda>t. if like (p @ ''%'') t then None else fst x t) \<and>
     (\<forall>n t. (n, t) \<in> set (cat_triggers (snd y)) \<longrightarrow> (n, t) \<in> set (cat_triggers (snd x)) \<and> \<not> like (p @ ''%'') n) \<and>
     (\<forall>n t. (n, t) \<in> set (cat_triggers (snd x)) \<longrightarrow> \<not> like (p @ ''%'') n \<longrightarrow> \<not> like (p @ ''%'') t \<longrightarrow> (n, t) \<in> set (cat_triggers (snd y)))"

lemma removed_clean:
  assumes "marmot_removed p True True w w'" and "cat_ok (rd_db w) (rd_cat w)"
  shows "clean_copy p (rd_db w, rd_cat w) (rd_db w', rd_cat w')"
proof -
  have a: "\<not> like (p @ ''%'') t \<Longrightarrow> rd_db w' t = rd_db w t" for t
    using assms(1) unfolding marmot_removed_def by blast
  have b: "like (p @ ''%'') t \<Longrightarrow> rd_db w' t = None" for t
    using assms unfolding marmot_removed_def cat_ok_def if_True by blast
  have c: "\<not> like (p @ ''%'') n \<Longrightarrow> \<not> like (p @ ''%'') t \<Longrightarrow> (n, t) \<in> set (cat_triggers (rd_cat w)) \<Longrightarrow> (n, t) \<in> set (cat_triggers (rd_cat w'))" for n t
    using assms(1) unfolding marmot_removed_def by blast
  have d: "(n, t) \<in> set (cat_triggers (rd_cat w')) \<Longrightarrow> (n, t) \<in> set (cat_triggers (rd_cat w)) \<and> \<not> like (p @ ''%'') n" for n t
    using assms(1) unfolding marmot_removed_def by blast
  have "rd_db w' = (\<lambda>t. if like (p @ ''%'') t then None else rd_db w t)" using a b by (auto simp: fun_eq_iff)
  then show ?thesis unfolding clean_copy_def fst_conv snd_conv using c d by blast
qed

text \<open>Only the file of the copy changes; when the backup succeeds it is a clean copy.\<close>

definition backed_up :: "io_env \<Rightarrow> sqlite_fmt \<Rightarrow> string \<Rightarrow> sqldb \<times> catalog \<Rightarrow> string \<Rightarrow> world \<Rightarrow> unit res \<Rightarrow> world \<Rightarrow> bool" where
  "backed_up env fm p x bk w r w' \<longleftrightarrow>
     (\<forall>q. q \<noteq> bk \<longrightarrow> w_files w' q = w_files w q) \<and> w_remote w' = w_remote w \<and> w_lock w' = w_lock w \<and>
     (no_io_faults env \<longrightarrow> r = Ok ()) \<and>
     (r = Ok () \<longrightarrow> (\<exists>y. clean_copy p x y \<and> pruned x y \<and> w_files w' bk = Some (fm_enc fm y)))"

lemma backed_up_later: "backed_up env fm p x bk w r w1 \<Longrightarrow> later w1 w2 \<Longrightarrow> backed_up env fm p x bk w r w2"
  using later_fields [of w1 w2] by (simp add: backed_up_def)

lemma vacuum_gives:
  assumes "db_image fm (w_files w) dbPath = Some x" and "w_files w bk = None"
  shows "gives (vacuum_into env fm dbPath bk) w (\<lambda>r w'.
     (r = Ok () \<longrightarrow> later (w\<lparr>w_files := (w_files w)(bk \<mapsto> fm_enc fm x)\<rparr>) w') \<and> (r \<noteq> Ok () \<longrightarrow> later w w') \<and> (no_io_faults env \<longrightarrow> r = Ok ()))"
  unfolding vacuum_into_def
  by (rule gives_bind [OF gives_io_call]) (use assms in \<open>auto simp: gives_def later_def intro!: exI [of _ "Suc (w_tick w)"]\<close>)

lemma remove_file_gives:
  assumes fm: "fmt_ok fm (d, c)" and wal: "w_files w (bk @ ''-wal'') = None" and f: "w_files w bk = Some (fm_enc fm (d, c))"
    and ok: "cat_ok d c"
  shows "gives (on_file env fm bk (\<lambda>fault. bindR (removeMarmotTriggers fault p) (\<lambda>_. removeMarmotTables fault p))) w (backed_up env fm p (d, c) bk w)"
proof -
  let ?v = "\<lparr>rd_tick = w_tick w, rd_db = d, rd_cat = c\<rparr>"
  have im: "db_image fm (w_files w) bk = Some (d, c)" using fm wal f by (simp add: db_image_def fmt_ok_def)
  from remove_marmot_run [of "io_fault env" p ?v] obtain r v' where
    r: "bindR (removeMarmotTriggers (io_fault env) p) (\<lambda>_. removeMarmotTables (io_fault env) p) ?v = (r, v')" "returns r"
    "no_faults (io_fault env) \<longrightarrow> r = Ok ()" "marmot_removed p True (r = Ok ()) ?v v'" by blast
  have "clean_copy p (d, c) (rd_db v', rd_cat v')" if "r = Ok ()" using removed_clean [of p ?v v'] r(4) ok that by simp
  moreover have "pruned (d, c) (rd_db v', rd_cat v')" using pruned_remove_both [OF r(1)] by simp
  ultimately show ?thesis using im r by (auto simp: gives_def on_file_def backed_up_def no_faults_def no_io_faults_def)
qed

lemma BackupTo_gives:
  assumes fm: "fmt_ok fm (d, c)" and im: "db_image fm (w_files w) dbPath = Some (d, c)" and ok: "cat_ok d c"
    and bk: "w_files w bk = None" "w_files w (bk @ ''-wal'') = None"
  shows "gives (BackupTo env fm p dbPath bk) w (backed_up env fm p (d, c) bk w)"
  unfolding BackupTo_def
proof (rule gives_tick)
  fix w1 assume w1: "later w w1"
  note f1 = later_fields [OF w1]
  show "gives (bindR (vacuum_into env fm dbPath bk) (\<lambda>_. bindR (io_call env) (\<lambda>_. bindR (io_call env) (\<lambda>_. bindR (io_call env) (\<lambda>_.
     bindR (on_file env fm bk (\<lambda>fault. removeMarmotTriggers fault p)) (\<lambda>_. bindR (on_file env fm bk (\<lambda>fault. removeMarmotTables fault p)) (\<lambda>_.
     bindR (io_call env) (\<lambda>_. ret ())))))))) w1 (backed_up env fm p (d, c) bk w)"
  proof (rule gives_bind [OF vacuum_gives [of fm w1 dbPath "(d, c)"]])
    fix e w2 assume "(Err e = Ok () \<longrightarrow> later (w1\<lparr>w_files := (w_files w1)(bk \<mapsto> fm_enc fm (d, c))\<rparr>) w2) \<and> (Err e \<noteq> Ok () \<longrightarrow> later w1 w2) \<and>
      (no_io_faults env \<longrightarrow> Err e = Ok ())"
    then show "backed_up env fm p (d, c) bk w (Err e) w2" using later_fields [of w1 w2] f1 by (simp add: backed_up_def)
  next
    fix u w2 assume "(Ok u = Ok () \<longrightarrow> later (w1\<lparr>w_files := (w_files w1)(bk \<mapsto> fm_enc fm (d, c))\<rparr>) w2) \<and> (Ok u \<noteq> Ok () \<longrightarrow> later w1 w2) \<and>
      (no_io_faults env \<longrightarrow> Ok u = Ok ())"
    then have w2: "w_files w2 = (w_files w)(bk \<mapsto> fm_enc fm (d, c))" "w_remote w2 = w_remote w" "w_lock w2 = w_lock w"
      using later_fields [of _ w2] f1 by auto
    have stop: "backed_up env fm p (d, c) bk w (Err e) w3" if "later w2 w3" "\<not> no_io_faults env" for e w3
      using later_fields [OF that(1)] that(2) w2 by (simp add: backed_up_def)
    show "gives (bindR (io_call env) (\<lambda>_. bindR (io_call env) (\<lambda>_. bindR (io_call env) (\<lambda>_.
       bindR (on_file env fm bk (\<lambda>fault. removeMarmotTriggers fault p)) (\<lambda>_. bindR (on_file env fm bk (\<lambda>fault. removeMarmotTables fault p)) (\<lambda>_.
       bindR (io_call env) (\<lambda>_. ret ()))))))) w2 (backed_up env fm p (d, c) bk w)"
    proof (rule gives_tick, rule gives_tick, rule gives_tick)
      fix w3 w4 w5 assume "later w2 w3" "later w3 w4" "later w4 w5"
      then have l5: "later w2 w5" by (blast intro: later_trans)
      have f5: "w_files w5 = (w_files w)(bk \<mapsto> fm_enc fm (d, c))" "w_remote w5 = w_remote w" "w_lock w5 = w_lock w"
        using later_fields [OF l5] w2 by auto
      have "gives (bindR (on_file env fm bk (\<lambda>fault. bindR (removeMarmotTriggers fault p) (\<lambda>_. removeMarmotTables fault p))) (\<lambda>_. bindR (io_call env) (\<lambda>_. ret ()))) w5
          (backed_up env fm p (d, c) bk w)"
      proof (rule gives_bind [OF remove_file_gives [OF fm _ _ ok, of w5 bk]])
        fix u w6 assume "backed_up env fm p (d, c) bk w5 (Ok u) w6"
        then have b6: "backed_up env fm p (d, c) bk w (Ok ()) w6" using f5 by (simp add: backed_up_def)
        show "gives (bindR (io_call env) (\<lambda>_. ret ())) w6 (backed_up env fm p (d, c) bk w)"
        proof (rule gives_tick)
          fix w7 assume "later w6 w7"
          with b6 show "gives (ret ()) w7 (backed_up env fm p (d, c) bk w)"
            by (auto simp: gives_def ret_def intro: backed_up_later)
        next
          fix e w7 assume "later w6 w7" "\<not> no_io_faults env"
          with backed_up_later [OF b6, of w7] show "backed_up env fm p (d, c) bk w (Err e) w7"
            by (simp add: backed_up_def)
        qed
      qed (use f5 bk in \<open>auto simp: backed_up_def\<close>)
      moreover have i5: "db_image fm (w_files w5) bk = Some (d, c)" using f5 bk fm by (simp add: db_image_def fmt_ok_def)
      moreover have "bindR (on_file env fm bk (\<lambda>fault. removeMarmotTriggers fault p)) (\<lambda>_. bindR (on_file env fm bk (\<lambda>fault. removeMarmotTables fault p)) k) w5 =
          bindR (on_file env fm bk (\<lambda>fault. bindR (removeMarmotTriggers fault p) (\<lambda>_. removeMarmotTables fault p))) k w5" for k :: "unit \<Rightarrow> (world, unit) prog"
        unfolding bindR_assoc [symmetric] by (intro bindR_first on_file_bind [OF fm i5 pruned_remove(1)]) (use f5 bk in simp_all)
      ultimately show "gives (bindR (on_file env fm bk (\<lambda>fault. removeMarmotTriggers fault p)) (\<lambda>_. bindR (on_file env fm bk (\<lambda>fault. removeMarmotTables fault p)) (\<lambda>_.
         bindR (io_call env) (\<lambda>_. ret ())))) w5 (backed_up env fm p (d, c) bk w)" by (simp add: gives_def)
    qed (blast intro: stop later_trans)+
  qed (use im bk f1 in simp_all)
qed (use later_fields in \<open>auto simp: backed_up_def\<close>)

section \<open>Restore\<close>

definition side_files :: "string set" where
  "side_files = {'''', ''-shm'', ''-wal''}"

lemma RestoreFrom_run:
  assumes h: "no_io_faults env" and ck: "performCheckpoint checkpoints = Ok ()"
    and bk: "w_files w bk = Some b" "w_files w (bk @ ''-wal'') = None"
    and apart: "\<forall>s\<in>side_files. \<forall>s'\<in>side_files. dest @ s \<noteq> bk @ s'"
  shows "\<exists>w'. RestoreFrom env fm checkpoints dest bk w = (Ok (), w') \<and> w_files w' dest = Some b \<and> w_files w' (dest @ ''-wal'') = Some [] \<and>
     w_remote w' = w_remote w \<and> w_lock w' = w_lock w"
proof -
  from apart have ne: "dest \<noteq> bk" "dest \<noteq> bk @ ''-shm''" "dest \<noteq> bk @ ''-wal''" "dest @ ''-shm'' \<noteq> bk" "dest @ ''-shm'' \<noteq> bk @ ''-shm''"
    "dest @ ''-shm'' \<noteq> bk @ ''-wal''" "dest @ ''-wal'' \<noteq> bk" "dest @ ''-wal'' \<noteq> bk @ ''-shm''" "dest @ ''-wal'' \<noteq> bk @ ''-wal''"
    by (auto simp: side_files_def)
  have call: "io_call env v = (Ok (), v\<lparr>w_tick := Suc (w_tick v)\<rparr>)" for v by (rule io_call_healthy [OF h])
  show ?thesis
    using bk ne ne [symmetric] ck
    by (simp add: RestoreFrom_def open_wal_def copyFile_def read_file_def write_file_def bindR_def call lift_res_def)
qed

section \<open>Saving and restoring over a store\<close>

text \<open>A fresh temporary directory, apart from the database.\<close>

definition temp_ok :: "io_env \<Rightarrow> world \<Rightarrow> string \<Rightarrow> bool" where
  "temp_ok env w dbPath \<longleftrightarrow> (let tmp = io_tmp env (w_tick w) in
     path_Join [tmp, snapshotFileName] = tmp @ ''/'' @ snapshotFileName \<and>
     (\<forall>q. has_prefix q (tmp @ ''/'') \<longrightarrow> w_files w q = None) \<and>
     (\<forall>s\<in>side_files. \<not> has_prefix (dbPath @ s) (tmp @ ''/'')))"

lemma cleanup_frame:
  "w_remote (cleanup_tries env n p w) = w_remote w \<and> w_lock (cleanup_tries env n p w) = w_lock w \<and>
   (\<forall>q. \<not> has_prefix q (p @ ''/'') \<longrightarrow> w_files (cleanup_tries env n p w) q = w_files w q) \<and>
   (no_io_faults env \<and> 0 < n \<longrightarrow> (\<forall>q. has_prefix q (p @ ''/'') \<longrightarrow> w_files (cleanup_tries env n p w) q = None))"
proof (induction n arbitrary: w)
  case (Suc n)
  then show ?case by (cases rule: io_call_cases [of env w]) auto
qed simp

lemma with_temp_gives:
  assumes "\<And>w1. later w w1 \<Longrightarrow> gives (body (io_tmp env (w_tick w))) w1 P"
    and "\<And>r w1. P r w1 \<Longrightarrow> Q r (cleanupDir env (io_tmp env (w_tick w)) w1)"
    and "\<And>e w1. later w w1 \<Longrightarrow> \<not> no_io_faults env \<Longrightarrow> Q (Err e) w1"
  shows "gives (with_temp env body) w Q"
proof -
  let ?k = "\<lambda>w1. case body (io_tmp env (w_tick w)) w1 of (Block, w2) \<Rightarrow> (Block, w2) | (r, w2) \<Rightarrow> (r, cleanupDir env (io_tmp env (w_tick w)) w2)"
  have "gives ?k w1 Q" if "later w w1" for w1
  proof -
    from assms(1) [OF that] obtain r w2 where r: "body (io_tmp env (w_tick w)) w1 = (r, w2)" "returns r" "P r w2" by (auto simp: gives_def)
    then show ?thesis using assms(2) by (cases r) (auto simp: gives_def)
  qed
  then have "gives (bindR (io_call env) (\<lambda>_. ?k)) w Q" using assms(3) by (rule gives_tick)
  then show ?thesis by (simp add: gives_def with_temp_def Let_def)
qed

lemma unlocked_gives:
  assumes "gives f w P" shows "\<exists>r w'. unlocked (f w) = (r, w'\<lparr>w_lock := False\<rparr>) \<and> returns r \<and> P r w'"
proof -
  from assms obtain r w' where "f w = (r, w')" "returns r" "P r w'" by (auto simp: gives_def)
  then show ?thesis by (cases r) (auto simp: unlocked_def)
qed

context snapshot_storage
begin

text \<open>Whatever fails, saving leaves the database and the lock alone; on success the store holds a clean copy.\<close>

lemma save_snapshot:
  assumes fm: "fmt_ok fm (d, c)" and lock: "\<not> w_lock w" and im: "db_image fm (w_files w) dbPath = Some (d, c)" and ok: "cat_ok d c"
    and tmp: "temp_ok env w dbPath" and works: "no_io_faults env \<Longrightarrow> works"
  shows "\<exists>r w'. db_SaveSnapshot env fm p upload dbPath w = (r, w') \<and> returns r \<and> \<not> w_lock w' \<and>
     (\<forall>q. \<not> has_prefix q (io_tmp env (w_tick w) @ ''/'') \<longrightarrow> w_files w' q = w_files w q) \<and> (no_io_faults env \<longrightarrow> r = Ok ()) \<and>
     (r = Ok () \<longrightarrow> (\<exists>y. clean_copy p (d, c) y \<and> pruned (d, c) y \<and> stored w' snapshotFileName = Some (fm_enc fm y)))"
proof -
  let ?t = "io_tmp env (w_tick w)" and ?w = "w\<lparr>w_lock := True\<rparr>"
  let ?bk = "?t @ ''/'' @ snapshotFileName"
  have bk: "path_Join [?t, snapshotFileName] = ?bk" "has_prefix ?bk (?t @ ''/'')" "has_prefix (?bk @ ''-wal'') (?t @ ''/'')"
    using tmp has_prefix_append [of "?t @ ''/''" snapshotFileName] has_prefix_append [of "?t @ ''/''" "snapshotFileName @ ''-wal''"]
    by (simp_all add: temp_ok_def Let_def)
  then have none: "w_files w ?bk = None" "w_files w (?bk @ ''-wal'') = None" using tmp unfolding temp_ok_def Let_def by blast+
  let ?P = "\<lambda>r w'. (\<forall>q. q \<noteq> ?bk \<longrightarrow> w_files w' q = w_files w q) \<and> (no_io_faults env \<longrightarrow> r = Ok ()) \<and>
     (r = Ok () \<longrightarrow> (\<exists>y. clean_copy p (d, c) y \<and> pruned (d, c) y \<and> stored w' snapshotFileName = Some (fm_enc fm y)))"
  let ?Q = "\<lambda>r w'. (\<forall>q. \<not> has_prefix q (?t @ ''/'') \<longrightarrow> w_files w' q = w_files w q) \<and> (no_io_faults env \<longrightarrow> r = Ok ()) \<and>
     (r = Ok () \<longrightarrow> (\<exists>y. clean_copy p (d, c) y \<and> pruned (d, c) y \<and> stored w' snapshotFileName = Some (fm_enc fm y)))"
  have "gives (with_temp env (\<lambda>t. let bkFilePath = path_Join [t, snapshotFileName] in
      bindR (BackupTo env fm p dbPath bkFilePath) (\<lambda>_. upload snapshotFileName bkFilePath))) ?w ?Q"
  proof (rule with_temp_gives [where P = ?P])
    fix w1 assume l: "later ?w w1"
    have f1: "w_files w1 = w_files w" using later_fields [OF l] by simp
    have "gives (bindR (BackupTo env fm p dbPath ?bk) (\<lambda>_. upload snapshotFileName ?bk)) w1 ?P"
    proof (rule gives_bind [OF BackupTo_gives [OF fm _ ok]])
      show "db_image fm (w_files w1) dbPath = Some (d, c)" "w_files w1 ?bk = None" "w_files w1 (?bk @ ''-wal'') = None"
        using f1 im none by simp_all
    next
      fix e w2 assume "backed_up env fm p (d, c) ?bk w1 (Err e) w2"
      then show "?P (Err e) w2" using f1 by (simp add: backed_up_def)
    next
      fix u w2 assume "backed_up env fm p (d, c) ?bk w1 (Ok u) w2"
      then obtain y where y: "clean_copy p (d, c) y \<and> pruned (d, c) y" "w_files w2 ?bk = Some (fm_enc fm y)" "\<forall>q. q \<noteq> ?bk \<longrightarrow> w_files w2 q = w_files w q"
        using f1 by (auto simp: backed_up_def)
      obtain r w3 where r: "upload snapshotFileName ?bk w2 = (r, w3)" by fastforce
      have "no_io_faults env \<longrightarrow> r = Ok ()" using upload_works [OF works, of w2 ?bk snapshotFileName] y(2) r by simp
      moreover have "stored w3 snapshotFileName = Some (fm_enc fm y)" if "r = Ok ()"
        using upload_ok [of snapshotFileName ?bk w2 w3] r that y(2) by simp
      with y(1) have "r = Ok () \<longrightarrow> (\<exists>y. clean_copy p (d, c) y \<and> pruned (d, c) y \<and> stored w3 snapshotFileName = Some (fm_enc fm y))" by blast
      ultimately have "?P r w3" using y(3) upload_frame [OF r] by metis
      then show "gives (upload snapshotFileName ?bk) w2 ?P"
        using r upload_frame [OF r] unfolding gives_def by metis
    qed
    then show "gives (let bkFilePath = path_Join [io_tmp env (w_tick ?w), snapshotFileName] in
        bindR (BackupTo env fm p dbPath bkFilePath) (\<lambda>_. upload snapshotFileName bkFilePath)) w1 ?P"
      by (simp add: bk(1) Let_def)
  next
    fix r w1 assume P: "?P r w1"
    have fr: "w_remote (cleanupDir env ?t w1) = w_remote w1" "\<forall>q. \<not> has_prefix q (?t @ ''/'') \<longrightarrow> w_files (cleanupDir env ?t w1) q = w_files w1 q"
      using cleanup_frame [where env = env and n = 5 and p = ?t and w = w1] by (simp_all add: cleanupDir_def)
    have "w_files (cleanupDir env ?t w1) q = w_files w q" if "\<not> has_prefix q (?t @ ''/'')" for q
    proof -
      have "q \<noteq> ?bk" using that bk(2) by blast
      with P fr(2) that show ?thesis by simp
    qed
    with P stored_remote [OF fr(1)] show "?Q r (cleanupDir env (io_tmp env (w_tick ?w)) w1)" by simp
  next
    fix e w1 assume "later ?w w1" "\<not> no_io_faults env"
    then show "?Q (Err e) w1" using later_fields [of ?w w1] by simp
  qed
  from unlocked_gives [OF this] obtain r w' where u: "unlocked (with_temp env (\<lambda>t. let bkFilePath = path_Join [t, snapshotFileName] in
      bindR (BackupTo env fm p dbPath bkFilePath) (\<lambda>_. upload snapshotFileName bkFilePath)) ?w) = (r, w'\<lparr>w_lock := False\<rparr>)" "returns r" "?Q r w'" by blast
  have "stored (w'\<lparr>w_lock := False\<rparr>) = stored w'" by (rule stored_remote) simp
  with u lock show ?thesis by (intro exI [of _ r] exI [of _ "w'\<lparr>w_lock := False\<rparr>"]) (simp add: db_SaveSnapshot_def)
qed

text \<open>On working files a restore makes the database what the stored snapshot is, or does nothing when there is none.\<close>

lemma restore_snapshot:
  assumes fm: "fmt_ok fm x" and h: "no_io_faults env" and lock: "\<not> w_lock v" and ck: "performCheckpoint checkpoints = Ok ()"
    and tmp: "temp_ok env v dbPath" and works: works
  shows "\<exists>v'. db_RestoreSnapshot env fm checkpoints download dbPath v = (Ok (), v') \<and> \<not> w_lock v' \<and> w_remote v' = w_remote v \<and>
     (stored v snapshotFileName = None \<longrightarrow> db_image fm (w_files v') dbPath = db_image fm (w_files v) dbPath) \<and>
     (\<forall>y. pruned x y \<longrightarrow> stored v snapshotFileName = Some (fm_enc fm y) \<longrightarrow> db_image fm (w_files v') dbPath = Some y)"
proof -
  let ?t = "io_tmp env (w_tick v)" and ?v = "v\<lparr>w_lock := True\<rparr>" and ?v1 = "v\<lparr>w_lock := True, w_tick := Suc (w_tick v)\<rparr>"
  let ?bk = "?t @ ''/'' @ snapshotFileName"
  have bk: "path_Join [?t, snapshotFileName] = ?bk" and pre: "has_prefix (?bk @ s) (?t @ ''/'')" for s
    using tmp has_prefix_append [of "?t @ ''/''" "snapshotFileName @ s"] by (simp_all add: temp_ok_def Let_def)
  have none: "w_files v (?bk @ ''-wal'') = None" using tmp pre unfolding temp_ok_def Let_def by blast
  have db: "\<not> has_prefix (dbPath @ s) (?t @ ''/'')" if "s \<in> side_files" for s using tmp that unfolding temp_ok_def Let_def by blast
  have apart: "\<forall>s\<in>side_files. \<forall>s'\<in>side_files. dbPath @ s \<noteq> ?bk @ s'" using db pre by metis
  have dbs: "\<not> has_prefix dbPath (?t @ ''/'')" "\<not> has_prefix (dbPath @ ''-wal'') (?t @ ''/'')" using db [of "''''"] db [of "''-wal''"] by (simp_all add: side_files_def)
  obtain r v2 where dl: "download ?bk snapshotFileName ?v1 = (r, v2)" by fastforce
  have st: "stored ?v1 = stored v" by (rule stored_remote) simp
  note fr = download_frame [OF dl]
  have q: "w_files v2 dbPath = w_files v dbPath" "w_files v2 (dbPath @ ''-wal'') = w_files v (dbPath @ ''-wal'')" "w_files v2 (?bk @ ''-wal'') = None"
    using fr apart none by (auto simp: side_files_def)
  define after where "after x = unlocked (case x of (Block, w2) \<Rightarrow> (Block, w2) | (r, w2) \<Rightarrow> (r, cleanupDir env ?t w2))" for x
  have run: "db_RestoreSnapshot env fm checkpoints download dbPath v = after (case (r, v2) of
      (Err e, w2) \<Rightarrow> if e = ErrNoSnapshotFound then (Ok (), w2) else (Err e, w2)
    | (Ok _, w2) \<Rightarrow> RestoreFrom env fm checkpoints dbPath ?bk w2
    | (r, w2) \<Rightarrow> (r, w2))"
    using lock dl io_call_healthy [OF h, of ?v] by (cases r) (simp_all add: db_RestoreSnapshot_def with_temp_def bindR_def bk after_def Let_def)
  have ended: "\<exists>v'. after (Ok (), w2) = (Ok (), v') \<and> \<not> w_lock v' \<and> w_remote v' = w_remote w2 \<and>
      w_files v' dbPath = w_files w2 dbPath \<and> w_files v' (dbPath @ ''-wal'') = w_files w2 (dbPath @ ''-wal'')" for w2
    using cleanup_frame [where env = env and n = 5 and p = ?t and w = w2] dbs by (simp add: after_def unlocked_def cleanupDir_def)
  show ?thesis
  proof (cases "stored v snapshotFileName")
    case None
    with download_missing [OF works, of ?v1 snapshotFileName ?bk] dl st have "r = Err ErrNoSnapshotFound" by simp
    with run ended [of v2] q fr None show ?thesis by (auto simp: db_image_def)
  next
    case (Some b)
    with download_works [OF works, of ?v1 snapshotFileName ?bk] dl st have r: "r = Ok ()" by simp
    with download_ok [of ?bk snapshotFileName ?v1 v2] dl st Some have "w_files v2 ?bk = Some b" by simp
    from RestoreFrom_run [OF h ck this q(3) apart, of fm] obtain v3 where v3: "RestoreFrom env fm checkpoints dbPath ?bk v2 = (Ok (), v3)"
      "w_files v3 dbPath = Some b" "w_files v3 (dbPath @ ''-wal'') = Some []" "w_remote v3 = w_remote v2" by blast
    with run r ended [of v3] fr Some fm show ?thesis by (auto simp: db_image_def fmt_ok_def)
  qed
qed

end

end
