(* ===== verification/SnapshotProps.thy ===== *)
theory SnapshotProps
  imports Snapshot InstallProps
begin

text \<open>
  What snapshots promise: saving never touches the database and stores a copy without marmot's own
  tables, restoring on another node gives that copy back, whichever of the four stores is used; and
  what a failing upload does to the snapshot that was stored before.
\<close>

section \<open>Concrete data\<close>

text \<open>The database of the installation example, written as three numbers that tell apart what is left of it.\<close>

definition wit_fmt_of :: "sqltable \<Rightarrow> sqlite_fmt" where
  "wit_fmt_of tb = \<lparr>fm_enc = (\<lambda>(d, c). [if d ''t'' = None then 0 else 1, of_nat (length (cat_tables c)), of_nat (length (cat_triggers c))]),
     fm_dec = (\<lambda>main _. case main of
        Some [a, b, c] \<Rightarrow> Some (if a = 0 then Map.empty else [''t'' \<mapsto> tb],
          wit_cat\<lparr>cat_tables := take (unat b) [''t''], cat_triggers := take (unat c) [(''audit'', ''t'')]\<rparr>)
      | _ \<Rightarrow> None),
     fm_shm = []\<rparr>"

definition wit_fmt :: sqlite_fmt where
  "wit_fmt = wit_fmt_of wit_repl_table"

definition wit_io :: io_env where
  "wit_io = \<lparr>io_fault = (\<lambda>_. None), io_torn = (\<lambda>_. 0), io_tmp = (\<lambda>_. ''/tmp/m'')\<rparr>"

definition wit_world :: world where
  "wit_world = \<lparr>w_files = [''db'' \<mapsto> [1, 1, 1]], w_remote = Map.empty, w_bucket = False, w_lock = False, w_tick = 0\<rparr>"

lemma subseq_single: "subseq xs [a] \<Longrightarrow> xs = take (length xs) [a] \<and> length xs \<le> 1"
  by (cases xs) (auto simp: subseq_Cons' split: if_splits)

lemma wit_fmt_of_ok: "fmt_ok (wit_fmt_of tb) ([''t'' \<mapsto> tb], wit_cat)"
proof -
  have "fm_dec (wit_fmt_of tb) (Some (fm_enc (wit_fmt_of tb) (d, c))) wal = Some (d, c)" if p: "pruned ([''t'' \<mapsto> tb], wit_cat) (d, c)" for d c wal
  proof -
    from p have t: "cat_tables c = take (length (cat_tables c)) [''t'']" "length (cat_tables c) \<le> 1"
      "cat_triggers c = take (length (cat_triggers c)) [(''audit'', ''t'')]" "length (cat_triggers c) \<le> 1"
      using subseq_single [of "cat_tables c" "''t''"] subseq_single [of "cat_triggers c" "(''audit'', ''t'')"]
      by (simp_all add: pruned_def wit_cat_def)
    then have n: "unat (of_nat (length (cat_tables c)) :: byte) = length (cat_tables c)" "unat (of_nat (length (cat_triggers c)) :: byte) = length (cat_triggers c)"
      by (simp_all add: unat_of_nat)
    have d: "d = (if d ''t'' = None then Map.empty else [''t'' \<mapsto> tb])"
      using p by (auto simp: pruned_def fun_eq_iff split: if_splits)
    have "c = wit_cat\<lparr>cat_tables := cat_tables c, cat_triggers := cat_triggers c\<rparr>"
      using p by (cases c) (auto simp: pruned_def wit_cat_def)
    with d t n show ?thesis by (auto simp: wit_fmt_of_def split: if_splits)
  qed
  then show ?thesis by (simp add: fmt_ok_def)
qed

lemma wit_fmt_ok: "fmt_ok wit_fmt (wit_plain_db, wit_cat)"
  unfolding wit_fmt_def wit_plain_db_def by (rule wit_fmt_of_ok)

lemma wit_temp: "temp_ok wit_io wit_world ''db''"
proof -
  have "path_Join [''/tmp/m'', snapshotFileName] = ''/tmp/m'' @ ''/'' @ snapshotFileName" unfolding snapshotFileName_def by code_simp
  then show ?thesis by (auto simp: temp_ok_def wit_io_def wit_world_def side_files_def Let_def)
qed

lemma wit_world_simps: "\<not> w_lock wit_world" "db_image wit_fmt (w_files wit_world) ''db'' = Some (wit_plain_db, wit_cat)" "no_io_faults wit_io"
  by (simp_all add: wit_world_def db_image_def wit_fmt_def wit_fmt_of_def wit_plain_db_def wit_cat_def no_io_faults_def wit_io_def)

section \<open>Saving\<close>

text \<open>
  C32: whatever the file system and the network do, \<open>SaveSnapshot\<close> on any of the stores returns,
  releases its lock and leaves every file outside its temporary directory as it was, the database
  among them; when it reports success the store holds a database with exactly the tables and
  triggers whose names do not match the pattern of marmot's own. Without faults it succeeds.
\<close>

theorem save_safe_under_faults:
  assumes "fmt_ok fm (d, c)" and "storage_rooted st" and "\<not> w_lock w" and "db_image fm (w_files w) dbPath = Some (d, c)" and "cat_ok d c"
    and "temp_ok env w dbPath"
  shows "\<exists>r w'. db_SaveSnapshot env fm p (Upload env node now st) dbPath w = (r, w') \<and> returns r \<and> \<not> w_lock w' \<and>
     (\<forall>q. \<not> has_prefix q (io_tmp env (w_tick w) @ ''/'') \<longrightarrow> w_files w' q = w_files w q) \<and> (no_io_faults env \<longrightarrow> r = Ok ()) \<and>
     (r = Ok () \<longrightarrow> (\<exists>y. clean_copy p (d, c) y \<and> stored_at (storage_key st) w' snapshotFileName = Some (fm_enc fm y)))"
proof -
  have "snapshot_storage (Upload env node now st) (Download env 1 st) (stored_at (storage_key st)) (no_io_faults env)"
    by (rule storage_contract) (use assms(2) in simp_all)
  from snapshot_storage.save_snapshot [OF this assms(1,3-6)] show ?thesis by blast
qed

theorem save_safe_under_faults_witness:
  "\<exists>w'. db_SaveSnapshot wit_io wit_fmt MarmotPrefix (Upload wit_io ''n'' 5 (S3Storage ''d'')) ''db'' wit_world = (Ok (), w') \<and>
     w_files w' ''db'' = Some [1, 1, 1] \<and> \<not> w_lock w'"
  using save_safe_under_faults [OF wit_fmt_ok _ wit_world_simps(1,2) wit_cat_ok wit_temp, of "S3Storage ''d''" MarmotPrefix "''n''" 5] wit_world_simps(3)
  by (auto simp: wit_io_def wit_world_def)

section \<open>Restoring elsewhere\<close>

lemma save_restore_run:
  assumes "fmt_ok fm (d, c)" and "no_io_faults env" and "storage_rooted st" and "0 < attempts"
    and "\<not> w_lock w" and "db_image fm (w_files w) dbPath = Some (d, c)" and "cat_ok d c" and "temp_ok env w dbPath"
    and "\<not> w_lock v" and "temp_ok env v dbPath'" and "performCheckpoint checkpoints = Ok ()"
    and "w_remote v = w_remote (snd (db_SaveSnapshot env fm p (Upload env node now st) dbPath w))"
  shows "\<exists>w' v' c'. db_SaveSnapshot env fm p (Upload env node now st) dbPath w = (Ok (), w') \<and>
     db_RestoreSnapshot env fm checkpoints (Download env attempts st) dbPath' v = (Ok (), v') \<and>
     db_image fm (w_files v') dbPath' = Some (\<lambda>t. if like (p @ ''%'') t then None else d t, c') \<and>
     (\<forall>n t. (n, t) \<in> set (cat_triggers c') \<longrightarrow> (n, t) \<in> set (cat_triggers c) \<and> \<not> like (p @ ''%'') n) \<and>
     db_image fm (w_files w') dbPath = Some (d, c) \<and> \<not> w_lock w' \<and> \<not> w_lock v'"
proof -
  have ct: "snapshot_storage (Upload env node now st) (Download env attempts st) (stored_at (storage_key st)) (no_io_faults env)"
    by (rule storage_contract [OF assms(3,4)])
  from snapshot_storage.save_snapshot [OF ct assms(1,5-8), of p] assms(2) obtain w' y where
    s: "db_SaveSnapshot env fm p (Upload env node now st) dbPath w = (Ok (), w')" "\<not> w_lock w'"
    "\<forall>q. \<not> has_prefix q (io_tmp env (w_tick w) @ ''/'') \<longrightarrow> w_files w' q = w_files w q"
    "clean_copy p (d, c) y" "pruned (d, c) y" "stored_at (storage_key st) w' snapshotFileName = Some (fm_enc fm y)" by blast
  have sv: "stored_at (storage_key st) v = stored_at (storage_key st) w'"
    using assms(12) s(1) by (simp add: stored_at_def [abs_def])
  from snapshot_storage.restore_snapshot [OF ct assms(1,2,9,11,10,2)] obtain v' where v': "db_RestoreSnapshot env fm checkpoints (Download env attempts st) dbPath' v = (Ok (), v')"
    "\<not> w_lock v'" "\<forall>y. pruned (d, c) y \<longrightarrow> stored_at (storage_key st) v snapshotFileName = Some (fm_enc fm y) \<longrightarrow> db_image fm (w_files v') dbPath' = Some y" by blast
  then have
    r: "db_RestoreSnapshot env fm checkpoints (Download env attempts st) dbPath' v = (Ok (), v')" "\<not> w_lock v'"
    "db_image fm (w_files v') dbPath' = Some y" using s(5,6) unfolding sv by blast+
  have "db_image fm (w_files w') dbPath = Some (d, c)"
  proof -
    have "\<not> has_prefix (dbPath @ s) (io_tmp env (w_tick w) @ ''/'')" if "s \<in> side_files" for s
      using assms(8) that unfolding temp_ok_def Let_def by blast
    from this [of "''''"] this [of "''-wal''"] s(3) assms(6) show ?thesis by (simp add: db_image_def side_files_def)
  qed
  moreover have "y = (\<lambda>t. if like (p @ ''%'') t then None else d t, snd y)" using s(4) by (cases y) (auto simp: clean_copy_def)
  moreover have "\<forall>n t. (n, t) \<in> set (cat_triggers (snd y)) \<longrightarrow> (n, t) \<in> set (cat_triggers c) \<and> \<not> like (p @ ''%'') n"
    using s(4) by (simp add: clean_copy_def)
  ultimately have all: "db_image fm (w_files w') dbPath = Some (d, c)" "db_image fm (w_files v') dbPath' = Some (\<lambda>t. if like (p @ ''%'') t then None else d t, snd y)"
    "\<forall>n t. (n, t) \<in> set (cat_triggers (snd y)) \<longrightarrow> (n, t) \<in> set (cat_triggers c) \<and> \<not> like (p @ ''%'') n" using r(3) by simp_all
  show ?thesis by (intro exI [of _ w'] exI [of _ v'] exI [of _ "snd y"] conjI s(1,2) r(1,2) all)
qed

text \<open>
  C31: round trip. A node saves a snapshot; another node (its own files, the same store) restores it
  and its database then holds exactly the rows of the first node's tables, without marmot's own.
  The first node's database has not changed, and both locks are free.
\<close>

theorem save_restore_roundtrip:
  assumes "fmt_ok fm (d, c)" and "no_io_faults env" and "storage_rooted st" and "0 < attempts"
    and "\<not> w_lock w" and "db_image fm (w_files w) dbPath = Some (d, c)" and "cat_ok d c" and "temp_ok env w dbPath"
    and "\<not> w_lock v" and "temp_ok env v dbPath'" and "performCheckpoint checkpoints = Ok ()"
    and "w_remote v = w_remote (snd (db_SaveSnapshot env fm p (Upload env node now st) dbPath w))"
  shows "\<exists>w' v' c'. db_SaveSnapshot env fm p (Upload env node now st) dbPath w = (Ok (), w') \<and>
     db_RestoreSnapshot env fm checkpoints (Download env attempts st) dbPath' v = (Ok (), v') \<and>
     db_image fm (w_files v') dbPath' = Some (\<lambda>t. if like (p @ ''%'') t then None else d t, c') \<and>
     (\<forall>n t. (n, t) \<in> set (cat_triggers c') \<longrightarrow> (n, t) \<in> set (cat_triggers c) \<and> \<not> like (p @ ''%'') n) \<and>
     db_image fm (w_files w') dbPath = Some (d, c) \<and> \<not> w_lock w' \<and> \<not> w_lock v'"
  by (rule save_restore_run [OF assms])

text \<open>A node with nothing on its disk and the store the first node has written.\<close>

definition wit_other :: world where
  "wit_other = wit_world\<lparr>w_files := Map.empty, w_remote := w_remote (snd
     (db_SaveSnapshot wit_io wit_fmt MarmotPrefix (Upload wit_io ''n'' 5 NatsStorage) ''db'' wit_world))\<rparr>"

theorem save_restore_roundtrip_witness:
  "\<exists>v' c' d'. db_RestoreSnapshot wit_io wit_fmt [Ok (0, 0, 0)] (Download wit_io 1 NatsStorage) ''db2'' wit_other = (Ok (), v') \<and>
     db_image wit_fmt (w_files v') ''db2'' = Some (d', c') \<and> d' ''t'' = Some wit_repl_table"
proof -
  have l: "\<not> w_lock wit_other" "w_remote wit_other = w_remote (snd (db_SaveSnapshot wit_io wit_fmt MarmotPrefix (Upload wit_io ''n'' 5 NatsStorage) ''db'' wit_world))"
    by (simp_all add: wit_other_def wit_world_def)
  have t: "temp_ok wit_io wit_other ''db2''"
    using wit_temp by (auto simp: temp_ok_def wit_io_def wit_world_def wit_other_def side_files_def Let_def)
  have n: "\<not> like (MarmotPrefix @ ''%'') ''t''" unfolding like_marmot MarmotPrefix_def by code_simp
  have "performCheckpoint [Ok (0, 0, 0)] = Ok ()" by simp
  from save_restore_roundtrip [OF wit_fmt_ok wit_world_simps(3) _ _ wit_world_simps(1,2) wit_cat_ok wit_temp l(1) t this l(2), of 1] n
  show ?thesis by (auto simp: wit_plain_db_def)
qed

section \<open>When an upload fails\<close>

lemma rooted_join:
  assumes "has_prefix d ''/''" shows "\<exists>s. path_Join [d, n] = CHR ''/'' # s"
proof -
  obtain d' where d: "d = CHR ''/'' # d'" using assms by (cases d) auto
  show ?thesis by (cases "n = []") (simp_all add: path_Join_def path_Clean_def d Let_def)
qed

lemma temp_apart:
  assumes "has_prefix d ''/''"
  shows "webdav_temp (NodeName c) now name \<noteq> path_Join [d, n]"
  using rooted_join [OF assms, of n] by (auto simp: webdav_temp_def NodeName_def NodeNamePrefix_def)



text \<open>
  C39: the NATS store deletes the old snapshot before it reads and sends the new one. A failure of any
  call after that (hashing the file, opening it, storing the object) reports an error and leaves no
  snapshot at all, so a restore on a new node does nothing.
\<close>

theorem failed_nats_upload_loses_snapshot:
  assumes "w_bucket w" and "w_remote w name = Some x" and "w_files w filePath = Some b" and "k \<in> {3, 4, 5, 6}"
    and "io_fault env = (\<lambda>n. if n = w_tick w + k then Some e else None)"
  shows "\<exists>w'. nats_Upload env name filePath w = (Err e, w') \<and> stored_at (\<lambda>n. n) w' name = None"
  using assms by (auto simp: nats_Upload_def getBlobStore_def nats_delete_def io_defs stored_at_def)

theorem failed_nats_upload_loses_snapshot_witness:
  "\<exists>w'. nats_Upload (wit_io\<lparr>io_fault := (\<lambda>n. if n = 6 then Some NatsErrTimeout else None)\<rparr>) ''snapshot.db'' ''db''
       (wit_world\<lparr>w_bucket := True, w_remote := [''snapshot.db'' \<mapsto> ([7], '''')]\<rparr>) = (Err NatsErrTimeout, w') \<and>
     stored_at (\<lambda>n. n) w' ''snapshot.db'' = None"
  by (rule failed_nats_upload_loses_snapshot [where k = 6]) (auto simp: wit_world_def wit_io_def)

end
