(* ===== verification/NatsConnect.thy ===== *)
theory NatsConnect
  imports Config
begin

text \<open>
  The connection to NATS: \<open>stream/nats.go\<close> (options and the retry loop of \<open>Connect\<close>),
  \<open>stream/embedded_nats.go\<close> (the server a node runs itself when no URL is configured) and
  \<open>stream/routes_discover.go\<close> (peers found through DNS). The NATS client and server and the resolver
  are outside; loops run over the list of their answers and wait for ever when it ends.
\<close>

section \<open>Options\<close>

datatype nats_option =
    Name string
  | RetryOnFailedConnect bool
  | ReconnectWait int
  | MaxReconnects int
  | ClosedHandler
  | DisconnectErrHandler
  | ReconnectHandler
  | UserInfo string string
  | NkeyFromSeed string
  | RootCAs string
  | ClientCert string string
  | InProcessServer

definition setupConnOptions :: "Configuration \<Rightarrow> nats_option list" where
  "setupConnOptions c =
     [Name (NodeName c), RetryOnFailedConnect True, ReconnectWait (nc_ReconnectWaitSeconds (cf_NATS c) * 1000000000),
      MaxReconnects (nc_ConnectRetries (cf_NATS c)), ClosedHandler, DisconnectErrHandler, ReconnectHandler]"

text \<open>\<open>nkey\<close> is \<open>nats.NkeyOptionFromSeed\<close>, which reads the file.\<close>

definition getNatsAuthFromConfig :: "(string \<Rightarrow> unit res) \<Rightarrow> Configuration \<Rightarrow> nats_option list res" where
  "getNatsAuthFromConfig nkey c =
     (let n = cf_NATS c;
          opts = (if nc_CredsUser n \<noteq> '''' then [UserInfo (nc_CredsUser n) (nc_CredsPassword n)] else []) in
      if nc_SeedFile n \<noteq> '''' then bindE (nkey (nc_SeedFile n)) (\<lambda>_. Ok (opts @ [NkeyFromSeed (nc_SeedFile n)]))
      else Ok opts)"

definition getNatsTLSFromConfig :: "Configuration \<Rightarrow> nats_option list res" where
  "getNatsTLSFromConfig c =
     (let n = cf_NATS c;
          opts = (if nc_CAFile n \<noteq> '''' then [RootCAs (nc_CAFile n)] else []) in
      Ok (if nc_CertFile n \<noteq> '''' \<and> nc_KeyFile n \<noteq> '''' then opts @ [ClientCert (nc_CertFile n) (nc_KeyFile n)] else opts))"

text \<open>\<open>Replicator.ReloadCertificates\<close> applies the same files to the running client; \<open>apply_opt\<close> may fail to read them.\<close>

definition ReloadCertificates :: "(nats_option \<Rightarrow> ('n, unit) prog) \<Rightarrow> Configuration \<Rightarrow> ('n, unit) prog" where
  "ReloadCertificates apply_opt c =
     bindR (if nc_CAFile (cf_NATS c) \<noteq> '''' then apply_opt (RootCAs (nc_CAFile (cf_NATS c))) else ret ()) (\<lambda>_.
     bindR (if nc_CertFile (cf_NATS c) \<noteq> '''' \<and> nc_KeyFile (cf_NATS c) \<noteq> ''''
            then apply_opt (ClientCert (nc_CertFile (cf_NATS c)) (nc_KeyFile (cf_NATS c))) else ret ()) (\<lambda>_. ret ()))"

section \<open>Addresses\<close>

fun last_index :: "char \<Rightarrow> string \<Rightarrow> nat option" where
  "last_index x [] = None"
| "last_index x (c # cs) =
     (case last_index x cs of Some i \<Rightarrow> Some (Suc i) | None \<Rightarrow> if c = x then Some 0 else None)"

fun first_index :: "char \<Rightarrow> string \<Rightarrow> nat option" where
  "first_index x [] = None"
| "first_index x (c # cs) = (if c = x then Some 0 else map_option Suc (first_index x cs))"

text \<open>\<open>net.SplitHostPort\<close>: the last colon separates the port; an IPv6 host is in brackets.\<close>

definition SplitHostPort :: "string \<Rightarrow> (string \<times> string) res" where
  "SplitHostPort s =
     (case last_index (CHR '':'') s of
        None \<Rightarrow> Err (Errorf ''missing port in address'')
      | Some i \<Rightarrow>
          if has_prefix s ''['' then
            (case first_index (CHR '']'') s of
               None \<Rightarrow> Err (Errorf ''missing ']' in address'')
             | Some e \<Rightarrow>
                 if Suc e = length s then Err (Errorf ''missing port in address'')
                 else if Suc e = i then
                   (if CHR ''['' \<in> set (drop 1 s) then Err (Errorf ''unexpected '[' in address'')
                    else if CHR '']'' \<in> set (drop (Suc e) s) then Err (Errorf ''unexpected ']' in address'')
                    else Ok (take (e - 1) (drop 1 s), drop (Suc i) s))
                 else if s ! Suc e = CHR '':'' then Err (Errorf ''too many colons in address'')
                 else Err (Errorf ''missing port in address''))
          else if CHR '':'' \<in> set (take i s) then Err (Errorf ''too many colons in address'')
          else if CHR ''['' \<in> set s then Err (Errorf ''unexpected '[' in address'')
          else if CHR '']'' \<in> set s then Err (Errorf ''unexpected ']' in address'')
          else Ok (take i s, drop (Suc i) s))"

text \<open>\<open>strconv.Atoi\<close> for a 64-bit \<open>int\<close>: an optional sign, then digits.\<close>

definition is_digit :: "char \<Rightarrow> bool" where
  "is_digit c \<longleftrightarrow> 48 \<le> (of_char c :: nat) \<and> of_char c \<le> (57 :: nat)"

definition Atoi :: "string \<Rightarrow> int res" where
  "Atoi s =
     (let neg = has_prefix s ''-''; ds = (if has_prefix s ''-'' \<or> has_prefix s ''+'' then tl s else s) in
      if ds = [] \<or> \<not> list_all is_digit ds then Err (Errorf ''invalid syntax'')
      else let n = (if neg then - int (read_nat ds) else int (read_nat ds)) in
        if n < - (2 ^ 63) \<or> 2 ^ 63 \<le> n then Err (Errorf ''value out of range'') else Ok n)"

definition parseHostAndPort :: "string \<Rightarrow> (string \<times> int) res" where
  "parseHostAndPort adr =
     bindE (SplitHostPort adr) (\<lambda>(host, portStr). bindE (Atoi portStr) (\<lambda>port. Ok (host, port)))"

section \<open>Peers\<close>

record nurl =
  nu_scheme :: string
  nu_hostname :: string
  nu_port :: string
  nu_query :: "(string \<times> string) list"

datatype ip = V4 string | V6 string | BadIP

definition queryDNS :: "ip list res \<Rightarrow> (string list \<times> string list) res" where
  "queryDNS answer =
     bindE answer (\<lambda>ips.
       Ok (List.map_filter (\<lambda>i. case i of V4 s \<Rightarrow> Some s | _ \<Rightarrow> None) ips,
           List.map_filter (\<lambda>i. case i of V6 s \<Rightarrow> Some s | _ \<Rightarrow> None) ips))"

text \<open>\<open>parse\<close> is \<open>url.Parse\<close>; an address that does not parse is left out.\<close>

definition getDirectNATSAddresses :: "(string \<Rightarrow> nurl option) \<Rightarrow> nurl \<Rightarrow> ip list res \<Rightarrow> nurl list res" where
  "getDirectNATSAddresses parse u answer =
     bindE (queryDNS answer) (\<lambda>(v4, v6).
       Ok (List.map_filter (\<lambda>i. parse (''nats://'' @ i @ '':'' @ nu_port u @ ''/'')) v4 @
           List.map_filter (\<lambda>i. parse (''nats://['' @ i @ '']:'' @ nu_port u @ ''/'')) v6))"

definition min_peers :: "nurl \<Rightarrow> bool \<Rightarrow> int" where
  "min_peers u waitDNSEntries =
     (if waitDNSEntries then 0
      else case Atoi (case map_of (nu_query u) ''min'' of None \<Rightarrow> '''' | Some v \<Rightarrow> v) of Ok n \<Rightarrow> n | _ \<Rightarrow> 2)"

fun discover :: "(string \<Rightarrow> nurl option) \<Rightarrow> nurl \<Rightarrow> int \<Rightarrow> ip list res list \<Rightarrow> nurl list res" where
  "discover parse u minPeers [] = Block"
| "discover parse u minPeers (answer # answers) =
     (case getDirectNATSAddresses parse u answer of
        Ok peers \<Rightarrow> if minPeers \<le> int (length peers) then Ok peers else discover parse u minPeers answers
      | Err e \<Rightarrow> discover parse u minPeers answers
      | Panic p \<Rightarrow> Panic p
      | Block \<Rightarrow> Block)"

definition queryDNSRoutes :: "(string \<Rightarrow> nurl option) \<Rightarrow> (string \<Rightarrow> ip list res list) \<Rightarrow> nurl \<Rightarrow> bool \<Rightarrow> nurl list res" where
  "queryDNSRoutes parse dns u waitDNSEntries = discover parse u (min_peers u waitDNSEntries) (dns (nu_hostname u))"

fun flattenRoutes :: "(string \<Rightarrow> nurl option) \<Rightarrow> (string \<Rightarrow> ip list res list) \<Rightarrow> nurl list \<Rightarrow> bool \<Rightarrow> nurl list res" where
  "flattenRoutes parse dns [] waitDNSEntries = Ok []"
| "flattenRoutes parse dns (u # us) waitDNSEntries =
     bindE (if nu_scheme u = ''dns'' then queryDNSRoutes parse dns u waitDNSEntries else Ok [u]) (\<lambda>rs.
     bindE (flattenRoutes parse dns us waitDNSEntries) (\<lambda>rest. Ok (rs @ rest)))"

record leaf_opts =
  lf_URLs :: "nurl list"
  lf_Hub :: bool

definition parseRemoteLeafOpts :: "(string \<Rightarrow> nurl option) \<Rightarrow> (string \<Rightarrow> ip list res list) \<Rightarrow> nurl list \<Rightarrow> leaf_opts list res" where
  "parseRemoteLeafOpts parse dns leafServers =
     bindE (if leafServers \<noteq> [] then flattenRoutes parse dns leafServers True else Ok leafServers) (\<lambda>ls.
       Ok (map (\<lambda>u. \<lparr>lf_URLs = [u], lf_Hub = (map_of (nu_query u) ''hub'' = Some ''true'')\<rparr>) ls))"

section \<open>The embedded server\<close>

record server_options =
  so_ServerName :: string
  so_Host :: string
  so_Port :: int
  so_NoSigs :: bool
  so_JetStream :: bool
  so_JetStreamMaxMemory :: int
  so_JetStreamMaxStore :: int
  so_ClusterName :: string
  so_ClusterListen :: string
  so_ClusterHost :: string
  so_ClusterPort :: int
  so_Routes :: "nurl list"
  so_Remotes :: "leaf_opts list"
  so_StoreDir :: string

text \<open>The command-line flags, and the calls to the server's library.\<close>

record stream_env =
  sm_ClusterPeers :: string
  sm_ClusterAddr :: string
  sm_LeafServers :: string
  sm_DataRootDir :: string
  sm_RoutesFromStr :: "string \<Rightarrow> nurl list"
  sm_parse :: "string \<Rightarrow> nurl option"
  sm_dns :: "string \<Rightarrow> ip list res list"
  sm_ProcessConfigFile :: "string \<Rightarrow> server_options \<Rightarrow> server_options res"
  sm_NewServer :: "server_options \<Rightarrow> unit res"

definition base_options :: "Configuration \<Rightarrow> string \<Rightarrow> server_options res" where
  "base_options c nodeName =
     bindE (parseHostAndPort (nc_BindAddress (cf_NATS c))) (\<lambda>(host, port).
       Ok \<lparr>so_ServerName = nodeName, so_Host = host, so_Port = port, so_NoSigs = True, so_JetStream = True,
           so_JetStreamMaxMemory = - 1, so_JetStreamMaxStore = - 1, so_ClusterName = EmbeddedClusterName,
           so_ClusterListen = '''', so_ClusterHost = '''', so_ClusterPort = 0, so_Routes = [], so_Remotes = [], so_StoreDir = ''''\<rparr>)"

definition embedded_options :: "stream_env \<Rightarrow> Configuration \<Rightarrow> string \<Rightarrow> server_options res" where
  "embedded_options env c nodeName =
     bindE (base_options c nodeName) (\<lambda>o0.
     let o1 = (if sm_ClusterPeers env \<noteq> '''' then o0\<lparr>so_Routes := sm_RoutesFromStr env (sm_ClusterPeers env)\<rparr> else o0) in
     bindE (if sm_ClusterAddr env \<noteq> '''' then
              bindE (parseHostAndPort (sm_ClusterAddr env)) (\<lambda>(host, port).
                Ok (o1\<lparr>so_ClusterListen := sm_ClusterAddr env, so_ClusterHost := host, so_ClusterPort := port\<rparr>))
            else Ok o1) (\<lambda>o2.
     bindE (if sm_LeafServers env \<noteq> '''' then
              bindE (parseRemoteLeafOpts (sm_parse env) (sm_dns env) (sm_RoutesFromStr env (sm_LeafServers env))) (\<lambda>rs. Ok (o2\<lparr>so_Remotes := rs\<rparr>))
            else Ok o2) (\<lambda>o3.
     bindE (if nc_ServerConfigFile (cf_NATS c) \<noteq> '''' then sm_ProcessConfigFile env (nc_ServerConfigFile (cf_NATS c)) o3 else Ok o3) (\<lambda>o4.
     bindE (if so_Routes o4 \<noteq> [] then
              bindE (flattenRoutes (sm_parse env) (sm_dns env) (so_Routes o4) True) (\<lambda>rs. Ok (o4\<lparr>so_Routes := rs\<rparr>))
            else Ok o4) (\<lambda>o5.
       Ok (if so_StoreDir o5 = '''' then o5\<lparr>so_StoreDir := path_Join [sm_DataRootDir env, ''nats'', nodeName]\<rparr> else o5))))))"

text \<open>The one embedded server of the process (\<open>embeddedIns.server\<close>): its options once it runs.\<close>

definition startEmbeddedServer :: "stream_env \<Rightarrow> Configuration \<Rightarrow> string \<Rightarrow> (server_options option, unit) prog" where
  "startEmbeddedServer env c nodeName srv =
     (if srv \<noteq> None then (Ok (), srv)
      else
        (case bindE (embedded_options env c nodeName) (\<lambda>opts. bindE (sm_NewServer env opts) (\<lambda>_. Ok opts)) of
           Ok opts \<Rightarrow> (Ok (), Some opts)
         | Err e \<Rightarrow> (Err e, srv)
         | Panic p \<Rightarrow> (Panic p, srv)
         | Block \<Rightarrow> (Block, srv)))"

section \<open>Connecting\<close>

text \<open>A connection: its number and whether its status is CONNECTED.\<close>

record nconn =
  co_id :: nat
  co_connected :: bool

text \<open>
  One attempt to reach the embedded server: the connection, its JetStream context, and what asking
  for the stream \<open>marmot-r\<close> gives (\<open>Ok\<close> when there is such a stream).
\<close>

type_synonym attempt = "nconn res \<times> unit res \<times> unit res"

fun connect_embedded :: "attempt list \<Rightarrow> nconn res" where
  "connect_embedded [] = Block"
| "connect_embedded ((conn, js, info) # rest) =
     (case conn of
        Ok c \<Rightarrow> bindE js (\<lambda>_. if info = Err NatsErrStreamNotFound \<or> is_ok info then Ok c else connect_embedded rest)
      | Err e \<Rightarrow> connect_embedded rest
      | Panic p \<Rightarrow> Panic p
      | Block \<Rightarrow> Block)"

text \<open>\<open>ready\<close>: what \<open>ReadyForConnections\<close> answers, asked until it is true.\<close>

definition prepareConnection :: "bool list \<Rightarrow> (nats_option list \<Rightarrow> attempt list) \<Rightarrow> nats_option list \<Rightarrow> nconn res" where
  "prepareConnection ready attempts opts =
     (if True \<in> set ready then connect_embedded (attempts (opts @ [InProcessServer])) else Block)"

text \<open>
  The retry loop of \<open>Connect\<close>: \<open>conn\<close> and \<open>err\<close> are its two variables, \<open>dial i\<close> is the \<open>i\<close>-th
  \<open>nats.Connect\<close>. After a failed attempt the log message asks \<open>conn\<close> for its status, and a failed
  \<open>nats.Connect\<close> returns no connection.
\<close>

fun connect_loop :: "(nat \<Rightarrow> nconn res) \<Rightarrow> nat \<Rightarrow> nat \<Rightarrow> nconn option \<Rightarrow> nconn option res" where
  "connect_loop dial i 0 conn = Ok conn"
| "connect_loop dial i (Suc n) conn =
     (case dial i of
        Ok c \<Rightarrow> if co_connected c then Ok (Some c) else connect_loop dial (Suc i) n (Some c)
      | Err e \<Rightarrow> Panic ''nil pointer dereference''
      | Panic p \<Rightarrow> Panic p
      | Block \<Rightarrow> Block)"

fun join_urls :: "string list \<Rightarrow> string" where
  "join_urls [] = []"
| "join_urls [u] = u"
| "join_urls (u # us) = u @ '', '' @ join_urls us"

definition Connect ::
  "stream_env \<Rightarrow> (string \<Rightarrow> unit res) \<Rightarrow> (string \<Rightarrow> nats_option list \<Rightarrow> nat \<Rightarrow> nconn res) \<Rightarrow> bool list \<Rightarrow> (nats_option list \<Rightarrow> attempt list) \<Rightarrow>
   Configuration \<Rightarrow> (server_options option, nconn option) prog" where
  "Connect env nkey dial ready attempts c =
     bindR (lift_res (getNatsAuthFromConfig nkey c)) (\<lambda>creds.
     bindR (lift_res (getNatsTLSFromConfig c)) (\<lambda>tls.
     let opts = setupConnOptions c @ creds @ tls in
     if nc_URLs (cf_NATS c) = [] then
       bindR (startEmbeddedServer env c (NodeName c)) (\<lambda>_.
       bindR (lift_res (prepareConnection ready attempts opts)) (\<lambda>conn. ret (Some conn)))
     else lift_res (connect_loop (dial (join_urls (nc_URLs (cf_NATS c))) opts) 0 (nat (nc_ConnectRetries (cf_NATS c))) None)))"

section \<open>Lemmas on addresses\<close>

lemma last_index_append: "x \<notin> set ys \<Longrightarrow> last_index x (xs @ x # ys) = Some (length xs)"
proof (induction xs)
  case Nil
  then have "last_index x ys = None" by (induction ys) (auto split: if_splits)
  then show ?case by simp
qed auto

lemma digit_not_special: "is_digit c \<Longrightarrow> c \<noteq> CHR '':'' \<and> c \<noteq> CHR ''['' \<and> c \<noteq> CHR '']'' \<and> c \<noteq> CHR ''-'' \<and> c \<noteq> CHR ''+''"
  by (auto simp: is_digit_def)

lemma show_nat_is_digit: "list_all is_digit (show_nat n)"
  using show_nat_digits by (fastforce simp: list_all_iff is_digit_def)

lemma Atoi_show: "n < 2 ^ 63 \<Longrightarrow> Atoi (show_nat n) = Ok (int n)"
proof -
  assume n: "n < 2 ^ 63"
  obtain c cs where s: "show_nat n = c # cs" by (cases "show_nat n") auto
  have "is_digit c" using show_nat_is_digit [of n] s by simp
  then have "\<not> has_prefix (show_nat n) ''-''" "\<not> has_prefix (show_nat n) ''+''" using digit_not_special [of c] by (auto simp: s)
  moreover have "int n < 2 ^ 63" using n by (metis of_nat_less_iff of_nat_numeral of_nat_power)
  ultimately show ?thesis using show_nat_is_digit [of n] by (simp add: Atoi_def Let_def)
qed

text \<open>An address made of a host name and a port reads back as the two.\<close>

lemma parse_host_port:
  assumes "set host \<inter> {CHR '':'', CHR ''['', CHR '']''} = {}" and "port < 2 ^ 63"
  shows "parseHostAndPort (host @ '':'' @ show_nat port) = Ok (host, int port)"
proof -
  have d: "CHR '':'' \<notin> set (show_nat port)" "CHR ''['' \<notin> set (show_nat port)" "CHR '']'' \<notin> set (show_nat port)"
    using show_nat_is_digit [of port] digit_not_special by (auto simp: list_all_iff)
  have i: "last_index (CHR '':'') (host @ CHR '':'' # show_nat port) = Some (length host)" by (rule last_index_append [OF d(1)])
  have "\<not> has_prefix (host @ CHR '':'' # show_nat port) ''[''" using assms(1) by (cases host) auto
  with i d assms(1) have "SplitHostPort (host @ CHR '':'' # show_nat port) = Ok (host, show_nat port)"
    by (auto simp: SplitHostPort_def)
  then show ?thesis using Atoi_show [OF assms(2)] by (simp add: parseHostAndPort_def bindE_def)
qed

lemma default_bind_address: "parseHostAndPort '':-1'' = Ok ('''', -1)"
  by code_simp

section \<open>Lemmas on peers\<close>

text \<open>Waiting for DNS entries takes the first answer, however few peers it has.\<close>

lemma discover_first:
  assumes "\<forall>a\<in>set errs. \<exists>e. a = Err e"
  shows "queryDNSRoutes parse (\<lambda>_. errs @ Ok ips # answers) u True =
     getDirectNATSAddresses parse u (Ok ips)"
  using assms unfolding queryDNSRoutes_def
  by (induction errs) (auto simp: min_peers_def getDirectNATSAddresses_def queryDNS_def bindE_def)

lemma flattenRoutes_direct: "\<forall>u\<in>set us. nu_scheme u \<noteq> ''dns'' \<Longrightarrow> flattenRoutes parse dns us b = Ok us"
  by (induction us) (auto simp: bindE_def)

section \<open>Lemmas on connecting\<close>

lemma connect_loop_skip:
  assumes "\<forall>j<k. \<exists>c. dial (i + j) = Ok c \<and> \<not> co_connected c"
  shows "\<exists>conn'. (k > 0 \<longrightarrow> dial (i + k - 1) = Ok (the conn') \<and> conn' \<noteq> None) \<and> (k = 0 \<longrightarrow> conn' = conn) \<and>
     connect_loop dial i (k + n) conn = connect_loop dial (i + k) n conn'"
  using assms
proof (induction k arbitrary: i conn)
  case (Suc k)
  from Suc.prems obtain c where c: "dial i = Ok c" "\<not> co_connected c" by (metis add.right_neutral zero_less_Suc)
  have "\<forall>j<k. \<exists>c. dial (Suc i + j) = Ok c \<and> \<not> co_connected c" using Suc.prems by (metis Suc_less_eq add_Suc add_Suc_right)
  from Suc.IH [OF this, of "Some c"] obtain conn' where
    "(k > 0 \<longrightarrow> dial (Suc i + k - 1) = Ok (the conn') \<and> conn' \<noteq> None) \<and> (k = 0 \<longrightarrow> conn' = Some c)"
    "connect_loop dial (Suc i) (k + n) (Some c) = connect_loop dial (Suc i + k) n conn'" by blast
  with c show ?case by (intro exI [of _ conn']) auto
qed simp

definition connected_at :: "(nat \<Rightarrow> nconn res) \<Rightarrow> nat \<Rightarrow> bool" where
  "connected_at dial k \<longleftrightarrow> (\<exists>c. dial k = Ok c \<and> co_connected c)"

definition waiting_until :: "(nat \<Rightarrow> nconn res) \<Rightarrow> nat \<Rightarrow> bool" where
  "waiting_until dial k \<longleftrightarrow> (\<forall>j<k. \<exists>c. dial j = Ok c \<and> \<not> co_connected c)"

text \<open>
  C38: with URLs configured and readable credentials, \<open>Connect\<close> makes at most \<open>connect_retries\<close>
  attempts and returns the first connection that is up. If an attempt fails with an error (the
  client refuses an option, such as a certificate it cannot read) the process panics, because the
  message it logs asks the missing connection for its status; when every attempt stays unconnected
  it returns the last one without an error; and with no retries allowed it returns no connection and
  no error.
\<close>

theorem connect_outcome:
  assumes "getNatsAuthFromConfig nkey c = Ok creds" and "getNatsTLSFromConfig c = Ok tls" and "nc_URLs (cf_NATS c) \<noteq> []"
    and "d = dial (join_urls (nc_URLs (cf_NATS c))) (setupConnOptions c @ creds @ tls)" and "n = nat (nc_ConnectRetries (cf_NATS c))"
  shows "(k < n \<and> waiting_until d k \<and> connected_at d k \<longrightarrow> (\<exists>co. d k = Ok co \<and> Connect env nkey dial ready attempts c srv = (Ok (Some co), srv))) \<and>
     (k < n \<and> waiting_until d k \<and> (\<exists>e. d k = Err e) \<longrightarrow> (\<exists>p. Connect env nkey dial ready attempts c srv = (Panic p, srv))) \<and>
     (0 < n \<and> waiting_until d n \<longrightarrow> (\<exists>co. d (n - 1) = Ok co \<and> \<not> co_connected co \<and> Connect env nkey dial ready attempts c srv = (Ok (Some co), srv))) \<and>
     (n = 0 \<longrightarrow> Connect env nkey dial ready attempts c srv = (Ok None, srv))"
proof -
  have run: "Connect env nkey dial ready attempts c srv = (connect_loop d 0 n None, srv)"
    using assms by (simp add: Connect_def bindR_def lift_res_def Let_def)
  have skip: "\<exists>conn'. (k > 0 \<longrightarrow> d (k - 1) = Ok (the conn') \<and> conn' \<noteq> None) \<and> connect_loop d 0 n None = connect_loop d k (n - k) conn'"
    if "waiting_until d k" "k \<le> n" for k
    using connect_loop_skip [of k d 0 None "n - k"] that by (auto simp: waiting_until_def)
  have "\<exists>conn'. connect_loop d 0 n None = connect_loop d k (Suc (n - Suc k)) conn'" if "waiting_until d k" "k < n" for k
    using skip [OF that(1)] that(2) by (metis Suc_diff_Suc less_imp_le)
  then have "k < n \<and> waiting_until d k \<longrightarrow> (\<exists>conn'. connect_loop d 0 n None = connect_loop d k (Suc (n - Suc k)) conn')" by blast
  moreover have "\<exists>co. d (n - 1) = Ok co \<and> \<not> co_connected co \<and> connect_loop d 0 n None = Ok (Some co)" if "0 < n" "waiting_until d n"
  proof -
    from skip [OF that(2) order_refl] that(1) obtain co where co: "d (n - 1) = Ok co" "connect_loop d 0 n None = Ok (Some co)" by auto
    from that(1) have "n - 1 < n" by simp
    with that(2) obtain c' where "d (n - 1) = Ok c'" "\<not> co_connected c'" unfolding waiting_until_def by blast
    with co show ?thesis by auto
  qed
  ultimately show ?thesis unfolding run by (auto simp: connected_at_def)
qed

text \<open>Two servers configured, three attempts: the second one is up; with no retries nothing is tried.\<close>

definition wit_conn_cfg :: "int \<Rightarrow> Configuration" where
  "wit_conn_cfg n = (let c = default_config ''/tmp'' in c\<lparr>cf_NATS := (cf_NATS c)\<lparr>nc_URLs := [''a'', ''b''], nc_ConnectRetries := n\<rparr>\<rparr>)"

definition wit_dial :: "string \<Rightarrow> nats_option list \<Rightarrow> nat \<Rightarrow> nconn res" where
  "wit_dial u os i = (if u = ''a, b'' then Ok \<lparr>co_id = i, co_connected = (i = 1)\<rparr> else Err (External 1))"

definition wit_stream_env :: stream_env where
  "wit_stream_env = \<lparr>sm_ClusterPeers = '''', sm_ClusterAddr = '''', sm_LeafServers = '''', sm_DataRootDir = ''/tmp'',
     sm_RoutesFromStr = (\<lambda>_. []), sm_parse = (\<lambda>_. None), sm_dns = (\<lambda>_. []), sm_ProcessConfigFile = (\<lambda>_ opts. Ok opts),
     sm_NewServer = (\<lambda>_. Ok ())\<rparr>"

theorem connect_outcome_witness:
  "Connect wit_stream_env (\<lambda>_. Ok ()) wit_dial [] (\<lambda>_. []) (wit_conn_cfg 3) None = (Ok (Some \<lparr>co_id = 1, co_connected = True\<rparr>), None) \<and>
   Connect wit_stream_env (\<lambda>_. Ok ()) wit_dial [] (\<lambda>_. []) (wit_conn_cfg 0) None = (Ok None, None)"
proof -
  have pre: "getNatsAuthFromConfig (\<lambda>_. Ok ()) (wit_conn_cfg m) = Ok []" "getNatsTLSFromConfig (wit_conn_cfg m) = Ok []"
    "nc_URLs (cf_NATS (wit_conn_cfg m)) \<noteq> []" "join_urls (nc_URLs (cf_NATS (wit_conn_cfg m))) = ''a, b''"
    "nc_ConnectRetries (cf_NATS (wit_conn_cfg m)) = m" for m
    by (simp_all add: getNatsAuthFromConfig_def getNatsTLSFromConfig_def wit_conn_cfg_def default_config_def Let_def)
  have w: "waiting_until (wit_dial ''a, b'' os) 1" "connected_at (wit_dial ''a, b'' os) 1" "wit_dial ''a, b'' os 1 = Ok \<lparr>co_id = 1, co_connected = True\<rparr>" for os
    by (auto simp: waiting_until_def connected_at_def wit_dial_def)
  from connect_outcome [OF pre(1-3) [of 3] refl refl, where k = 1 and dial = wit_dial and env = wit_stream_env and ready = "[]" and attempts = "\<lambda>_. []" and srv = None]
    connect_outcome [OF pre(1-3) [of 0] refl refl, where k = 0 and dial = wit_dial and env = wit_stream_env and ready = "[]" and attempts = "\<lambda>_. []" and srv = None] w
  show ?thesis by (simp add: pre(4,5))
qed

end
