(* ===== verification/Marmot.thy ===== *)
theory Marmot
  imports Listener ChangeLogProps History
begin

text \<open>
  \<open>marmot.go\<close>: the two callbacks that join the database to the replicator (\<open>onTableChanged\<close>
  publishes a captured change, \<open>onChangeEvent\<close> applies a received one), the listener goroutine and
  the loop of \<open>main\<close>. The CBOR codec of the envelope is \<open>ev_codec\<close>. The second half joins the
  components: what one node publishes reaches another one's rows, and nodes that have read the same
  shards hold the same rows.
\<close>

section \<open>The callbacks\<close>

text \<open>What both callbacks share: the \<open>StateContext\<close> and the \<open>pulse\<close> events published on the bus.\<close>

record node_ctx =
  cx_canceled :: bool
  cx_pulses :: nat

record 'n pub_state = node_ctx +
  ps_rep :: "'n Replicator"
  ps_cache :: pk_cache

record ev_codec =
  ec_encMode :: "unit res"
  ec_enc :: "ChangeLogEvent ReplicationEvent \<Rightarrow> bytes res"
  ec_decMode :: "unit res"
  ec_dec :: "bytes \<Rightarrow> ChangeLogEvent ReplicationEvent res"
  ec_hash :: cbor_writer

definition ctx_Cancel :: "'z node_ctx_scheme \<Rightarrow> 'z node_ctx_scheme" where
  "ctx_Cancel s = s\<lparr>cx_canceled := True\<rparr>"

definition IsCanceled :: "'z node_ctx_scheme \<Rightarrow> bool" where
  "IsCanceled s = cx_canceled s"

definition pulse :: "'z node_ctx_scheme \<Rightarrow> 'z node_ctx_scheme" where
  "pulse s = s\<lparr>cx_pulses := Suc (cx_pulses s)\<rparr>"

definition event_Hash :: "ev_codec \<Rightarrow> ChangeLogEvent \<Rightarrow> ('n pub_state, u64) prog" where
  "event_Hash ec event s = (case Hash (ec_hash ec) event (ps_cache s) of (h, c) \<Rightarrow> (h, s\<lparr>ps_cache := c\<rparr>))"

definition on_replicator :: "('n Replicator, 'a) prog \<Rightarrow> ('n pub_state, 'a) prog" where
  "on_replicator f s = (case f (ps_rep s) of (x, r) \<Rightarrow> (x, s\<lparr>ps_rep := r\<rparr>))"

definition onTableChanged :: "'n nats_env \<Rightarrow> ev_codec \<Rightarrow> u64 \<Rightarrow> ChangeLogEvent \<Rightarrow> ('n pub_state, unit) prog" where
  "onTableChanged env ec nodeID event s =
     (let s1 = pulse s in
      if IsCanceled s1 then (Err ContextCanceled, s1)
      else if \<not> cf_Publish (ne_cfg env) then (Ok (), s1)
      else
        bindR (lift_res (Marshal Wrap (ec_encMode ec) (ec_enc ec) \<lparr>FromNodeId = nodeID, Payload = event\<rparr>)) (\<lambda>data.
        bindR (event_Hash ec event) (\<lambda>hash.
        bindR (on_replicator (Publish env hash data)) (\<lambda>_. ret ()))) s1)"

text \<open>The zero \<open>ReplicationEvent\<close> that \<open>Unmarshal\<close> fills in.\<close>

definition zero_event :: "ChangeLogEvent ReplicationEvent" where
  "zero_event = \<lparr>FromNodeId = 0, Payload = \<lparr>ev_Id = 0, ev_Type = '''', ev_TableName = '''', ev_Row = [], ev_tableInfo = []\<rparr>\<rparr>"

definition onChangeEvent ::
  "Configuration \<Rightarrow> ev_codec \<Rightarrow> db_env \<Rightarrow> bytes \<Rightarrow> ('z node_ctx_scheme StreamDB, unit) prog" where
  "onChangeEvent c ec env data w =
     (let w1 = w\<lparr>sd_ext := pulse (sd_ext w)\<rparr> in
      if IsCanceled (sd_ext w1) then (Err ContextCanceled, w1)
      else if \<not> cf_Replicate c then (Ok (), w1)
      else
        (case Unmarshal Unwrap (ec_decMode ec) (ec_dec ec) data zero_event of
           (Ok _, ev) \<Rightarrow> Replicate env (Payload ev) w1
         | (Err e, _) \<Rightarrow> (Err e, w1)
         | (Panic p, _) \<Rightarrow> (Panic p, w1)
         | (Block, _) \<Rightarrow> (Block, w1)))"

text \<open>\<open>changeListener\<close>: the result is what is sent on \<open>errChan\<close>, if anything.\<close>

definition changeListener ::
  "'n nats_env \<Rightarrow> (nat \<Rightarrow> go_error option) \<Rightarrow> ev_codec \<Rightarrow> db_env \<Rightarrow> u64 \<Rightarrow> unit res \<Rightarrow> listen_in list \<Rightarrow>
   (('n, 'z node_ctx_scheme StreamDB) node, go_error option) prog" where
  "changeListener env ip ec denv shard subscribed ins s =
     (case Listen env ip shard (onChangeEvent (ne_cfg env) ec denv) subscribed ins s of
        (Ok _, s1) \<Rightarrow> (Ok None, s1)
      | (Err e, s1) \<Rightarrow> (Ok (Some e), s1)
      | (Panic p, s1) \<Rightarrow> (Panic p, s1)
      | (Block, s1) \<Rightarrow> (Block, s1))"

section \<open>The main loop\<close>

text \<open>
  What the \<open>select\<close> of \<open>main\<close> receives: an error of a listener, a tick of the cleanup ticker, a tick
  of the snapshot timer (the clock when it fires, when the lease is taken and when the snapshot is
  done), the end of the sleep timeout. The cleanup and the lease take Unix milliseconds, the snapshot
  timer milliseconds since Go's zero time (\<open>lastSnapshot\<close> starts there).
\<close>

datatype main_in = ErrChan "go_error option" | CleanupTick int | SnapshotTick int int int | SleepTick int

datatype main_out = Running | Exited int

definition at_replicator :: "('n Replicator, 'a) prog \<Rightarrow> ('n pub_state StreamDB, 'a) prog" where
  "at_replicator f w = (case on_replicator f (sd_ext w) of (x, s) \<Rightarrow> (x, w\<lparr>sd_ext := s\<rparr>))"

definition main_step :: "'n nats_env \<Rightarrow> db_env \<Rightarrow> main_in \<Rightarrow> ('n pub_state StreamDB, main_out) prog" where
  "main_step env denv inp w =
     (let c = ne_cfg env; snaps = sn_Enable (cf_Snapshot c) \<and> cf_Publish c in
      case inp of
        ErrChan (Some e) \<Rightarrow> (Panic ''Terminated listener'', w)
      | ErrChan None \<Rightarrow> (Ok Running, w)
      | CleanupTick t \<Rightarrow>
          (case CleanupChangeLogs denv (t - uint (cf_CleanupInterval c)) w of
             (Ok _, w1) \<Rightarrow> (Ok Running, w1)
           | (Err _, w1) \<Rightarrow> (Ok Running, w1)
           | (Panic p, w1) \<Rightarrow> (Panic p, w1)
           | (Block, w1) \<Rightarrow> (Block, w1))
      | SnapshotTick now t1 t2 \<Rightarrow>
          if snaps \<and> now - r_lastSnapshot (ps_rep (sd_ext w)) \<ge> uint (sn_Interval (cf_Snapshot c))
          then bindR (at_replicator (SaveSnapshot env t1 t2)) (\<lambda>_. ret Running) w
          else (Ok Running, w)
      | SleepTick t \<Rightarrow>
          (let w1 = w\<lparr>sd_ext := ctx_Cancel (sd_ext w)\<rparr> in
           if snaps then bindR (at_replicator (ForceSaveSnapshot env t)) (\<lambda>_. ret (Exited 0)) w1
           else (Ok (Exited 0), w1)))"

text \<open>The loop: it waits for ever when nothing more arrives, and ends with the process.\<close>

fun main_loop :: "'n nats_env \<Rightarrow> db_env \<Rightarrow> main_in list \<Rightarrow> ('n pub_state StreamDB, int) prog" where
  "main_loop env denv [] w = (Block, w)"
| "main_loop env denv (i # is) w =
     bindR (main_step env denv i) (\<lambda>out. case out of Running \<Rightarrow> main_loop env denv is | Exited n \<Rightarrow> ret n) w"

section \<open>Applying what is received\<close>

text \<open>The bytes of a message carry an event: unmarshalling gives the same event to the database.\<close>

definition carries :: "ev_codec \<Rightarrow> bytes \<Rightarrow> ChangeLogEvent \<Rightarrow> bool" where
  "carries ec p e \<longleftrightarrow>
     (\<exists>r. Unmarshal Unwrap (ec_decMode ec) (ec_dec ec) p zero_event = (Ok (), r) \<and> same_event e (Payload r))"

text \<open>A node that takes part in replication: its database in order, not cancelled, replication on.\<close>

definition node_ready :: "Configuration \<Rightarrow> db_env \<Rightarrow> nat set \<Rightarrow> 'z node_ctx_scheme StreamDB \<Rightarrow> bool" where
  "node_ready c env B w \<longleftrightarrow>
     cf_Replicate c \<and> \<not> cx_canceled (sd_ext w) \<and> db_ready env w B \<and> db_wf (sd_schema w) (sd_db w)"

definition look_after :: "schema \<Rightarrow> ChangeLogEvent list \<Rightarrow> (string \<times> dval list \<Rightarrow> drow option) \<Rightarrow> string \<times> dval list \<Rightarrow> drow option" where
  "look_after sch es l = fold (\<lambda>e l. l(ev_key sch e := ev_effect sch e)) es l"

lemma same_event_driver_row:
  assumes "same_event a b" shows "driver_row (ev_Row b) = driver_row (ev_Row a)"
proof -
  have gen: "driver_row r = zip (map fst r) (map (\<lambda>x. case x of Ok d \<Rightarrow> d | _ \<Rightarrow> DNull) (map (\<lambda>(k, v). to_driver v) r))" for r
    by (induction r) (auto simp: driver_row_def)
  show ?thesis unfolding gen [of "ev_Row a"] gen [of "ev_Row b"] using assms by (simp add: same_event_def)
qed

lemma list_all_to_driver: "list_all (\<lambda>(k, v). is_ok (to_driver v)) r \<longleftrightarrow> list_all is_ok (map (\<lambda>(k, v). to_driver v) r)"
  by (induction r) auto

lemma same_event_keys:
  assumes "same_event a b"
  shows "ev_key sch b = ev_key sch a" "ev_effect sch b = ev_effect sch a" "event_ok sch b = event_ok sch a"
proof -
  show "ev_key sch b = ev_key sch a" "ev_effect sch b = ev_effect sch a"
    using assms same_event_driver_row [OF assms] by (simp_all add: ev_key_def ev_effect_def same_event_def)
  moreover have "ev_Row b = [] \<longleftrightarrow> ev_Row a = []"
    using assms unfolding same_event_def by (metis map_is_Nil_conv)
  ultimately show "event_ok sch b = event_ok sch a"
    using assms by (simp add: event_ok_def same_event_def list_all_to_driver)
qed

lemma pulse_simps [simp]: "cx_canceled (pulse s) = cx_canceled s" "IsCanceled (pulse s) = cx_canceled s"
  by (simp_all add: pulse_def IsCanceled_def)

text \<open>One call of the callback: the event's effect, or an error and nothing.\<close>

lemma onChangeEvent_cases:
  assumes rdy: "node_ready c env B w" and car: "carries ec p e" and ok: "event_ok (sd_schema w) e"
  obtains w' where "onChangeEvent c ec env p w = (Ok (), w')" "node_ready c env B w'" "sd_schema w' = sd_schema w"
      "look (sd_schema w) (sd_db w') = (look (sd_schema w) (sd_db w))(ev_key (sd_schema w) e := ev_effect (sd_schema w) e)"
  | x w' where "onChangeEvent c ec env p w = (Err x, w')" "node_ready c env B w'" "sd_schema w' = sd_schema w"
      "sd_db w' = sd_db w" "\<not> healthy env"
proof -
  from car obtain r where r: "Unmarshal Unwrap (ec_decMode ec) (ec_dec ec) p zero_event = (Ok (), r)" "same_event e (Payload r)"
    unfolding carries_def by blast
  let ?w = "w\<lparr>sd_ext := pulse (sd_ext w)\<rparr>"
  have eq: "onChangeEvent c ec env p w = Replicate env (Payload r) ?w"
    using rdy r by (simp add: onChangeEvent_def node_ready_def)
  have w: "db_ready env ?w B" "db_wf (sd_schema ?w) (sd_db ?w)" "event_ok (sd_schema ?w) (Payload r)"
    using rdy ok same_event_keys(3) [OF r(2)] by (simp_all add: node_ready_def db_ready_def)
  note keys = same_event_keys(1,2) [OF r(2), of "sd_schema w"]
  show ?thesis
  proof (rule Replicate_cases [OF w(1), of "Payload r"])
    fix q t assume rep: "pool_inv q B" "p_cap q = p_cap (sd_pool ?w)" "Replicate env (Payload r) ?w =
      (Ok (), ?w\<lparr>sd_tick := t, sd_db := apply_event (sd_schema ?w) (Payload r) (sd_db ?w), sd_pool := q\<rparr>)"
    show ?thesis
      by (rule that(1) [of "?w\<lparr>sd_tick := t, sd_db := apply_event (sd_schema ?w) (Payload r) (sd_db ?w), sd_pool := q\<rparr>"])
        (use rep Replicate_Ok [OF w(1) rep(3)] node.step_look [OF w(2,3)] node.step_invar [OF w(2,3)] rdy keys eq
          in \<open>auto simp: node_ready_def\<close>)
  next
    fix x q t assume rep: "pool_inv q B" "p_cap q = p_cap (sd_pool ?w)"
      "Replicate env (Payload r) ?w = (Err x, ?w\<lparr>sd_tick := t, sd_pool := q\<rparr>)"
    show ?thesis
      by (rule that(2) [of x "?w\<lparr>sd_tick := t, sd_pool := q\<rparr>"])
        (use rep Replicate_Err [OF w(1) rep(3)] Replicate_healthy [OF _ w] rdy eq in \<open>auto simp: node_ready_def\<close>)
  qed
qed

text \<open>A call that finally succeeds within its attempts, when failing calls keep \<open>I\<close>.\<close>

lemma tried_rule:
  assumes t: "tried ip cb p k j w (Ok ()) w'" and I: "I w"
    and step: "\<And>w. I w \<Longrightarrow> retriable (fst (cb p w)) \<Longrightarrow> I (snd (cb p w))"
  shows "\<exists>w0. I w0 \<and> cb p w0 = (Ok (), w')"
proof -
  have last: "attempts cb p (Suc i) w = snd (cb p (attempts cb p i w))" for i by (simp add: attempts_def)
  have "i \<le> j - 1 \<Longrightarrow> I (attempts cb p i w)" for i
  proof (induction i)
    case (Suc i)
    then have "Suc i < j" by simp
    with t have "retriable (fst (cb p (attempts cb p i w)))" by (simp add: tried_def)
    with Suc step show ?case by (simp add: last)
  qed (simp add: I)
  then have "I (attempts cb p (j - 1) w)" by simp
  moreover have "cb p (attempts cb p (j - 1) w) = (Ok (), w')"
    using t last [of "j - 1"] by (cases j) (auto simp: tried_def Let_def prod_eq_iff)
  ultimately show ?thesis by blast
qed

lemma handled_applies:
  assumes "handled ip (onChangeEvent c ec env) ps w w'" and "list_all2 (carries ec) ps es"
    and "node_ready c env B w" and "list_all (event_ok (sd_schema w)) es"
  shows "node_ready c env B w' \<and> sd_schema w' = sd_schema w \<and>
     look (sd_schema w) (sd_db w') = look_after (sd_schema w) es (look (sd_schema w) (sd_db w))"
  using assms
proof (induction ps arbitrary: w es)
  case Nil
  then show ?case by (simp add: look_after_def)
next
  case (Cons p ps)
  from Cons.prems(2) obtain e es' where es: "es = e # es'" "carries ec p e" "list_all2 (carries ec) ps es'"
    by (auto simp: list_all2_Cons1)
  from Cons.prems(1) obtain j w1 where t: "tried ip (onChangeEvent c ec env) p maxReplicateRetries j w (Ok ()) w1"
    and rest: "handled ip (onChangeEvent c ec env) ps w1 w'" by auto
  let ?I = "\<lambda>v. node_ready c env B v \<and> sd_schema v = sd_schema w \<and> sd_db v = sd_db w"
  have ok: "event_ok (sd_schema v) e" if "?I v" for v using that Cons.prems(4) es by simp
  have "?I (snd (onChangeEvent c ec env p v))" if "?I v" "retriable (fst (onChangeEvent c ec env p v))" for v
    by (rule onChangeEvent_cases [OF _ es(2) ok [OF that(1)], of c env B]) (use that in \<open>auto simp: retriable_def\<close>)
  with tried_rule [OF t, where I = ?I] Cons.prems(3) obtain w0 where w0: "?I w0" "onChangeEvent c ec env p w0 = (Ok (), w1)"
    by blast
  then have w1: "node_ready c env B w1" "sd_schema w1 = sd_schema w"
    "look (sd_schema w) (sd_db w1) = (look (sd_schema w) (sd_db w))(ev_key (sd_schema w) e := ev_effect (sd_schema w) e)"
    by (rule_tac onChangeEvent_cases [OF _ es(2) ok [OF w0(1)], of c env B]; force)+
  from Cons.IH [OF rest es(3) w1(1)] Cons.prems(4) w1 es(1) show ?case by (simp add: look_after_def fun_upd_def)
qed

section \<open>Shards and keys\<close>

text \<open>The shard an event goes to.\<close>

definition event_shard :: "ev_codec \<Rightarrow> u64 \<Rightarrow> ChangeLogEvent \<Rightarrow> u64 res" where
  "event_shard ec shards e = bindE (fst (Hash (ec_hash ec) e Map.empty)) (\<lambda>h. Ok (shard_of h shards))"

text \<open>A captured event of a schema: a row of driver values with the table's columns.\<close>

definition captured :: "schema \<Rightarrow> ChangeLogEvent \<Rightarrow> bool" where
  "captured sch e \<longleftrightarrow> db_event e \<and> event_ok sch e \<and> map_of sch (ev_TableName e) = Some (ev_tableInfo e)"

lemma row_get_db_event: "db_event e \<Longrightarrow> row_get (ev_Row e) c = GVal (cell (driver_row (ev_Row e)) c)"
proof -
  assume "db_event e"
  then have "\<exists>d. row_get (ev_Row e) c = GVal d"
    by (auto simp: db_event_def row_get_def list_all_iff split: option.splits dest!: map_of_SomeD)
      (metis (no_types, lifting) case_prodD db_value.elims(2) )
  then show ?thesis by (auto simp: cell_driver_row)
qed

lemma Hash_same_key:
  assumes "captured sch a" and "captured sch b" and k: "ev_key sch a = ev_key sch b"
  shows "fst (Hash cw a Map.empty) = fst (Hash cw b Map.empty)"
proof -
  have t: "ev_TableName a = ev_TableName b" "ev_tableInfo a = ev_tableInfo b"
    using assms by (auto simp: captured_def ev_key_def)
  have "row_get (ev_Row a) c = row_get (ev_Row b) c" if "c \<in> set (pk_names (ev_tableInfo a))" for c
  proof -
    have "key_of (pk_names (ev_tableInfo a)) (driver_row (ev_Row a)) = key_of (pk_names (ev_tableInfo a)) (driver_row (ev_Row b))"
      using k assms t by (simp add: ev_key_def pks_in_def captured_def)
    with that have "cell (driver_row (ev_Row a)) c = cell (driver_row (ev_Row b)) c" by (simp add: key_of_def)
    with assms row_get_db_event show ?thesis by (simp add: captured_def)
  qed
  then have "encode_pks cw (ev_Row a) (sort (pk_names (ev_tableInfo a))) = encode_pks cw (ev_Row b) (sort (pk_names (ev_tableInfo a)))"
    by (intro encode_pks_cong) simp
  then show ?thesis
    by (simp add: Hash_def getSortedPKColumns_def Let_def hash_input_def t split: res.splits)
qed

text \<open>The change-log events are changes of keys, and their hash keeps the changes of a key in one log.\<close>

interpretation clog: keyed_log "ev_key sch" "ev_effect sch" "event_shard ec n" "captured sch" for sch ec n
proof unfold_locales
  fix a b assume "captured sch a" "captured sch b" "ev_key sch a = ev_key sch b"
  then show "event_shard ec n a = event_shard ec n b" using Hash_same_key [of sch a b "ec_hash ec"] by (simp add: event_shard_def)
qed

lemma look_after_replay: "look_after sch = replay (ev_key sch) (ev_effect sch)"
  by (intro ext) (simp add: look_after_def replay_def)

lemma look_after_shards:
  assumes "list_all (captured sch) xs" and "list_all (captured sch) ys"
    and "\<And>i. filter (\<lambda>e. event_shard ec n e = i) xs = filter (\<lambda>e. event_shard ec n e = i) ys"
  shows "look_after sch xs l = look_after sch ys l"
  using clog.replay_same_parts [of sch xs ys ec n l] assms by (simp add: look_after_replay log_part_def)

section \<open>Joining the components\<close>

text \<open>What was marshalled carries its event, when the codec keeps the event's values.\<close>

lemma marshal_carries:
  assumes "ec_encMode ec = Ok ()" and "ec_decMode ec = Ok ()" and "codec_ok P wire_event (ec_enc ec) (ec_dec ec)"
    and "db_event e" and "P (prepare e)" and "Marshal Wrap (ec_encMode ec) (ec_enc ec) \<lparr>FromNodeId = n, Payload = e\<rparr> = Ok p"
  shows "carries ec p e"
proof -
  have "\<exists>r. Unmarshal Unwrap (Ok ()) (ec_dec ec) p zero_event = (Ok (), r) \<and> FromNodeId r = n \<and> same_event e (Payload r)"
    using clev.unmarshal_marshal [OF assms(3), of "\<lparr>FromNodeId = n, Payload = e\<rparr>" p zero_event] assms(1,4-6) by (simp add: Wrap_def)
  with assms(2) show ?thesis by (auto simp: carries_def)
qed

lemma onTableChanged_Ok:
  assumes cod: "seq_codec (ne_file env)" "env_returns env" and rep: "rep_wf (ps_rep s)" "r_shards (ps_rep s) \<noteq> 0"
    and pub: "cf_Publish (ne_cfg env)" "\<not> cx_canceled s"
    and o: "onTableChanged env ec n e s = (Ok (), s')"
  obtains data h where "Marshal Wrap (ec_encMode ec) (ec_enc ec) \<lparr>FromNodeId = n, Payload = e\<rparr> = Ok data"
    "fst (Hash (ec_hash ec) e (ps_cache s)) = Ok h" "publish_post env h data (ps_rep s) (Ok ()) (ps_rep s')"
proof -
  from o pub obtain data h r u where d: "Marshal Wrap (ec_encMode ec) (ec_enc ec) \<lparr>FromNodeId = n, Payload = e\<rparr> = Ok data"
    "fst (Hash (ec_hash ec) e (ps_cache s)) = Ok h" and p: "Publish env h data (ps_rep s) = (Ok u, r)" "ps_rep s' = r"
    by (auto simp: onTableChanged_def Let_def lift_res_def event_Hash_def on_replicator_def ret_def pulse_def IsCanceled_def
        elim!: bindR_OkE split: if_splits prod.splits)
  have "publish_post env h data (ps_rep s) (Ok ()) (ps_rep s')"
    using Publish_outcome [OF cod rep p(1)] p(2) by simp
  with d show ?thesis by (rule that)
qed

text \<open>A listener over healthy files and a healthy database never stops.\<close>

lemma listen_loop_applies:
  assumes cod: "seq_codec (ne_file env)" "file_healthy (ne_file env)" and h: "healthy denv"
  shows "\<forall>m\<in>set ms. m_Stream m = x \<and> (\<exists>p. plain env (r_compressionEnabled (nd_rep s)) m = Ok p \<and> carries ec p (evs (m_Seq m))) \<and>
      event_ok sch (evs (m_Seq m)) \<Longrightarrow>
    rep_open (r_repState (nd_rep s)) \<Longrightarrow> rep_get x (r_repState (nd_rep s)) = q \<Longrightarrow>
    node_ready c denv B (nd_w s) \<Longrightarrow> sd_schema (nd_w s) = sch \<Longrightarrow>
    \<exists>s'. listen_loop env ip (onChangeEvent c ec denv) q (map (\<lambda>m. Next m None None) ms) s = (Block, s') \<and>
      node_ready c denv B (nd_w s') \<and> sd_schema (nd_w s') = sch \<and>
      rep_get x (r_repState (nd_rep s')) = last_seq q (fresh q ms) \<and>
      look sch (sd_db (nd_w s')) = look_after sch (map (\<lambda>m. evs (m_Seq m)) (fresh q ms)) (look sch (sd_db (nd_w s)))"
proof (induction ms arbitrary: s q)
  case Nil
  then show ?case by (simp add: look_after_def)
next
  case (Cons m ms)
  show ?case
  proof (cases "m_Seq m \<le> q")
    case True
    with Cons show ?thesis by simp
  next
    case False
    from Cons.prems(1) obtain p where p: "plain env (r_compressionEnabled (nd_rep s)) m = Ok p" "carries ec p (evs (m_Seq m))"
      and ok: "event_ok sch (evs (m_Seq m))" "m_Stream m = x" by auto
    obtain w1 where w1: "onChangeEvent c ec denv p (nd_w s) = (Ok (), w1)" "node_ready c denv B w1" "sd_schema w1 = sch"
      "look sch (sd_db w1) = (look sch (sd_db (nd_w s)))(ev_key sch (evs (m_Seq m)) := ev_effect sch (evs (m_Seq m)))"
      by (rule onChangeEvent_cases [OF Cons.prems(4) p(2)]) (use ok Cons.prems(5) h in auto)
    have inv: "invokeListener env ip (onChangeEvent c ec denv) m s = (Ok (), s\<lparr>nd_w := w1\<rparr>)"
      using p(1) w1(1) by (simp add: invokeListener_def plain_def bindR_def lift_res_def maxReplicateRetries_def
          numeral_eq_Suc on_w_def ret_def)
    have mx: "max q (m_Seq m) = m_Seq m" using False by auto
    obtain t where t: "rep_save (ne_file env) x (m_Seq m) (r_repState (nd_rep s)) = (Ok (m_Seq m), t)" "rep_open t"
      "rep_get x t = m_Seq m"
      using rep_save_healthy [OF cod Cons.prems(2), of x "m_Seq m"] Cons.prems(3) mx by auto
    let ?s = "s\<lparr>nd_w := w1, nd_rep := (nd_rep s)\<lparr>r_repState := t\<rparr>\<rparr>"
    have "listen_loop env ip (onChangeEvent c ec denv) q (map (\<lambda>m. Next m None None) (m # ms)) s =
        listen_loop env ip (onChangeEvent c ec denv) (m_Seq m) (map (\<lambda>m. Next m None None) ms) ?s"
      using False inv t(1) ok(2) by (simp add: bindR_def on_rep_def on_state_def)
    moreover have "\<exists>s'. listen_loop env ip (onChangeEvent c ec denv) (m_Seq m) (map (\<lambda>m. Next m None None) ms) ?s = (Block, s') \<and>
      node_ready c denv B (nd_w s') \<and> sd_schema (nd_w s') = sch \<and>
      rep_get x (r_repState (nd_rep s')) = last_seq (m_Seq m) (fresh (m_Seq m) ms) \<and>
      look sch (sd_db (nd_w s')) = look_after sch (map (\<lambda>m. evs (m_Seq m)) (fresh (m_Seq m) ms)) (look sch (sd_db (nd_w ?s)))"
      by (rule Cons.IH) (use Cons.prems(1) t w1 in auto)
    ultimately show ?thesis using False w1(4) by (simp add: look_after_def fun_upd_def)
  qed
qed

section \<open>Concrete data\<close>

definition re_ext :: "'x StreamDB \<Rightarrow> 'y \<Rightarrow> 'y StreamDB" where
  "re_ext w y = \<lparr>sd_prefix = sd_prefix w, sd_schema = sd_schema w, sd_publishLock = sd_publishLock w, sd_pool = sd_pool w,
     sd_db = sd_db w, sd_tick = sd_tick w, sd_published = sd_published w, sd_pendingPublish = sd_pendingPublish w, sd_ext = y\<rparr>"

definition wit_db_node :: "node_ctx StreamDB" where
  "wit_db_node = re_ext wit_repl_world \<lparr>cx_canceled = False, cx_pulses = 0\<rparr>"

definition wit_ev :: "int \<Rightarrow> ChangeLogEvent" where
  "wit_ev i = (wit_change ''insert'' i ''p'')\<lparr>ev_tableInfo := wit_repl_cols\<rparr>"

text \<open>A codec that knows two events.\<close>

definition wit_ec :: ev_codec where
  "wit_ec = \<lparr>ec_encMode = Ok (),
     ec_enc = (\<lambda>x. if x = \<lparr>FromNodeId = 1, Payload = wit_ev 3\<rparr> then Ok [3]
                   else if x = \<lparr>FromNodeId = 1, Payload = wit_ev 4\<rparr> then Ok [4] else Err (External 2)),
     ec_decMode = Ok (),
     ec_dec = (\<lambda>b. if b = [3] then Ok \<lparr>FromNodeId = 1, Payload = wit_ev 3\<rparr>
                   else if b = [4] then Ok \<lparr>FromNodeId = 1, Payload = wit_ev 4\<rparr> else Err (External 3)),
     ec_hash = wit_cw\<rparr>"

definition wit_pub :: "mem_nats pub_state" where
  "wit_pub = \<lparr>cx_canceled = False, cx_pulses = 0, ps_rep = wit_replicator, ps_cache = Map.empty\<rparr>"

lemma wit_node_ready: "node_ready (ne_cfg (wit_nats_env 2)) wit_repl_env {} wit_db_node"
  using wit_ready wit_wf
  by (simp add: node_ready_def wit_db_node_def re_ext_def db_ready_def wit_nats_env_def Let_def default_config_def)

lemma wit_db_schema [simp]: "sd_schema wit_db_node = [(''t'', wit_repl_cols)]"
  by (simp add: wit_db_node_def re_ext_def wit_repl_world_def)

lemma wit_ev_captured: "int64_range i \<Longrightarrow> captured [(''t'', wit_repl_cols)] (wit_ev i)"
  by (simp add: captured_def db_event_def wit_ev_def wit_event_ok_simps)

lemma wit_ev_ok: "event_ok [(''t'', wit_repl_cols)] (wit_ev i)"
  by (simp add: wit_ev_def wit_event_ok_simps)

lemma wit_ec_carries: "i = 3 \<or> i = 4 \<Longrightarrow> carries wit_ec [word_of_int i] (wit_ev i)"
  by (auto simp: carries_def wit_ec_def Unmarshal_def Unwrap_def same_event_def wit_ev_def wit_change_def)

lemma wit_ec_codec: "codec_ok (\<lambda>_. True) wire_event (ec_enc wit_ec) (ec_dec wit_ec)"
  by (auto simp: codec_ok_def wit_ec_def wire_event_def wit_ev_def wit_change_def split: if_splits)

lemma wit_hash: "fst (Hash wit_cw (wit_ev 3) Map.empty) = Ok 2804829086499168169"
  "fst (Hash wit_cw (wit_ev 4) Map.empty) = Ok 2804832385034052752"
  by (simp_all add: Hash_def wit_cw_def getSortedPKColumns_def Let_def hash_input_def res_simps wit_ev_def wit_change_def
      row_get_def bytes_of_def fnv64_def fnv_step_def fnv_offset64_def fnv_prime64_def)

lemma wit_prepare: "prepare (wit_ev i) = wit_ev i"
  by (simp add: prepare_def wit_ev_def wit_change_def)

section \<open>Properties\<close>







text \<open>Saving a snapshot comes back, with or without success.\<close>

definition ticks_return :: "'n nats_env \<Rightarrow> bool" where
  "ticks_return env \<longleftrightarrow> (\<forall>a b r. returns (fst (SaveSnapshot env a b r))) \<and> (\<forall>a r. returns (fst (ForceSaveSnapshot env a r)))"

lemma ForceSaveSnapshot_ok: "returns (fst (ForceSaveSnapshot env a r)) \<Longrightarrow> fst (ForceSaveSnapshot env a r) = Ok ()"
  by (auto simp: ForceSaveSnapshot_def split: prod.splits res.splits if_splits)

lemma SaveSnapshot_ok: "returns (fst (SaveSnapshot env a b r)) \<Longrightarrow> fst (SaveSnapshot env a b r) = Ok ()"
  by (auto simp: SaveSnapshot_def split: prod.splits res.splits if_splits) (metis ForceSaveSnapshot_ok fst_conv)+

lemma snapshot_ok:
  assumes "ticks_return env"
  shows "\<exists>r'. SaveSnapshot env a b r = (Ok (), r')" "\<exists>r'. ForceSaveSnapshot env a r = (Ok (), r')"
  using assms ForceSaveSnapshot_ok SaveSnapshot_ok unfolding ticks_return_def by (metis prod.collapse)+

lemma main_tick:
  assumes "ticks_return env" and "db_ready denv w B" and "cdc_wf (sd_prefix w) (sd_schema w) (sd_db w)"
    and "(\<exists>t. i = CleanupTick t) \<or> (\<exists>t a b. i = SnapshotTick t a b)"
  shows "\<exists>w'. main_step env denv i w = (Ok Running, w') \<and> pub_frame denv B w w' \<and>
     pending (sd_prefix w) (sd_schema w) (sd_db w') = pending (sd_prefix w) (sd_schema w) (sd_db w)"
proof (cases i)
  case (CleanupTick t)
  from CleanupChangeLogs_run [OF assms(2,3), of "t - uint (cf_CleanupInterval (ne_cfg env))"] CleanupTick
  show ?thesis by (auto simp: main_step_def Let_def cleaned_def elim!: returnsE)
next
  case (SnapshotTick t a b)
  obtain r where "SaveSnapshot env a b (ps_rep (sd_ext w)) = (Ok (), r)" using snapshot_ok [OF assms(1)] by blast
  with SnapshotTick assms(2,3) show ?thesis
    by (auto simp: main_step_def Let_def at_replicator_def on_replicator_def bindR_def ret_def pub_frame_def db_ready_def)
qed (use assms(4) in auto)

lemma main_ticks:
  assumes "ticks_return env" and "db_ready denv w B" and "cdc_wf (sd_prefix w) (sd_schema w) (sd_db w)"
    and "\<forall>i\<in>set is. (\<exists>t. i = CleanupTick t) \<or> (\<exists>t a b. i = SnapshotTick t a b)"
  shows "\<exists>w'. (\<forall>js. main_loop env denv (is @ js) w = main_loop env denv js w') \<and> pub_frame denv B w w' \<and>
     pending (sd_prefix w) (sd_schema w) (sd_db w') = pending (sd_prefix w) (sd_schema w) (sd_db w)"
  using assms
proof (induction "is" arbitrary: w)
  case Nil
  then show ?case by (auto simp: pub_frame_def)
next
  case (Cons i js)
  from main_tick [OF Cons.prems(1-3), of i] Cons.prems(4)
  obtain w1 where w1: "main_step env denv i w = (Ok Running, w1)" "pub_frame denv B w w1"
    "pending (sd_prefix w) (sd_schema w) (sd_db w1) = pending (sd_prefix w) (sd_schema w) (sd_db w)" by auto
  then have "db_ready denv w1 B" "cdc_wf (sd_prefix w1) (sd_schema w1) (sd_db w1)" "sd_prefix w1 = sd_prefix w" "sd_schema w1 = sd_schema w"
    by (simp_all add: pub_frame_def)
  with Cons.IH [of w1] Cons.prems(1,4) w1 pub_frame_trans [OF w1(2)] show ?case by (auto simp: bindR_def)
qed

text \<open>
  C24: the main loop keeps running through any sequence of cleanup and snapshot ticks, whatever fails
  in them, and loses no waiting change: what waits to be published, the invariant of the change
  logs and the application's tables stay as they were. An error of a listener then ends it with a
  panic; the sleep timeout ends the process with status 0 after cancelling the callbacks, and leaves
  the database alone.
\<close>

theorem main_loop_keeps_changes:
  assumes "ticks_return env" and "db_ready denv w B" and "cdc_wf (sd_prefix w) (sd_schema w) (sd_db w)"
    and "\<forall>i\<in>set is. (\<exists>t. i = CleanupTick t) \<or> (\<exists>t a b. i = SnapshotTick t a b)"
  shows "\<exists>w'. main_loop env denv is w = (Block, w') \<and> pub_frame denv B w w' \<and>
     pending (sd_prefix w) (sd_schema w) (sd_db w') = pending (sd_prefix w) (sd_schema w) (sd_db w) \<and>
     main_loop env denv (is @ ErrChan (Some e) # js) w = (Panic ''Terminated listener'', w') \<and>
     (\<exists>w2. main_loop env denv (is @ SleepTick t # js) w = (Ok 0, w2) \<and> cx_canceled (sd_ext w2) \<and> sd_db w2 = sd_db w')"
proof -
  from main_ticks [OF assms] obtain w' where w': "\<And>js. main_loop env denv (is @ js) w = main_loop env denv js w'"
    "pub_frame denv B w w'" "pending (sd_prefix w) (sd_schema w) (sd_db w') = pending (sd_prefix w) (sd_schema w) (sd_db w)" by blast
  obtain r where "ForceSaveSnapshot env t (ps_rep (ctx_Cancel (sd_ext w'))) = (Ok (), r)" using snapshot_ok(2) [OF assms(1)] by blast
  then have "\<exists>w2. main_loop env denv (SleepTick t # js) w' = (Ok 0, w2) \<and> cx_canceled (sd_ext w2) \<and> sd_db w2 = sd_db w'"
    by (auto simp: main_step_def Let_def at_replicator_def on_replicator_def bindR_def ret_def ctx_Cancel_def)
  moreover have "main_loop env denv (ErrChan (Some e) # js) w' = (Panic ''Terminated listener'', w')"
    by (simp add: main_step_def Let_def bindR_def)
  ultimately show ?thesis using w' w'(1) [of "[]"] by (intro exI [of _ w']) simp
qed

theorem main_loop_keeps_changes_witness:
  "\<exists>w'. main_loop (wit_nats_env 2) wit_repl_env [CleanupTick 9000, SnapshotTick 70000 1 70001] (re_ext wit_pub_world wit_pub) = (Block, w') \<and>
     length (pending MarmotPrefix wit_log_schema (sd_db w')) = 2"
proof -
  let ?w = "re_ext wit_pub_world wit_pub"
  have t: "ticks_return (wit_nats_env 2)"
    by (auto simp: ticks_return_def wit_nats_env_def Let_def SaveSnapshot_def ForceSaveSnapshot_def on_nats_def ret_def
        ContextRefreshingLease_def AcquireLease_def lease_commit_def unary_codec_def bindR_def lift_res_def split: prod.splits res.splits if_splits)
  have r: "db_ready wit_repl_env ?w {}" "cdc_wf (sd_prefix ?w) (sd_schema ?w) (sd_db ?w)"
    using wit_pub_ready wit_pub_wf by (simp_all add: re_ext_def db_ready_def)
  from main_loop_keeps_changes [OF t r, of "[CleanupTick 9000, SnapshotTick 70000 1 70001]" "External 0" "[]" 0] wit_db2_pending
  show ?thesis by (auto simp: re_ext_def wit_pub_world_def simp del: main_loop.simps)
qed

end
