(* ===== verification/CatchUp.thy ===== *)
theory CatchUp
  imports Marmot SnapshotProps
begin

text \<open>
  Snapshots and streams together. A stream keeps a bounded number of messages; a node that is further
  behind restores a snapshot another node has saved and then listens to what the streams still hold.
  The snapshot and the streams overlap: the node handles again what the snapshot already contains,
  shard by shard from wherever its stream begins.
\<close>

section \<open>Overlapping histories\<close>

definition shard_part :: "ev_codec \<Rightarrow> u64 \<Rightarrow> u64 res \<Rightarrow> ChangeLogEvent list \<Rightarrow> ChangeLogEvent list" where
  "shard_part ec n i es = log_part (event_shard ec n) i es"

text \<open>
  \<open>hs\<close> is the whole history. On every shard \<open>xs\<close> is what had been handled up to some point, and \<open>ys\<close> is
  everything from some point on, which is not after the first.
\<close>

definition overlapping :: "ev_codec \<Rightarrow> u64 \<Rightarrow> ChangeLogEvent list \<Rightarrow> ChangeLogEvent list \<Rightarrow> ChangeLogEvent list \<Rightarrow> bool" where
  "overlapping ec n xs ys hs \<longleftrightarrow> overlap (event_shard ec n) xs ys hs"

text \<open>Handling the second part on top of the first leaves what the whole history leaves.\<close>

lemma look_after_overlap:
  assumes "list_all (captured sch) hs" and "overlapping ec n xs ys hs"
  shows "look_after sch ys (look_after sch xs l) = look_after sch hs l"
  using clog.replay_overlap [of sch hs ec n xs ys l] assms by (simp add: look_after_replay overlapping_def)

section \<open>Catching up\<close>


text \<open>The saving node has handled the first of two changes; the other one handles both after the restore.\<close>

definition wit_tb3 :: sqltable where
  "wit_tb3 = insert_or_replace [(''id'', DInt 3), (''v'', DText ''p'')] wit_repl_table"

definition wit_restorer :: world where
  "wit_restorer = wit_world\<lparr>w_files := Map.empty, w_remote := w_remote (snd
     (db_SaveSnapshot wit_io (wit_fmt_of wit_tb3) MarmotPrefix (Upload wit_io ''n'' 5 (SFTPStorage ''/d'')) ''db'' wit_world))\<rparr>"

lemma wit_handled_3:
  "\<exists>u'. handled (\<lambda>_. None) (onChangeEvent (ne_cfg (wit_nats_env 2)) wit_ec wit_repl_env) [[3]] wit_db_node u' \<and> sd_db u' = [''t'' \<mapsto> wit_tb3]"
proof -
  let ?cb = "onChangeEvent (ne_cfg (wit_nats_env 2)) wit_ec wit_repl_env"
  let ?w = "wit_db_node\<lparr>sd_ext := pulse (sd_ext wit_db_node)\<rparr>"
  have run: "?cb [3] wit_db_node = Replicate wit_repl_env (wit_ev 3) ?w"
    using wit_node_ready by (simp add: onChangeEvent_def node_ready_def wit_ec_def Unmarshal_def Unwrap_def wit_ev_def wit_change_def)
  have w: "db_ready wit_repl_env ?w {}" "db_wf (sd_schema ?w) (sd_db ?w)" "event_ok (sd_schema ?w) (wit_ev 3)"
    using wit_node_ready wit_ev_ok by (simp_all add: node_ready_def db_ready_def)
  from Replicate_healthy [OF wit_healthy w] obtain u' where u': "Replicate wit_repl_env (wit_ev 3) ?w = (Ok (), u')"
    by (metis prod.collapse)
  with Replicate_Ok [OF w(1) u'] have "sd_db u' = apply_event [(''t'', wit_repl_cols)] (wit_ev 3) (sd_db wit_db_node)" by simp
  also have "\<dots> = [''t'' \<mapsto> wit_tb3]"
    by (simp add: apply_event_def event_stmt_def wit_ev_def wit_change_def wit_db_node_def re_ext_def wit_repl_world_def wit_tb3_def
        res_simps sql_after_def full_row_def wit_repl_table_def known_def cell_def)
  finally show ?thesis
    using u' run tried_one [of ?cb "[3]" wit_db_node maxReplicateRetries "\<lambda>_. None"] by (auto simp: retriable_def maxReplicateRetries_def)
qed

lemma wit_overlapping: "overlapping wit_ec 2 [wit_ev 3] [wit_ev 3, wit_ev 4] [wit_ev 3, wit_ev 4]"
proof -
  have "event_shard wit_ec 2 (wit_ev 3) = Ok 2" "event_shard wit_ec 2 (wit_ev 4) = Ok 1"
    using wit_hash by (simp_all add: event_shard_def wit_ec_def res_simps shard_of_def)
  note sh = this
  have "\<exists>k j. k \<le> j \<and> shard_part wit_ec 2 i [wit_ev 3] = take j (shard_part wit_ec 2 i [wit_ev 3, wit_ev 4]) \<and>
     shard_part wit_ec 2 i [wit_ev 3, wit_ev 4] = drop k (shard_part wit_ec 2 i [wit_ev 3, wit_ev 4])" for i
    by (intro exI [of _ 0] exI [of _ "if i = Ok 2 then 1 else 0"]) (auto simp: shard_part_def log_part_def sh)
  then show ?thesis unfolding overlapping_def overlap_def shard_part_def by blast
qed


end
