(* ===== verification/Start.thy ===== *)
theory Start
  imports CatchUp Watch
begin

text \<open>
  The start of \<open>main\<close> (\<open>marmot.go\<close>): the configuration is loaded, the database opened, and depending on
  the flags the process removes change capture, saves a snapshot, or becomes a node: it builds the
  replicator, restores a snapshot when it is behind, installs change capture on the tables of the
  database, starts one listener per shard and enters the loop. The replicator saves and restores
  through the snapshot code and the store the configuration names.
\<close>

section \<open>Environment\<close>

text \<open>
  \<open>st_world\<close> and \<open>st_put\<close> are the files and remote objects inside the node's world \<open>'n\<close>, which also
  holds what the NATS calls of \<open>st_nats\<close> work on; \<open>st_seqfile\<close> is the sequence-number file; \<open>st_now\<close>
  and \<open>st_clock\<close> are the clock when a snapshot is uploaded and when one taken by hand is done.
\<close>

record 'n start_env =
  st_decode :: "string \<Rightarrow> Configuration \<Rightarrow> toml_result \<times> Configuration"
  st_cwd :: "string res"
  st_denv :: db_env
  st_conn :: nat
  st_checkpoints :: "(int \<times> int \<times> int) res list"
  st_io :: io_env
  st_fmt :: sqlite_fmt
  st_attempts :: nat
  st_now :: nat
  st_store :: store_env
  st_nats :: "Configuration \<Rightarrow> 'n nats_env"
  st_world :: "'n \<Rightarrow> world"
  st_put :: "world \<Rightarrow> 'n \<Rightarrow> 'n"
  st_seqfile :: "'n \<Rightarrow> bytes"
  st_clock :: int
  st_watcher :: "unit res"
  st_subscribed :: "unit res"

record flags =
  fl_config :: string
  fl_cleanup :: bool
  fl_save_snapshot :: bool

definition on_world :: "'n start_env \<Rightarrow> (world, 'a) prog \<Rightarrow> ('n, 'a) prog" where
  "on_world se f n = (case f (st_world se n) of (x, w) \<Rightarrow> (x, st_put se w n))"

text \<open>\<open>snapshot.NewNatsDBSnapshot(streamDB, snpStore)\<close>, given to the replicator.\<close>

definition node_env :: "'n start_env \<Rightarrow> Configuration \<Rightarrow> Storage \<Rightarrow> 'n nats_env" where
  "node_env se c st = (st_nats se c)
     \<lparr>ne_snap_save := on_world se
        (db_SaveSnapshot (st_io se) (st_fmt se) MarmotPrefix (Upload (st_io se) (NodeName c) (st_now se) st) (cf_DBPath c)),
      ne_snap_restore := on_world se
        (db_RestoreSnapshot (st_io se) (st_fmt se) (st_checkpoints se) (Download (st_io se) (st_attempts se) st) (cf_DBPath c))\<rparr>"

definition node_db :: "'n start_env \<Rightarrow> Configuration \<Rightarrow> 'n \<Rightarrow> (sqldb \<times> catalog) res" where
  "node_db se c n =
     (case db_image (st_fmt se) (w_files (st_world se n)) (cf_DBPath c) of
        None \<Rightarrow> Err (Errorf ''file is not a database'')
      | Some x \<Rightarrow> Ok x)"

section \<open>The program\<close>

text \<open>What a failed call leads to: a panic with a message, or a return from \<open>main\<close>.\<close>

definition or_panic :: "string \<Rightarrow> 'a res \<Rightarrow> 'a res" where
  "or_panic msg r = (case r of Err e \<Rightarrow> Panic msg | _ \<Rightarrow> r)"

definition or_return :: "'b \<Rightarrow> 'a res \<Rightarrow> ('a \<Rightarrow> 'b res) \<Rightarrow> 'b res" where
  "or_return b r k = (case r of Ok x \<Rightarrow> k x | Err e \<Rightarrow> Ok b | Panic p \<Rightarrow> Panic p | Block \<Rightarrow> Block)"

definition settle :: "'a res \<times> 's \<Rightarrow> ('a \<times> 's) res" where
  "settle x = (case x of (Ok a, s) \<Rightarrow> Ok (a, s) | (Err e, s) \<Rightarrow> Err e | (Panic p, s) \<Rightarrow> Panic p | (Block, s) \<Rightarrow> Block)"

text \<open>
  How the start ends: \<open>main\<close> returns after an error it only logs, after removing change capture, or after
  saving a snapshot; or it enters its loop with a database, the shards that have a listener, the
  sleep timer and the snapshot timer.
\<close>

datatype 'n main_end =
    GaveUp
  | Cleaned "unit AdminDB"
  | Saved "'n Replicator"
  | Entered "'n nats_env" "'n pub_state AdminDB" "u64 list" TimeoutPublisher TimeoutPublisher

text \<open>The snapshot is restored first when the node replicates and snapshots are enabled.\<close>

definition restore_first :: "'n nats_env \<Rightarrow> ('n Replicator, unit) prog" where
  "restore_first env =
     (if sn_Enable (cf_Snapshot (ne_cfg env)) \<and> cf_Replicate (ne_cfg env) then RestoreSnapshot env else ret ())"

definition start_timers :: "'n start_env \<Rightarrow> Configuration \<Rightarrow> (TimeoutPublisher \<times> TimeoutPublisher) res" where
  "start_timers se c =
     bindE (AutoResetEventTimer (st_subscribed se) (uint (cf_SleepTimeout c) * 1000000)) (\<lambda>(sleepTimeout, _).
     if cf_CleanupInterval c = 0 then Panic ''non-positive interval for NewTicker''
     else bindE (NewTimeoutPublisher (uint (sn_Interval (cf_Snapshot c)) * 1000000)) (\<lambda>snapshotTicker.
       Ok (sleepTimeout, snapshotTicker)))"

definition watch_db :: "'n start_env \<Rightarrow> Configuration \<Rightarrow> 'n nats_env \<Rightarrow> unit StreamDB \<Rightarrow> 'n Replicator \<Rightarrow> 'n main_end res" where
  "watch_db se c env w r =
     or_return GaveUp (node_db se c (r_nats r)) (\<lambda>(d, cat).
     or_return GaveUp (settle (GetAllDBTables (e_driver (st_denv se)) (st_conn se) (e_fault (st_denv se))
         \<lparr>rd_tick = sd_tick w, rd_db = d, rd_cat = cat\<rparr>)) (\<lambda>(tableNames, v).
     or_return GaveUp (settle (InstallCDC (st_denv se) (st_watcher se) tableNames
         \<lparr>ad_sd = (re_ext w \<lparr>cx_canceled = False, cx_pulses = 0, ps_rep = r, ps_cache = Map.empty\<rparr>)\<lparr>sd_db := d, sd_tick := rd_tick v\<rparr>,
          ad_cat = cat\<rparr>)) (\<lambda>(_, a).
     bindE (start_timers se c) (\<lambda>(sleepTimeout, snapshotTicker).
       Ok (Entered env a (map (\<lambda>i. of_nat i + 1) [0..<unat (rl_Shards (cf_ReplicationLog c))]) sleepTimeout snapshotTicker)))))"

definition open_db :: "'n start_env \<Rightarrow> Configuration \<Rightarrow> 'n \<Rightarrow> (unit StreamDB \<times> catalog) res" where
  "open_db se c n =
     bindE (node_db se c n) (\<lambda>(d, cat).
     bindE (OpenStreamDB (st_denv se) 0 (cf_DBPath c) (st_checkpoints se) d 0 ()) (\<lambda>w. Ok (w, cat)))"

definition run_node :: "'n start_env \<Rightarrow> flags \<Rightarrow> Configuration \<Rightarrow> unit StreamDB \<Rightarrow> 'n \<Rightarrow> 'n main_end res" where
  "run_node se fl c w n =
     bindE (or_panic ''Unable to initialize snapshot storage'' (NewSnapshotStorage (st_store se) c)) (\<lambda>st.
     let env = node_env se c st in
     bindE (or_panic ''Unable to initialize replicators'' (settle (NewReplicator env True (st_seqfile se n) n))) (\<lambda>(r, _).
     if fl_save_snapshot fl then bindE (settle (ForceSaveSnapshot env (st_clock se) r)) (\<lambda>(_, r1). Ok (Saved r1))
     else
       bindE (or_panic ''Unable to restore snapshot'' (settle (restore_first env r))) (\<lambda>(_, r1).
         watch_db se c env w r1)))"

definition main_start :: "'n start_env \<Rightarrow> flags \<Rightarrow> Configuration \<times> string \<Rightarrow> 'n \<Rightarrow> 'n main_end res" where
  "main_start se fl cfg n =
     bindE (or_panic ''config'' (settle (Load (st_decode se) (st_cwd se) (fl_config fl) cfg))) (\<lambda>(_, c, _).
     or_return GaveUp (open_db se c n) (\<lambda>(w, cat).
       if fl_cleanup fl then
         bindE (or_panic ''Unable to clean up...'' (settle (RemoveCDC (st_denv se) True \<lparr>ad_sd = w, ad_cat = cat\<rparr>))) (\<lambda>(_, a). Ok (Cleaned a))
       else run_node se fl c w n))"

text \<open>A timer without a ticker never fires.\<close>

definition main_inputs :: "TimeoutPublisher \<Rightarrow> TimeoutPublisher \<Rightarrow> main_in list \<Rightarrow> main_in list" where
  "main_inputs sleepTimeout snapshotTicker ins =
     filter (\<lambda>i. case i of SleepTick _ \<Rightarrow> tp_Channel sleepTimeout | SnapshotTick _ _ _ \<Rightarrow> tp_Channel snapshotTicker | _ \<Rightarrow> True) ins"

text \<open>The exit status of the process; it returns 0 also when it gave up.\<close>

definition main_prog :: "'n start_env \<Rightarrow> flags \<Rightarrow> Configuration \<times> string \<Rightarrow> main_in list \<Rightarrow> 'n \<Rightarrow> int res" where
  "main_prog se fl cfg ins n =
     bindE (main_start se fl cfg n) (\<lambda>out.
       case out of
         Entered env a shards sleepTimeout snapshotTicker \<Rightarrow>
           fst (main_loop env (st_denv se) (main_inputs sleepTimeout snapshotTicker ins) (ad_sd a))
       | _ \<Rightarrow> Ok 0)"

section \<open>Lemmas\<close>

text \<open>The tables a node offers to watch.\<close>

definition app_tables :: "catalog \<Rightarrow> string list" where
  "app_tables c = filter (\<lambda>n. \<not> like ''sqlite_%'' n \<and> \<not> like (MarmotPrefix @ ''%'') n) (cat_tables c)"

lemma matches_has_prefix: "has_prefix s p \<Longrightarrow> matches p s"
  by (induction p s rule: matches.induct) auto

lemma app_tables_watchable:
  assumes "t \<in> set (app_tables c)" and "trim_space t = t" shows "watchable MarmotPrefix c t"
proof -
  have "\<not> matches ''sqlite_'' t" "\<not> matches MarmotPrefix t"
    using assms(1) like_prefix [of "''sqlite_''" t] by (simp_all add: app_tables_def like_marmot)
  then show ?thesis using assms matches_has_prefix by (auto simp: watchable_def app_tables_def)
qed

lemma GetAllDBTables_healthy:
  assumes "healthy env"
  shows "GetAllDBTables (e_driver env) k (e_fault env) w = (Ok (app_tables (rd_cat w)), w\<lparr>rd_tick := rd_tick w + 3\<rparr>)"
proof -
  obtain x where "OpenRaw (e_driver env) k = Ok x"
    using assms by (auto simp: healthy_def driver_healthy_def OpenRaw_def bindE_def Let_def)
  with assms show ?thesis
    by (simp add: GetAllDBTables_def raw_tx_def tx_on_def listDBTables_def raw_call_def bindR_def lift_res_def healthy_def app_tables_def)
qed

text \<open>Looking at the streams and restoring changes only the world outside the replicator.\<close>

lemma same_nats: "\<exists>n. r = r\<lparr>r_nats := n\<rparr>"
  by (rule exI [of _ "r_nats r"]) simp

lemma restore_first_same:
  assumes "restore_first env r = (x, r')" shows "\<exists>n. r' = r\<lparr>r_nats := n\<rparr>"
proof -
  have "\<exists>n. r' = r\<lparr>r_nats := n\<rparr>" if "restore_loop env ss r = (x, r')" for ss r
    using that
  proof (induction ss arbitrary: r)
    case (Cons s ss)
    then show ?case
      by (auto simp: Let_def bindR_def on_nats_def split: prod.splits res.splits if_splits) (metis Replicator.surjective Replicator.update_convs(9))+
  qed (use same_nats in auto)
  with assms show ?thesis by (auto simp: restore_first_def RestoreSnapshot_def ret_def intro: same_nats split: if_splits)
qed

lemma re_ext_simps [simp]:
  "sd_prefix (re_ext w y) = sd_prefix w" "sd_schema (re_ext w y) = sd_schema w" "sd_publishLock (re_ext w y) = sd_publishLock w"
  "sd_pool (re_ext w y) = sd_pool w" "sd_db (re_ext w y) = sd_db w" "sd_tick (re_ext w y) = sd_tick w" "sd_ext (re_ext w y) = y"
  by (simp_all add: re_ext_def)

lemma start_timers_run:
  assumes "st_subscribed se = Ok ()"
  shows "if cf_CleanupInterval c = 0 then \<exists>p. start_timers se c = Panic p
    else \<exists>sl sn. start_timers se c = Ok (sl, sn) \<and> (tp_Channel sl \<longleftrightarrow> cf_SleepTimeout c \<noteq> 0) \<and> (tp_Channel sn \<longleftrightarrow> sn_Interval (cf_Snapshot c) \<noteq> 0)"
  using NewTimeoutPublisher_u32 [of "cf_SleepTimeout c"] NewTimeoutPublisher_u32 [of "sn_Interval (cf_Snapshot c)"] assms
  by (auto simp: start_timers_def AutoResetEventTimer_def res_simps)

text \<open>The part of the start that follows the restore.\<close>

lemma watch_db_run:
  assumes h: "healthy (st_denv se)" and ok: "st_watcher se = Ok ()" "st_subscribed se = Ok ()"
    and w: "db_ready (st_denv se) w {}" "p_cap (sd_pool w) = PoolSize" "sd_prefix w = MarmotPrefix" "sd_schema w = []"
    and db: "node_db se c (r_nats r) = Ok (d, cat)" "cat_ok d cat" "\<forall>t\<in>set (cat_tables cat). trim_space t = t"
      "cdc_before MarmotPrefix (watch_all cat (app_tables cat) []) d"
  shows "if cf_CleanupInterval c = 0 then \<exists>p. watch_db se c env w r = Panic p
    else \<exists>a sl sn. watch_db se c env w r = Ok (Entered env a (map (\<lambda>i. of_nat i + 1) [0..<unat (rl_Shards (cf_ReplicationLog c))]) sl sn) \<and>
      db_ready (st_denv se) (ad_sd a) {} \<and> sd_ext (ad_sd a) = \<lparr>cx_canceled = False, cx_pulses = 0, ps_rep = r, ps_cache = Map.empty\<rparr> \<and>
      sd_publishLock (ad_sd a) = sd_publishLock w \<and>
      sd_schema (ad_sd a) = watch_all cat (app_tables cat) [] \<and> cdc_wf MarmotPrefix (sd_schema (ad_sd a)) (sd_db (ad_sd a)) \<and>
      (\<forall>t\<in>set (app_tables cat). \<exists>k\<in>set (watched (ad_sd a) t). ci_IsPrimaryKey k) \<and>
      pending MarmotPrefix (sd_schema (ad_sd a)) (sd_db (ad_sd a)) = pending MarmotPrefix (watch_all cat (app_tables cat) []) d \<and>
      (\<forall>t. \<not> has_prefix t MarmotPrefix \<longrightarrow> sd_db (ad_sd a) t = d t) \<and>
      (tp_Channel sl \<longleftrightarrow> cf_SleepTimeout c \<noteq> 0) \<and> (tp_Channel sn \<longleftrightarrow> sn_Interval (cf_Snapshot c) \<noteq> 0)"
proof -
  let ?x = "\<lparr>cx_canceled = False, cx_pulses = 0, ps_rep = r, ps_cache = Map.empty\<rparr>"
  let ?w = "(re_ext w ?x)\<lparr>sd_db := d, sd_tick := sd_tick w + 3\<rparr>"
  have wa: "\<forall>t\<in>set (app_tables cat). watchable MarmotPrefix cat t"
    using app_tables_watchable db(3) by (simp add: app_tables_def)
  have rdy: "db_ready (st_denv se) ?w {}" using w(1) by (simp add: db_ready_def)
  from InstallCDC_start [OF h rdy _ _ _ _ wa] w(2-4) db(2,4) obtain a where
    a: "InstallCDC (st_denv se) (Ok ()) (app_tables cat) \<lparr>ad_sd = ?w, ad_cat = cat\<rparr> = (Ok (), a)" "db_ready (st_denv se) (ad_sd a) {}"
      "same_adm {} \<lparr>ad_sd = ?w, ad_cat = cat\<rparr> a" "sd_schema (ad_sd a) = watch_all cat (app_tables cat) []"
      "\<forall>t\<in>set (app_tables cat). \<exists>k\<in>set (watched (ad_sd a) t). ci_IsPrimaryKey k"
      "cdc_wf MarmotPrefix (sd_schema (ad_sd a)) (sd_db (ad_sd a))"
      "pending MarmotPrefix (sd_schema (ad_sd a)) (sd_db (ad_sd a)) = pending MarmotPrefix (watch_all cat (app_tables cat) []) d"
      "\<forall>t. \<not> has_prefix t MarmotPrefix \<longrightarrow> sd_db (ad_sd a) t = d t"
    by auto
  have run: "watch_db se c env w r = bindE (start_timers se c) (\<lambda>(sl, sn).
      Ok (Entered env a (map (\<lambda>i. of_nat i + 1) [0..<unat (rl_Shards (cf_ReplicationLog c))]) sl sn))"
    using a(1) by (simp add: watch_db_def or_return_def db(1) settle_def GetAllDBTables_healthy [OF h] ok(1))
  have "sd_ext (ad_sd a) = ?x" "sd_publishLock (ad_sd a) = sd_publishLock w" using a(3) by (simp_all add: same_adm_def)
  with start_timers_run [OF ok(2), of c] a(2,4-8) show ?thesis unfolding run by (auto simp: res_simps)
qed

section \<open>Becoming a node\<close>

lemma listener_shards:
  "set (map (\<lambda>i. of_nat i + 1) [0..<unat (k :: u64)]) = {1..k}" "distinct (map (\<lambda>i. of_nat i + 1 :: u64) [0..<unat k])"
proof -
  show "set (map (\<lambda>i. of_nat i + 1) [0..<unat k]) = {1..k}" using shard_numbers [of k] by (simp add: add.commute)
  have "unat k < 2 ^ 64" using unsigned_less [of k, where 'a = nat] by simp
  then have "unat (of_nat i :: u64) = i" if "i < unat k" for i using that by (simp add: unat_of_nat take_bit_nat_eq_self)
  then have "i = j" if "i < unat k" "j < unat k" "(of_nat i :: u64) = of_nat j" for i j using that by metis
  then show "distinct (map (\<lambda>i. of_nat i + 1 :: u64) [0..<unat k])" by (auto simp: distinct_map inj_on_def)
qed

text \<open>
  C7: the start of a node, from the configuration to the loop. When nothing fails, \<open>main\<close> (without
  the flags for cleaning up or saving a snapshot) opens the database, builds the replicator, restores
  a snapshot if it has to, and enters its loop with: change capture installed on exactly the tables of
  the database that are there after the restore and are neither SQLite's nor marmot's, each with a
  key; the rows of these tables as the restore left them; the queue in order, with what an earlier run
  left waiting; the connection pool whole and the publish lock free; one listener per shard, on
  exactly the streams of the replicator; timers that fire exactly when they are configured. With a
  cleanup interval of zero it panics instead, after all this.
\<close>

theorem main_becomes_node:
  assumes load: "Load (st_decode se) (st_cwd se) (fl_config fl) cfg = (Ok (), (c, root))" "\<not> fl_cleanup fl" "\<not> fl_save_snapshot fl"
    and h: "healthy (st_denv se)" "performCheckpoint (st_checkpoints se) = Ok ()" "st_watcher se = Ok ()" "st_subscribed se = Ok ()"
    and nats: "ne_cfg (st_nats se c) = c" "seq_codec (ne_file (st_nats se c))"
    and new: "node_db se c n = Ok x" "NewSnapshotStorage (st_store se) c = Ok st" "NewReplicator (node_env se c st) True (st_seqfile se n) n = (Ok r, n1)"
    and restored: "restore_first (node_env se c st) r = (Ok (), r1)" "node_db se c (r_nats r1) = Ok (d, cat)"
    and db: "cat_ok d cat" "\<forall>t\<in>set (cat_tables cat). trim_space t = t" "cdc_before MarmotPrefix (watch_all cat (app_tables cat) []) d"
  shows "if cf_CleanupInterval c = 0 then \<exists>p. main_start se fl cfg n = Panic p
    else \<exists>a shards sl sn. main_start se fl cfg n = Ok (Entered (node_env se c st) a shards sl sn) \<and>
      db_ready (st_denv se) (ad_sd a) {} \<and> \<not> sd_publishLock (ad_sd a) \<and> \<not> cx_canceled (sd_ext (ad_sd a)) \<and>
      sd_schema (ad_sd a) = watch_all cat (app_tables cat) [] \<and>
      (\<forall>t\<in>set (app_tables cat). \<exists>k\<in>set (watched (ad_sd a) t). ci_IsPrimaryKey k) \<and>
      (\<forall>t. \<not> has_prefix t MarmotPrefix \<longrightarrow> sd_db (ad_sd a) t = d t) \<and>
      cdc_wf MarmotPrefix (sd_schema (ad_sd a)) (sd_db (ad_sd a)) \<and>
      pending MarmotPrefix (sd_schema (ad_sd a)) (sd_db (ad_sd a)) = pending MarmotPrefix (watch_all cat (app_tables cat) []) d \<and>
      rep_wf (ps_rep (sd_ext (ad_sd a))) \<and> distinct shards \<and> set shards = set (r_streams (ps_rep (sd_ext (ad_sd a)))) \<and>
      (tp_Channel sl \<longleftrightarrow> cf_SleepTimeout c \<noteq> 0) \<and> (tp_Channel sn \<longleftrightarrow> sn_Interval (cf_Snapshot c) \<noteq> 0)"
proof -
  let ?env = "node_env se c st"
  have dr: "driver_returns (e_driver (st_denv se))" using h(1) by (simp add: healthy_def driver_healthy_returns)
  from OpenStreamDB_run [OF h(1) dr h(2), where self = 0 and path = "cf_DBPath c" and d = "fst x" and tick = 0 and x = "()"] obtain q where q: "pool_inv q {}" "p_cap q = PoolSize"
    "OpenStreamDB (st_denv se) 0 (cf_DBPath c) (st_checkpoints se) (fst x) 0 () =
       Ok \<lparr>sd_prefix = MarmotPrefix, sd_schema = [], sd_publishLock = False, sd_pool = q, sd_db = fst x,
           sd_tick = 0, sd_published = 0, sd_pendingPublish = 0, sd_ext = ()\<rparr>" by blast
  let ?w = "\<lparr>sd_prefix = MarmotPrefix, sd_schema = [], sd_publishLock = False, sd_pool = q, sd_db = fst x,
     sd_tick = 0, sd_published = 0, sd_pendingPublish = 0, sd_ext = ()\<rparr>"
  have w: "db_ready (st_denv se) ?w {}" "p_cap (sd_pool ?w) = PoolSize" "sd_prefix ?w = MarmotPrefix" "sd_schema ?w = []"
    using q(1,2) dr by (simp_all add: db_ready_def PoolSize_def)
  have run: "main_start se fl cfg n = watch_db se c ?env ?w r1"
  proof -
    have "open_db se c n = Ok (?w, snd x)" using q(3) new(1) by (cases x) (simp add: open_db_def bindE_def)
    moreover have "run_node se fl c ?w n = watch_db se c ?env ?w r1"
      unfolding run_node_def new(2) or_panic_def Let_def bindE_def res.case new(3) settle_def prod.case restored(1) if_not_P [OF load(3)] ..
    ultimately show ?thesis
      unfolding main_start_def load(1) or_panic_def or_return_def settle_def bindE_def prod.case res.case if_not_P [OF load(2)] by simp
  qed
  have wf: "rep_wf r" "r_shards r = rl_Shards (cf_ReplicationLog c)"
    using NewReplicator_wf [OF _ new(3)] nats by (simp_all add: node_env_def)
  obtain m where m: "r1 = r\<lparr>r_nats := m\<rparr>" using restore_first_same [OF restored(1)] by blast
  have r1: "rep_wf r1" "set (r_streams r1) = {1..rl_Shards (cf_ReplicationLog c)}"
    using wf unfolding m rep_wf_def by simp_all
  have r1': "set (map (\<lambda>i. of_nat i + 1) [0..<unat (rl_Shards (cf_ReplicationLog c))]) = set (r_streams r1)"
    using r1(2) listener_shards(1) by simp
  show ?thesis
  proof (cases "cf_CleanupInterval c = 0")
    case True
    with watch_db_run [OF h(1,3,4) w restored(2) db, of ?env] show ?thesis unfolding run by simp
  next
    case False
    with watch_db_run [OF h(1,3,4) w restored(2) db, of ?env] obtain a sl sn where
      "watch_db se c ?env ?w r1 = Ok (Entered ?env a (map (\<lambda>i. of_nat i + 1) [0..<unat (rl_Shards (cf_ReplicationLog c))]) sl sn)"
      "db_ready (st_denv se) (ad_sd a) {}" and ext: "sd_ext (ad_sd a) = \<lparr>cx_canceled = False, cx_pulses = 0, ps_rep = r1, ps_cache = Map.empty\<rparr>"
      and "\<not> sd_publishLock (ad_sd a)" "sd_schema (ad_sd a) = watch_all cat (app_tables cat) []" "cdc_wf MarmotPrefix (sd_schema (ad_sd a)) (sd_db (ad_sd a))"
      "\<forall>t\<in>set (app_tables cat). \<exists>k\<in>set (watched (ad_sd a) t). ci_IsPrimaryKey k"
      "pending MarmotPrefix (sd_schema (ad_sd a)) (sd_db (ad_sd a)) = pending MarmotPrefix (watch_all cat (app_tables cat) []) d"
      "\<forall>t. \<not> has_prefix t MarmotPrefix \<longrightarrow> sd_db (ad_sd a) t = d t"
      "tp_Channel sl \<longleftrightarrow> cf_SleepTimeout c \<noteq> 0" "tp_Channel sn \<longleftrightarrow> sn_Interval (cf_Snapshot c) \<noteq> 0" by auto
    then show ?thesis unfolding run if_not_P [OF False]
      by (intro exI conjI) (assumption | simp only: ext pub_state.select_convs node_ctx.select_convs r1(1) r1' listener_shards(2) not_False_eq_True)+
  qed
qed

text \<open>A node with the default configuration on the database of the earlier examples; its stream is empty.\<close>

definition wit_start_cfg :: Configuration where
  "wit_start_cfg = (default_config ''/tmp'')\<lparr>cf_DBPath := ''db''\<rparr>"

definition wit_start :: "mem_nats start_env" where
  "wit_start = \<lparr>st_decode = (\<lambda>_ c. (TomlNotExist, c)), st_cwd = Ok ''/'', st_denv = wit_repl_env, st_conn = 7, st_checkpoints = [Ok (0, 0, 0)],
     st_io = wit_io, st_fmt = wit_fmt, st_attempts = 1, st_now = 5,
     st_store = \<lparr>se_connect = Ok (), se_parse = (\<lambda>_. Err (External 1)), se_webdav = (\<lambda>_ _ _. Ok ()), se_dial = (\<lambda>_ _ _. Ok ()),
       se_sftp = Ok (), se_minio = (\<lambda>_ _. Ok ()), se_exists = (\<lambda>_. Ok True), se_mkbucket = (\<lambda>_. Ok ())\<rparr>,
     st_nats = (\<lambda>c. (wit_nats_env 1)\<lparr>ne_cfg := c, ne_info := (\<lambda>_ n. (Ok (makeShardStreamConfig c 1 1 True, 0), n))\<rparr>),
     st_world = (\<lambda>_. wit_world), st_put = (\<lambda>_ n. n), st_seqfile = (\<lambda>_. []), st_clock = 0, st_watcher = Ok (), st_subscribed = Ok ()\<rparr>"

definition wit_flags :: flags where
  "wit_flags = \<lparr>fl_config = '''', fl_cleanup = False, fl_save_snapshot = False\<rparr>"

definition wit_start_rep :: "mem_nats Replicator" where
  "wit_start_rep = \<lparr>r_nodeID = 0, r_shards = 1, r_compressionEnabled = True, r_lastSnapshot = 0,
     r_repState = snd (rep_init wit_file [] rep_zero), r_snapshot = True, r_streams = [1], r_spawned = 0, r_nats = []\<rparr>"

lemma wit_app_tables: "app_tables wit_cat = [''t'']"
  unfolding app_tables_def like_marmot wit_cat_def MarmotPrefix_def by code_simp

lemma wit_start_new:
  "NewReplicator (node_env wit_start wit_start_cfg NatsStorage) True [] [] = (Ok wit_start_rep, [])"
  by (simp add: NewReplicator_def node_env_def wit_start_def wit_nats_env_def wit_start_cfg_def default_config_def ensure_stream_def
      newReplicatorMetaStore_def wit_start_rep_def rep_init_def wit_file_def fl_seek_def rep_zero_def Let_def res_simps)

theorem main_becomes_node_witness:
  "\<exists>a shards sl sn. main_start wit_start wit_flags (wit_start_cfg, '''') [] = Ok (Entered (node_env wit_start wit_start_cfg NatsStorage) a shards sl sn) \<and>
     set shards = set (r_streams (ps_rep (sd_ext (ad_sd a)))) \<and> sd_db (ad_sd a) ''t'' = Some wit_repl_table"
proof -
  let ?env = "node_env wit_start wit_start_cfg NatsStorage"
  have db: "node_db wit_start wit_start_cfg n = Ok (wit_plain_db, wit_cat)" for n
    using wit_world_simps(2) by (simp add: node_db_def wit_start_def wit_start_cfg_def)
  have st: "NewSnapshotStorage (st_store wit_start) wit_start_cfg = Ok NatsStorage"
    by (simp add: NewSnapshotStorage_def SnapshotStorageType_def wit_start_cfg_def default_config_def Nats_def SFTP_def WebDAV_def newNatsStorage_def wit_start_def bindE_def)
  have rf: "restore_first ?env wit_start_rep = (Ok (), wit_start_rep)"
    by (simp add: restore_first_def RestoreSnapshot_def wit_start_rep_def on_nats_def node_env_def wit_start_def Let_def res_simps)
  have nats: "ne_cfg (st_nats wit_start wit_start_cfg) = wit_start_cfg" "seq_codec (ne_file (st_nats wit_start wit_start_cfg))"
    using wit_codec_seq by (simp_all add: wit_start_def)
  have load: "Load (st_decode wit_start) (st_cwd wit_start) (fl_config wit_flags) (wit_start_cfg, '''') = (Ok (), (wit_start_cfg, ''''))"
    by (simp add: Load_def wit_start_def)
  have fl: "\<not> fl_cleanup wit_flags" "\<not> fl_save_snapshot wit_flags" by (simp_all add: wit_flags_def)
  have h: "healthy (st_denv wit_start)" "performCheckpoint (st_checkpoints wit_start) = Ok ()" "st_watcher wit_start = Ok ()" "st_subscribed wit_start = Ok ()"
    using wit_healthy by (simp_all add: wit_start_def)
  have tr: "\<forall>t\<in>set (cat_tables wit_cat). trim_space t = t" unfolding wit_cat_def by code_simp
  have ci: "cf_CleanupInterval wit_start_cfg \<noteq> 0" by (simp add: wit_start_cfg_def default_config_def)
  have new: "NewReplicator ?env True (st_seqfile wit_start []) [] = (Ok wit_start_rep, [])" using wit_start_new by (simp add: wit_start_def)
  from main_becomes_node [OF load fl h nats db st new rf db wit_cat_ok tr] wit_before ci
  show ?thesis unfolding wit_app_tables by (auto simp: wit_plain_db_def MarmotPrefix_def)
qed

end
