(* ===== verification/Writes.thy ===== *)
theory Writes
  imports Marmot
begin

text \<open>
  A write of the application: a statement changes one row of a watched table and the trigger of
  \<open>db/table_change_log_script.tmpl\<close> records the change in the same transaction. What is recorded is
  the change: applied to the rows before the write it gives the rows after it.
\<close>

section \<open>Writes\<close>

text \<open>What SQLite does to the row.\<close>

fun app_row :: "row_change \<Rightarrow> sqltable \<Rightarrow> sqltable" where
  "app_row (RowInsert new) tb = tb\<lparr>t_rows := t_rows tb @ [new]\<rparr>"
| "app_row (RowUpdate old new) tb = tb\<lparr>t_rows := map (\<lambda>r. if r = old then new else r) (t_rows tb)\<rparr>"
| "app_row (RowDelete old) tb = tb\<lparr>t_rows := filter (\<lambda>r. r \<noteq> old) (t_rows tb)\<rparr>"

text \<open>
  A row the table takes: its columns, a key without NULL, integers of 64 bits.
\<close>

definition row_ok :: "ColumnInfo list \<Rightarrow> drow \<Rightarrow> bool" where
  "row_ok info r \<longleftrightarrow>
     map fst r = map ci_Name info \<and> DNull \<notin> set (key_of (pk_names info) r) \<and> list_all (\<lambda>(c, v). db_value (GVal v)) r"

text \<open>The statement succeeds: an insert finds its key free, an update keeps the key of the row it changes.\<close>

fun change_ok :: "ColumnInfo list \<Rightarrow> row_change \<Rightarrow> sqltable \<Rightarrow> bool" where
  "change_ok info (RowInsert new) tb \<longleftrightarrow>
     row_ok info new \<and> key_of (pk_names info) new \<notin> key_of (pk_names info) ` set (t_rows tb)"
| "change_ok info (RowUpdate old new) tb \<longleftrightarrow>
     row_ok info new \<and> old \<in> set (t_rows tb) \<and> key_of (pk_names info) new = key_of (pk_names info) old"
| "change_ok info (RowDelete old) tb \<longleftrightarrow> row_ok info old \<and> old \<in> set (t_rows tb)"

definition write_ok :: "schema \<Rightarrow> string \<times> int \<times> row_change \<Rightarrow> sqldb \<Rightarrow> bool" where
  "write_ok sch x d =
     (case x of (t, now, rc) \<Rightarrow>
        (case (map_of sch t, d t) of (Some info, Some tb) \<Rightarrow> change_ok info rc tb | _ \<Rightarrow> False))"

definition app_write :: "string \<Rightarrow> schema \<Rightarrow> string \<times> int \<times> row_change \<Rightarrow> sqldb \<Rightarrow> sqldb" where
  "app_write p sch x d = (case x of (t, now, rc) \<Rightarrow> capture p sch x (d(t := map_option (app_row rc) (d t))))"

section \<open>The rows\<close>

fun change_effect :: "row_change \<Rightarrow> drow option" where
  "change_effect (RowInsert new) = Some new"
| "change_effect (RowUpdate old new) = Some new"
| "change_effect (RowDelete old) = None"

lemma map_of_replace:
  assumes "distinct (map f xs)" and "a \<in> set xs" and "f b = f a"
  shows "map_of (map (\<lambda>r. (f r, r)) (map (\<lambda>r. if r = a then b else r) xs)) = (map_of (map (\<lambda>r. (f r, r)) xs))(f a \<mapsto> b)"
  using assms
proof (induction xs)
  case (Cons x xs)
  show ?case
  proof (cases "x = a")
    case True
    with Cons.prems have "a \<notin> set xs" by auto
    then have "map (\<lambda>r. if r = a then b else r) xs = xs" by (intro map_idI) auto
    with True Cons.prems show ?thesis by (simp add: fun_eq_iff)
  next
    case False
    with Cons have "f x \<noteq> f a" by (auto simp: rev_image_eqI)
    with False Cons show ?thesis by (auto simp: fun_eq_iff)
  qed
qed simp

lemma map_key_replace:
  "f b = f a \<Longrightarrow> map f (map (\<lambda>r. if r = a then b else r) xs) = map f xs"
  by (induction xs) auto

lemma app_row_view:
  assumes tb: "table_wf (pk_names info) (map ci_Name info) tb" and ok: "change_ok info rc tb"
  shows "view (pk_names info) (app_row rc tb) = (view (pk_names info) tb)(key_of (pk_names info) (read_target rc) := change_effect rc)"
    and "table_wf (pk_names info) (map ci_Name info) (app_row rc tb)"
proof -
  let ?k = "key_of (pk_names info)"
  have d: "distinct (map ?k (t_rows tb))" using tb by (simp add: table_wf_def)
  have "view (pk_names info) (app_row rc tb) = (view (pk_names info) tb)(?k (read_target rc) := change_effect rc) \<and>
    table_wf (pk_names info) (map ci_Name info) (app_row rc tb)"
  proof (cases rc)
    case (RowInsert new)
    then have "new \<notin> set (t_rows tb)" "?k new \<notin> ?k ` set (t_rows tb)" "row_ok info new" using ok by auto
    note new = this
    have "view (pk_names info) tb (?k new) = None" using new(2) by (simp add: view_None_iff)
    then have "view (pk_names info) (app_row rc tb) = (view (pk_names info) tb)(?k new \<mapsto> new)"
      by (auto simp: RowInsert view_def map_add_def fun_eq_iff split: option.splits)
    moreover have "table_wf (pk_names info) (map ci_Name info) (app_row rc tb)"
      using tb new by (simp add: RowInsert table_wf_def row_ok_def)
    ultimately show ?thesis by (simp add: RowInsert)
  next
    case (RowUpdate old new)
    then have o: "old \<in> set (t_rows tb)" "?k new = ?k old" "row_ok info new" using ok by auto
    have "view (pk_names info) (app_row rc tb) = (view (pk_names info) tb)(?k new \<mapsto> new)"
      using map_of_replace [OF d o(1,2)] o(2) by (simp add: RowUpdate view_def)
    moreover have "distinct (map ?k (map (\<lambda>r. if r = old then new else r) (t_rows tb)))"
      unfolding map_key_replace [where f = ?k, OF o(2)] by (rule d)
    then have "table_wf (pk_names info) (map ci_Name info) (app_row rc tb)"
      using tb o(3) by (simp add: RowUpdate table_wf_def row_ok_def) blast
    ultimately show ?thesis by (simp add: RowUpdate)
  next
    case (RowDelete old)
    then have o: "old \<in> set (t_rows tb)" using ok by simp
    with d have "filter (\<lambda>r. r \<noteq> old) (t_rows tb) = filter (\<lambda>r. ?k r \<noteq> ?k old) (t_rows tb)"
      by (intro filter_cong) (auto simp: distinct_map dest: inj_onD)
    note f = this
    have "table_wf (pk_names info) (map ci_Name info) (app_row rc tb)"
      using tb by (auto simp: RowDelete table_wf_def intro: distinct_map_filter)
    with f show ?thesis by (simp add: RowDelete view_def map_of_filter_keyed)
  qed
  then show "view (pk_names info) (app_row rc tb) = (view (pk_names info) tb)(?k (read_target rc) := change_effect rc)"
    and "table_wf (pk_names info) (map ci_Name info) (app_row rc tb)" by simp_all
qed

section \<open>The recorded change\<close>

lemma driver_row_captured: "driver_row (map (\<lambda>c. (ci_Name c, GVal (g c))) info) = map (\<lambda>c. (ci_Name c, g c)) info"
  by (simp add: driver_row_def comp_def)

lemma cell_info: "distinct (map ci_Name info) \<Longrightarrow> c \<in> set info \<Longrightarrow> cell (map (\<lambda>c. (ci_Name c, g c)) info) (ci_Name c) = g c"
  by (induction info) (auto simp: rev_image_eqI)

lemma row_of_cells:
  assumes "distinct (map fst r)" shows "map (\<lambda>c. (c, cell r c)) (map fst r) = r"
proof -
  have "cell r c = v" if "(c, v) \<in> set r" for c v
    using assms that by (induction r) (auto simp: rev_image_eqI)
  then show ?thesis by (auto intro!: map_idI simp: comp_def)
qed

text \<open>The event of a change that succeeds is one the other nodes can apply, and says what the change did.\<close>

lemma captured_event_effect:
  assumes tb: "table_wf (pk_names info) (map ci_Name info) tb" and ok: "change_ok info rc tb" and info: "map_of sch t = Some info"
    and e: "captured_event info t rc e"
  shows "captured sch e" "ev_key sch e = (t, key_of (pk_names info) (read_target rc))" "ev_effect sch e = change_effect rc"
proof -
  let ?r = "read_target rc"
  have r: "row_ok info ?r" using ok by (cases rc) simp_all
  have d: "distinct (map ci_Name info)" "info \<noteq> []" "set (pk_names info) \<subseteq> set (map ci_Name info)"
    using tb unfolding table_wf_def pk_names_def by auto
  have er: "ev_TableName e = t" "ev_Type e = trigger_name rc" "ev_tableInfo e = info"
    "ev_Row e = map (\<lambda>c. (ci_Name c, GVal (cell ?r (ci_Name c)))) info" using e by (simp_all add: captured_event_def)
  have dr: "driver_row (ev_Row e) = map (\<lambda>c. (ci_Name c, cell ?r (ci_Name c))) info"
    unfolding er(4) by (rule driver_row_captured)
  have "cell (driver_row (ev_Row e)) c = cell ?r c" if c: "c \<in> set (map ci_Name info)" for c
    using c cell_info [OF d(1), of _ "\<lambda>c. cell ?r (ci_Name c)"] unfolding dr by auto
  note cells = this
  show key: "ev_key sch e = (t, key_of (pk_names info) ?r)"
    using cells subsetD [OF d(3)] key_of_cong [of "pk_names info" "driver_row (ev_Row e)" ?r]
    by (simp add: ev_key_def er(1) pks_in_def info)
  have "full_row (map ci_Name info) (driver_row (ev_Row e)) = map (\<lambda>c. (c, cell ?r c)) (map fst ?r)"
    using cells r unfolding full_row_def row_ok_def by (intro map_cong) simp_all
  also have "\<dots> = ?r" using r d(1) by (intro row_of_cells) (simp add: row_ok_def)
  finally show "ev_effect sch e = change_effect rc"
    by (cases rc) (simp_all add: ev_effect_def er cols_in_def info)
  have v: "db_value (GVal (cell ?r (ci_Name c)))" if c: "c \<in> set info" for c
  proof -
    have m: "map fst ?r = map ci_Name info" using r by (simp add: row_ok_def)
    then have "ci_Name c \<in> set (map fst ?r)" using c by simp
    then have "(ci_Name c, cell ?r (ci_Name c)) \<in> set (map (\<lambda>c. (c, cell ?r c)) (map fst ?r))" unfolding set_map [of "\<lambda>c. (c, cell ?r c)"] by blast
    then have "(ci_Name c, cell ?r (ci_Name c)) \<in> set ?r" using row_of_cells [of ?r] d(1) by (simp only: m)
    with r show ?thesis unfolding row_ok_def list_all_iff by fastforce
  qed
  have "DNull \<notin> set (snd (ev_key sch e))" using r by (simp add: key row_ok_def)
  moreover have "is_ok (to_driver (GVal (cell ?r (ci_Name c))))" for c by simp
  ultimately show "captured sch e"
    using v d(1,2) unfolding captured_def db_event_def event_ok_def er(1-3)
    by (cases rc) (simp_all add: er(4) info cols_in_def list_all_iff comp_def)
qed

text \<open>The tables of the application are not the change logs.\<close>

definition apart :: "string \<Rightarrow> schema \<Rightarrow> bool" where
  "apart p sch \<longleftrightarrow> fst ` set sch \<inter> log_tables p sch = {}"

lemma apart_cong:
  assumes "apart p sch" and "\<And>t. t \<notin> log_tables p sch \<Longrightarrow> d' t = d t"
  shows "look sch d' = look sch d" "db_wf sch d' = db_wf sch d"
proof -
  have "d' t = d t" if "map_of sch t = Some info" for t info
    using assms that map_of_SomeD [OF that] by (force simp: apart_def)
  then show "look sch d' = look sch d" "db_wf sch d' = db_wf sch d"
    by (auto simp: look_def db_wf_def fun_eq_iff split: option.splits)
qed

lemma cdc_cong:
  assumes wf: "cdc_wf p sch d" and same: "\<And>t. t \<in> log_tables p sch \<Longrightarrow> d' t = d t"
  shows "cdc_wf p sch d'" "pending p sch d' = pending p sch d"
proof -
  have g: "d' (globalMetaTable p) = d (globalMetaTable p)" by (rule same) (simp add: log_tables_def)
  then have q: "queue p d' = queue p d" by (simp add: queue_def rows_of_def)
  have l: "d' (metaTable p t changeLogName) = d (metaTable p t changeLogName)" if "map_of sch t = Some info" for t info
    by (rule same) (use map_of_SomeD [OF that] in \<open>force simp: log_tables_def\<close>)
  have r: "rows_of d' (metaTable p (g_TableName g) changeLogName) = rows_of d (metaTable p (g_TableName g) changeLogName)"
    if "g \<in> set (queue p d)" for g
    using queued_row [OF wf that] l by (metis rows_of_def)
  have "queued_ok p sch d' g" if "g \<in> set (queue p d)" for g
    using wf that r [OF that] by (simp add: cdc_wf_def queued_ok_def)
  with wf g q l show "cdc_wf p sch d'" unfolding cdc_wf_def by (metis (no_types, lifting))
  show "pending p sch d' = pending p sch d"
    using r by (auto simp: pending_def q change_event_def log_row_def)
qed

lemma capture_tables:
  assumes wf: "cdc_wf p sch d" and info: "map_of sch t = Some info" and u: "u \<notin> log_tables p sch"
  shows "capture p sch (t, now, rc) d u = d u"
proof (rule capture_sem [OF wf info, of app_handle now rc])
  show "''marmot_version'' \<notin> set (h_funcs app_handle)" by (simp add: app_handle_def)
  fix lt gt assume "change_trigger p app_handle t info now rc d = Some (d(metaTable p t changeLogName \<mapsto> insert_auto (log_given info now rc) lt,
       globalMetaTable p \<mapsto> insert_auto [(''change_table_id'', DInt (t_seq lt + 1)), (''table_name'', DText t)] gt))"
  moreover have "metaTable p t changeLogName \<in> log_tables p sch" using map_of_SomeD [OF info] by (force simp: log_tables_def)
  ultimately show ?thesis using u info by (auto simp: capture_def info_of_def log_tables_def)
qed

text \<open>A write changes the rows as its recorded change says, and queues that change last.\<close>

lemma app_write_recorded:
  assumes wf: "cdc_wf p sch d" "db_wf sch d" "apart p sch" and ok: "write_ok sch x d"
  obtains e where "captured sch e" "pending p sch (app_write p sch x d) = pending p sch d @ [e]"
    "look sch (app_write p sch x d) = (look sch d)(ev_key sch e := ev_effect sch e)"
    "cdc_wf p sch (app_write p sch x d)" "db_wf sch (app_write p sch x d)"
proof -
  obtain t now rc where x: "x = (t, now, rc)" by (cases x)
  from ok obtain info tb where i: "map_of sch t = Some info" "d t = Some tb" "change_ok info rc tb"
    by (auto simp: write_ok_def x split: option.splits)
  have tb: "table_wf (pk_names info) (map ci_Name info) tb" using table_in_wf [OF wf(2) i(1)] i(2) by (metis option.inject)
  let ?d = "d(t \<mapsto> app_row rc tb)"
  have t: "t \<notin> log_tables p sch" using wf(3) map_of_SomeD [OF i(1)] by (force simp: apart_def)
  have c: "cdc_wf p sch ?d" "pending p sch ?d = pending p sch d" by (rule cdc_cong [OF wf(1)]; use t in auto)+
  have aw: "app_write p sch x d = capture p sch x ?d" by (simp add: app_write_def x i(2))
  have en: "case x of (t, now, rc) \<Rightarrow> map_of sch t \<noteq> None" using i by (simp add: x)
  obtain e where e: "captured_event info t rc e" "pending p sch (capture p sch x ?d) = pending p sch d @ [e]"
    using cdcq.enq_pend [OF c(1) en] c(2) i(1) by (auto simp: x info_of_def)
  note ev = captured_event_effect [OF tb i(3,1) e(1)]
  note same = apart_cong [OF wf(3), of "capture p sch x ?d" ?d, OF capture_tables [OF c(1) i(1), of _ now rc, folded x]]
  have "look sch ?d = (look sch d)(ev_key sch e := ev_effect sch e)"
  proof
    fix tk
    show "look sch ?d tk = ((look sch d)(ev_key sch e := ev_effect sch e)) tk"
      unfolding ev(2,3) using app_row_view(1) [OF tb i(3)] i(1,2) by (cases tk) (auto simp: look_def split: option.splits)
  qed
  moreover have "db_wf sch ?d" using wf(2) app_row_view(2) [OF tb i(3)] i(1) by (auto simp: db_wf_def)
  ultimately show ?thesis
    using that [OF ev(1)] e(2) same cdcq.enq_invar [OF c(1) en] by (simp add: aw)
qed

section \<open>Concrete data\<close>

lemma wit_apart: "apart MarmotPrefix wit_log_schema"
  by (simp add: apart_def log_tables_def wit_log_schema_def MarmotPrefix_def globalMetaTable_def metaTable_def)

lemma wit_names [simp]: "''t'' \<noteq> globalMetaTable MarmotPrefix" "''t'' \<noteq> metaTable MarmotPrefix ''t'' changeLogName"
  "globalMetaTable MarmotPrefix \<noteq> ''t''" "metaTable MarmotPrefix ''t'' changeLogName \<noteq> ''t''"
  by (simp_all add: MarmotPrefix_def globalMetaTable_def metaTable_def)

lemma wit_log_db_wf: "db_wf wit_log_schema wit_db0"
  using wit_wf by (auto simp: db_wf_def wit_log_schema_def wit_db0_def wit_repl_world_def split: if_splits)

lemma wit_write_ok: "write_ok wit_log_schema wit_ins wit_db0"
  by (simp add: write_ok_def wit_ins_def wit_info wit_db0_def row_ok_def pk_names_def wit_repl_cols_def wit_repl_table_def key_of_def int64_range_def)

section \<open>Properties\<close>



end
