(* ===== verification/Sending.thy ===== *)
theory Sending
  imports CatchUp
begin

text \<open>
  A round of publishing on a working node: \<open>publishChangeLog\<close> with the callback \<open>onTableChanged\<close>, down to
  the streams. Every waiting change is marshalled, hashed, compressed when so configured, and appended
  to the stream of its shard; the changes of a shard arrive there in the order they waited.
\<close>

section \<open>One change\<close>

text \<open>JetStream works: a published message is acknowledged and appended to its subject's stream.\<close>

definition jet_logs :: "'n nats_env \<Rightarrow> ('n \<Rightarrow> string \<Rightarrow> bytes list) \<Rightarrow> bool" where
  "jet_logs env log \<longleftrightarrow>
     (\<forall>subj data n. \<exists>pa n'. ne_publish env subj data n = (Ok pa, n') \<and> log n' = (log n)(subj := log n subj @ [data]))"

text \<open>A change the libraries can encode: its key for the hash, itself for the stream, and its bytes for zstd.\<close>

definition sendable :: "'n nats_env \<Rightarrow> ev_codec \<Rightarrow> u64 \<Rightarrow> ChangeLogEvent \<Rightarrow> bool" where
  "sendable env ec n e \<longleftrightarrow>
     is_ok (fst (Hash (ec_hash ec) e Map.empty)) \<and>
     (\<exists>p. Marshal Wrap (ec_encMode ec) (ec_enc ec) \<lparr>FromNodeId = n, Payload = e\<rparr> = Ok p \<and> is_ok (ne_zenc env p))"

text \<open>The bytes that are sent.\<close>

definition wire_bytes :: "'n nats_env \<Rightarrow> ev_codec \<Rightarrow> u64 \<Rightarrow> bool \<Rightarrow> ChangeLogEvent \<Rightarrow> bytes res" where
  "wire_bytes env ec n compressed e =
     bindE (Marshal Wrap (ec_encMode ec) (ec_enc ec) \<lparr>FromNodeId = n, Payload = e\<rparr>) (\<lambda>p.
       if compressed then payloadCompress env p else Ok p)"

text \<open>A publisher in order.\<close>

definition pub_ok :: "'n nats_env \<Rightarrow> schema \<Rightarrow> u64 \<Rightarrow> bool \<Rightarrow> 'n pub_state \<Rightarrow> bool" where
  "pub_ok env sch shards compressed s \<longleftrightarrow>
     cf_Publish (ne_cfg env) \<and> \<not> cx_canceled s \<and> rep_wf (ps_rep s) \<and> r_shards (ps_rep s) = shards \<and> shards \<noteq> 0 \<and>
     r_compressionEnabled (ps_rep s) = compressed \<and> cache_ok (map_of sch) (ps_cache s)"

lemma after_publish_healthy:
  assumes cod: "seq_codec (ne_file env)" "file_healthy (ne_file env)" and wf: "rep_wf r"
  obtains r' where "after_publish env shard pa r = (Ok (), r')" "rep_wf r'" "r_shards r' = r_shards r"
    "r_compressionEnabled r' = r_compressionEnabled r" "r_nats r' = r_nats r"
proof (cases "sn_Enable (cf_Snapshot (ne_cfg env))")
  case False
  with that wf show ?thesis by (simp add: after_publish_def)
next
  case True
  have "rep_open (r_repState r)" using wf by (simp add: rep_wf_def)
  from rep_save_healthy [OF cod this, of "fst pa" "snd pa"] obtain q t where
    t: "rep_save (ne_file env) (fst pa) (snd pa) (r_repState r) = (Ok q, t)" "rep_open t" by blast
  let ?r = "r\<lparr>r_repState := t\<rparr>"
  obtain k where "after_publish env shard pa r = (Ok (), ?r\<lparr>r_spawned := k\<rparr>)"
  proof
    show "after_publish env shard pa r = (Ok (), ?r\<lparr>r_spawned :=
        (if (word_of_int (rl_MaxEntries (cf_ReplicationLog (ne_cfg env))) :: u64) div r_shards r \<noteq> 0 \<and>
            q mod (word_of_int (rl_MaxEntries (cf_ReplicationLog (ne_cfg env))) div r_shards r) = 0 \<and> shard = SnapshotShardID
         then Suc (r_spawned r) else r_spawned r)\<rparr>)"
      using t(1) True by (simp add: after_publish_def bindR_def on_state_def Let_def)
  qed
  then show ?thesis by (rule that) (use wf t(2) in \<open>simp_all add: rep_wf_def\<close>)
qed

lemma Publish_healthy:
  assumes cod: "seq_codec (ne_file env)" "file_healthy (ne_file env)" and jet: "jet_logs env log"
    and wf: "rep_wf r" "r_shards r \<noteq> 0" and data: "(if r_compressionEnabled r then payloadCompress env p else Ok p) = Ok data"
  obtains r' where "Publish env h p r = (Ok (), r')" "rep_wf r'" "r_shards r' = r_shards r"
    "r_compressionEnabled r' = r_compressionEnabled r"
    "log (r_nats r') = (log (r_nats r))(subjectName (ne_cfg env) (shard_of h (r_shards r)) :=
       log (r_nats r) (subjectName (ne_cfg env) (shard_of h (r_shards r))) @ [data])"
proof -
  let ?i = "shard_of h (r_shards r)"
  obtain pa n where n: "ne_publish env (subjectName (ne_cfg env) ?i) data (r_nats r) = (Ok pa, n)"
    "log n = (log (r_nats r))(subjectName (ne_cfg env) ?i := log (r_nats r) (subjectName (ne_cfg env) ?i) @ [data])"
    using jet unfolding jet_logs_def by blast
  have i: "?i \<in> set (r_streams r)" using wf shard_of_range [OF wf(2)] by (simp add: rep_wf_def)
  have wf1: "rep_wf (r\<lparr>r_nats := n\<rparr>)" using wf(1) by (simp add: rep_wf_def)
  obtain r' where r': "after_publish env ?i pa (r\<lparr>r_nats := n\<rparr>) = (Ok (), r')" "rep_wf r'" "r_shards r' = r_shards r"
    "r_compressionEnabled r' = r_compressionEnabled r" "r_nats r' = n"
    by (rule after_publish_healthy [OF cod wf1, of ?i pa]) simp
  have "Publish env h p r = (Ok (), r')"
    unfolding Publish_def Let_def data using wf(2) i r'(1) n(1) by (simp add: bindR_def lift_res_def on_nats_def)
  with r' n(2) show ?thesis using that by simp
qed

lemma Hash_cache:
  assumes "cache_ok (map_of sch) cache" and "captured sch e"
  shows "fst (Hash cw e cache) = fst (Hash cw e Map.empty)" "cache_ok (map_of sch) (snd (Hash cw e cache))"
proof -
  have e: "map_of sch (ev_TableName e) = Some (ev_tableInfo e)" using assms(2) by (simp add: captured_def)
  obtain cols c' where g: "getSortedPKColumns e cache = (cols, c')" by (cases "getSortedPKColumns e cache")
  note k = getSortedPKColumns_cache_ok [OF assms(1) e g]
  have "getSortedPKColumns e Map.empty = (cols, [ev_TableName e \<mapsto> cols])" by (simp add: getSortedPKColumns_def Let_def k(1))
  then show "fst (Hash cw e cache) = fst (Hash cw e Map.empty)" "cache_ok (map_of sch) (snd (Hash cw e cache))"
    using k(2) assms(1) g by (simp_all add: Hash_def split: res.splits)
qed

text \<open>The callback sends the change and keeps the publisher in order.\<close>

lemma onTableChanged_sent:
  assumes cod: "seq_codec (ne_file env)" "file_healthy (ne_file env)" and jet: "jet_logs env log"
    and s: "pub_ok env sch shards z s" and e: "captured sch e" "sendable env ec n e"
  obtains s' i data where "onTableChanged env ec n e s = (Ok (), s')" "pub_ok env sch shards z s'"
    "event_shard ec shards e = Ok i" "wire_bytes env ec n z e = Ok data"
    "log (r_nats (ps_rep s')) = (log (r_nats (ps_rep s)))(subjectName (ne_cfg env) i :=
       log (r_nats (ps_rep s)) (subjectName (ne_cfg env) i) @ [data])"
proof -
  from e(2) obtain p h where p: "Marshal Wrap (ec_encMode ec) (ec_enc ec) \<lparr>FromNodeId = n, Payload = e\<rparr> = Ok p"
    "is_ok (ne_zenc env p)" and h: "fst (Hash (ec_hash ec) e Map.empty) = Ok h"
    unfolding sendable_def is_ok_iff by blast
  then obtain data where d: "(if z then payloadCompress env p else Ok p) = Ok data"
    by (cases z) (auto simp: payloadCompress_def is_ok_iff)
  from s have r: "rep_wf (ps_rep s)" "r_shards (ps_rep s) = shards" "shards \<noteq> 0" "r_compressionEnabled (ps_rep s) = z"
    and c: "cache_ok (map_of sch) (ps_cache s)" and f: "cf_Publish (ne_cfg env)" "\<not> cx_canceled s" by (simp_all add: pub_ok_def)
  obtain cache where H: "Hash (ec_hash ec) e (ps_cache s) = (Ok h, cache)" "cache_ok (map_of sch) cache"
    using Hash_cache [OF c e(1), of "ec_hash ec"] h by (cases "Hash (ec_hash ec) e (ps_cache s)") auto
  let ?i = "shard_of h shards"
  obtain r' where r': "Publish env h p (ps_rep s) = (Ok (), r')" "rep_wf r'" "r_shards r' = shards" "r_compressionEnabled r' = z"
    "log (r_nats r') = (log (r_nats (ps_rep s)))(subjectName (ne_cfg env) ?i := log (r_nats (ps_rep s)) (subjectName (ne_cfg env) ?i) @ [data])"
    by (rule Publish_healthy [OF cod jet r(1), of p data h]) (use r d in auto)
  let ?s = "(pulse s)\<lparr>ps_cache := cache, ps_rep := r'\<rparr>"
  have ps: "ps_cache (pulse s) = ps_cache s" "ps_rep (pulse s) = ps_rep s" by (simp_all add: pulse_def)
  have run: "onTableChanged env ec n e s = (Ok (), ?s)"
    using f p(1) H(1) r'(1) by (simp add: onTableChanged_def Let_def bindR_def lift_res_def event_Hash_def on_replicator_def ret_def ps)
  have ok: "pub_ok env sch shards z ?s"
    using s r' H(2) by (simp add: pub_ok_def pulse_def)
  have w: "wire_bytes env ec n z e = Ok data" "event_shard ec shards e = Ok ?i"
    using p(1) d h by (simp_all add: wire_bytes_def event_shard_def res_simps)
  show ?thesis by (rule that [OF run ok w(2,1)]) (use r'(5) in simp)
qed

section \<open>A round\<close>

text \<open>What the events of one shard look like on the wire, in their order.\<close>

definition on_wire :: "'n nats_env \<Rightarrow> ev_codec \<Rightarrow> u64 \<Rightarrow> bool \<Rightarrow> ChangeLogEvent list \<Rightarrow> bytes list \<Rightarrow> bool" where
  "on_wire env ec n z es ds \<longleftrightarrow> list_all2 (\<lambda>e data. wire_bytes env ec n z e = Ok data) es ds"

lemma subjectName_inject [simp]: "subjectName c i = subjectName c j \<longleftrightarrow> i = j"
  by (simp add: subjectName_def)

lemma shard_part_Cons: "shard_part ec m i (e # es) = (if event_shard ec m e = i then [e] else []) @ shard_part ec m i es"
  by (simp add: shard_part_def log_part_def)

lemma deliver_sent:
  assumes cod: "seq_codec (ne_file env)" "file_healthy (ne_file env)" and jet: "jet_logs env log"
  shows "pub_ok env sch shards z s \<Longrightarrow> list_all (captured sch) es \<Longrightarrow> list_all (sendable env ec n) es \<Longrightarrow>
    deliver_returns (onTableChanged env ec n) es s \<and>
    (\<exists>s'. deliver (onTableChanged env ec n) es s = (length es, s') \<and> pub_ok env sch shards z s' \<and>
      (\<forall>i. \<exists>ds. on_wire env ec n z (shard_part ec shards (Ok i) es) ds \<and>
         log (r_nats (ps_rep s')) (subjectName (ne_cfg env) i) = log (r_nats (ps_rep s)) (subjectName (ne_cfg env) i) @ ds))"
proof (induction es arbitrary: s)
  case Nil
  then show ?case by (auto simp: shard_part_def log_part_def on_wire_def)
next
  case (Cons e es)
  from Cons.prems have e: "captured sch e" "sendable env ec n e" by auto
  obtain s1 i data where s1: "onTableChanged env ec n e s = (Ok (), s1)" "pub_ok env sch shards z s1"
    and w: "event_shard ec shards e = Ok i" "wire_bytes env ec n z e = Ok data"
    and l: "log (r_nats (ps_rep s1)) = (log (r_nats (ps_rep s)))(subjectName (ne_cfg env) i :=
       log (r_nats (ps_rep s)) (subjectName (ne_cfg env) i) @ [data])"
    by (rule onTableChanged_sent [OF cod jet Cons.prems(1) e])
  from Cons.IH [OF s1(2)] Cons.prems obtain s' where s': "deliver_returns (onTableChanged env ec n) es s1"
    "deliver (onTableChanged env ec n) es s1 = (length es, s')" "pub_ok env sch shards z s'"
    and ds: "\<And>j. \<exists>ds. on_wire env ec n z (shard_part ec shards (Ok j) es) ds \<and>
         log (r_nats (ps_rep s')) (subjectName (ne_cfg env) j) = log (r_nats (ps_rep s1)) (subjectName (ne_cfg env) j) @ ds"
    by auto
  have "\<exists>ds. on_wire env ec n z (shard_part ec shards (Ok j) (e # es)) ds \<and>
      log (r_nats (ps_rep s')) (subjectName (ne_cfg env) j) = log (r_nats (ps_rep s)) (subjectName (ne_cfg env) j) @ ds" for j
  proof -
    from ds [of j] obtain ds where "on_wire env ec n z (shard_part ec shards (Ok j) es) ds"
      "log (r_nats (ps_rep s')) (subjectName (ne_cfg env) j) = log (r_nats (ps_rep s1)) (subjectName (ne_cfg env) j) @ ds" by blast
    with w l show ?thesis
      by (intro exI [of _ "(if j = i then [data] else []) @ ds"]) (auto simp: shard_part_Cons on_wire_def)
  qed
  with s1 s' show ?case by (simp add: retry_def)
qed

text \<open>
  A round takes the oldest changes off the queue and appends each to the stream of its shard. The
  application's tables are as they were.
\<close>

lemma publish_round_sent:
  assumes cod: "seq_codec (ne_file env)" "file_healthy (ne_file env)" and jet: "jet_logs env log"
    and h: "healthy denv" and rdy: "db_ready denv w B" and wf: "cdc_wf (sd_prefix w) (sd_schema w) (sd_db w)" and lock: "\<not> sd_publishLock w"
    and s: "pub_ok env (sd_schema w) shards z (sd_ext w)"
    and pend: "pending (sd_prefix w) (sd_schema w) (sd_db w) = es @ rest" "es = limit_rows (unat limit) (es @ rest)"
    and es: "list_all (captured (sd_schema w)) es" "list_all (sendable env ec n) es"
  obtains w' where "publishChangeLog denv limit (Some (onTableChanged env ec n)) w = (Ok (), w')"
    "pub_frame denv B w w'" "\<not> sd_publishLock w'" "pub_ok env (sd_schema w) shards z (sd_ext w')"
    "pending (sd_prefix w) (sd_schema w) (sd_db w') = rest"
    "\<And>i. \<exists>ds. on_wire env ec n z (shard_part ec shards (Ok i) es) ds \<and>
       log (r_nats (ps_rep (sd_ext w'))) (subjectName (ne_cfg env) i) = log (r_nats (ps_rep (sd_ext w))) (subjectName (ne_cfg env) i) @ ds"
proof -
  let ?w = "w\<lparr>sd_publishLock := True\<rparr>" and ?f = "onTableChanged env ec n"
  from deliver_sent [OF cod jet s es] obtain s' where d: "deliver_returns ?f es (sd_ext w)" "deliver ?f es (sd_ext w) = (length es, s')"
    "pub_ok env (sd_schema w) shards z s'" and l: "\<And>i. \<exists>ds. on_wire env ec n z (shard_part ec shards (Ok i) es) ds \<and>
         log (r_nats (ps_rep s')) (subjectName (ne_cfg env) i) = log (r_nats (ps_rep (sd_ext w))) (subjectName (ne_cfg env) i) @ ds"
    by blast
  have lim: "limit_rows (unat limit) (pending (sd_prefix w) (sd_schema w) (sd_db w)) = es" using pend by simp
  from publish_locked_healthy [OF h, of ?w B ?f limit "length es" s'] rdy wf d(1,2) lim
  obtain w' where w': "publish_locked denv limit (Some ?f) ?w = (Ok (), w')" "pub_frame denv B ?w w'" "sd_ext w' = s'"
    "pending (sd_prefix w) (sd_schema w) (sd_db w') = drop (length es) (es @ rest)" by (auto simp: pend(1))
  have "publishChangeLog denv limit (Some ?f) w = (Ok (), w'\<lparr>sd_publishLock := False\<rparr>)"
    using lock w'(1) by (simp add: publishChangeLog_def)
  then show ?thesis
    by (rule that) (use w' pub_frame_unlock [OF w'(2) lock] d(3) l in auto)
qed

end
