(* ===== verification/Cluster.thy ===== *)
theory Cluster
  imports Writes Sending
begin

text \<open>
  A cluster: nodes that write, publish, receive and clean up in any order, over the shared streams of
  one NATS server. Every step is the code's own: the triggers behind a write, \<open>publishChangeLog\<close> with
  \<open>onTableChanged\<close>, \<open>onChangeEvent\<close> with the listener's retries, \<open>CleanupChangeLogs\<close>. Any node may write any
  row, also while messages for the same row are under way.
\<close>

section \<open>The steps\<close>

text \<open>
  The nodes share a configuration (the steps do not read its node id), the codec and the server; each has a database of its own.
  \<open>ce_keeps\<close> are the events whose values CBOR keeps, \<open>ce_log\<close> what a subject's stream holds.
\<close>

record 'n cluster_env =
  ce_nodes :: nat
  ce_id :: "nat \<Rightarrow> u64"
  ce_nats :: "'n nats_env"
  ce_db :: "nat \<Rightarrow> db_env"
  ce_codec :: ev_codec
  ce_keeps :: "ChangeLogEvent \<Rightarrow> bool"
  ce_log :: "'n \<Rightarrow> string \<Rightarrow> bytes list"

text \<open>The server, the nodes, and how far each node has come on each shard's stream.\<close>

record 'n cluster =
  cl_nats :: 'n
  cl_node :: "nat \<Rightarrow> 'n pub_state StreamDB"
  cl_pos :: "nat \<Rightarrow> u64 \<Rightarrow> nat"

text \<open>A node looks at the server as it is now.\<close>

definition at_server :: "'n \<Rightarrow> 'n pub_state StreamDB \<Rightarrow> 'n pub_state StreamDB" where
  "at_server n w = w\<lparr>sd_ext := (sd_ext w)\<lparr>ps_rep := (ps_rep (sd_ext w))\<lparr>r_nats := n\<rparr>\<rparr>\<rparr>"

definition stream_of :: "'n cluster_env \<Rightarrow> 'n \<Rightarrow> u64 \<Rightarrow> bytes list" where
  "stream_of ce n i = ce_log ce n (subjectName (ne_cfg (ce_nats ce)) i)"

text \<open>Changes that can be sent, and are kept by the codec.\<close>

definition can_send :: "'n cluster_env \<Rightarrow> nat \<Rightarrow> ChangeLogEvent \<Rightarrow> bool" where
  "can_send ce i e \<longleftrightarrow> sendable (ce_nats ce) (ce_codec ce) (ce_id ce i) e \<and> ce_keeps ce (prepare e)"

text \<open>
  A round of publishing runs on a working database; receiving and cleaning up on one that may fail at any call
  (a message then counts when an attempt has succeeded).
\<close>

inductive cluster_step :: "'n cluster_env \<Rightarrow> 'n cluster \<Rightarrow> 'n cluster \<Rightarrow> bool" for ce where
  writes: "i < ce_nodes ce \<Longrightarrow> w = cl_node c i \<Longrightarrow> write_ok (sd_schema w) x (sd_db w) \<Longrightarrow>
    d = app_write (sd_prefix w) (sd_schema w) x (sd_db w) \<Longrightarrow> list_all (can_send ce i) (pending (sd_prefix w) (sd_schema w) d) \<Longrightarrow>
    cluster_step ce c (c\<lparr>cl_node := (cl_node c)(i := w\<lparr>sd_db := d\<rparr>)\<rparr>)"
| publishes: "i < ce_nodes ce \<Longrightarrow>
    publishChangeLog (ce_db ce i) limit (Some (onTableChanged (ce_nats ce) (ce_codec ce) (ce_id ce i))) (at_server (cl_nats c) (cl_node c i)) = (r, w') \<Longrightarrow>
    cluster_step ce c (c\<lparr>cl_nats := r_nats (ps_rep (sd_ext w')), cl_node := (cl_node c)(i := w')\<rparr>)"
| receives: "i < ce_nodes ce \<Longrightarrow> cl_pos c i s < length (stream_of ce (cl_nats c) s) \<Longrightarrow>
    (if r_compressionEnabled (ps_rep (sd_ext (cl_node c i))) then payloadDecompress (ce_nats ce) (stream_of ce (cl_nats c) s ! cl_pos c i s)
     else Ok (stream_of ce (cl_nats c) s ! cl_pos c i s)) = Ok p \<Longrightarrow>
    driver_returns (e_driver denv) \<Longrightarrow> handled ip (onChangeEvent (ne_cfg (ce_nats ce)) (ce_codec ce) denv) [p] (cl_node c i) w' \<Longrightarrow>
    cluster_step ce c (c\<lparr>cl_node := (cl_node c)(i := w'), cl_pos := (cl_pos c)(i := (cl_pos c i)(s := Suc (cl_pos c i s)))\<rparr>)"
| cleans: "i < ce_nodes ce \<Longrightarrow> driver_returns (e_driver denv) \<Longrightarrow> CleanupChangeLogs denv before (cl_node c i) = (r, w') \<Longrightarrow>
    cluster_step ce c (c\<lparr>cl_node := (cl_node c)(i := w')\<rparr>)"

section \<open>What holds between the steps\<close>

text \<open>What the steps rely on outside.\<close>

definition cluster_ok :: "'n cluster_env \<Rightarrow> bool" where
  "cluster_ok ce \<longleftrightarrow>
     seq_codec (ne_file (ce_nats ce)) \<and> file_healthy (ne_file (ce_nats ce)) \<and> jet_logs (ce_nats ce) (ce_log ce) \<and>
     (\<forall>b z. ne_zenc (ce_nats ce) b = Ok z \<longrightarrow> ne_zdec (ce_nats ce) z = Ok b) \<and>
     ec_encMode (ce_codec ce) = Ok () \<and> ec_decMode (ce_codec ce) = Ok () \<and>
     codec_ok (ce_keeps ce) wire_event (ec_enc (ce_codec ce)) (ec_dec (ce_codec ce)) \<and>
     (\<forall>i < ce_nodes ce. healthy (ce_db ce i))"

text \<open>A node in order, with the schema \<open>sch\<close> and the prefix \<open>p\<close> all nodes share.\<close>

definition member_ok :: "'n cluster_env \<Rightarrow> string \<Rightarrow> schema \<Rightarrow> u64 \<Rightarrow> bool \<Rightarrow> nat \<Rightarrow> 'n pub_state StreamDB \<Rightarrow> bool" where
  "member_ok ce p sch shards z i w \<longleftrightarrow>
     node_ready (ne_cfg (ce_nats ce)) (ce_db ce i) {} w \<and> sd_schema w = sch \<and> sd_prefix w = p \<and> \<not> sd_publishLock w \<and>
     cdc_wf p sch (sd_db w) \<and> pub_ok (ce_nats ce) sch shards z (sd_ext w) \<and>
     list_all (\<lambda>e. captured sch e \<and> can_send ce i e) (pending p sch (sd_db w))"

text \<open>
  The value of a row on a node is settled once neither a change of the node's own waits for it nor a message
  for it is still to be received: then it is what the published history leaves there.
\<close>

definition row_settles ::
  "ev_codec \<Rightarrow> schema \<Rightarrow> u64 \<Rightarrow> ChangeLogEvent list \<Rightarrow> (string \<times> dval list \<Rightarrow> drow option) \<Rightarrow> ChangeLogEvent list \<Rightarrow>
   (u64 \<Rightarrow> nat) \<Rightarrow> (string \<times> dval list \<Rightarrow> drow option) \<Rightarrow> bool" where
  "row_settles ec sch shards hs l0 pend pos l \<longleftrightarrow>
     key_settles (ev_key sch) (ev_effect sch) (event_shard ec shards) Ok hs l0 pend pos l"

definition carried :: "'n cluster_env \<Rightarrow> bool \<Rightarrow> bytes \<Rightarrow> ChangeLogEvent \<Rightarrow> bool" where
  "carried ce z data e \<longleftrightarrow>
     (\<exists>p. (if z then payloadDecompress (ce_nats ce) data else Ok data) = Ok p \<and> carries (ce_codec ce) p e)"

text \<open>\<open>hs\<close> are the changes published so far, in the order they were.\<close>

definition cluster_inv :: "'n cluster_env \<Rightarrow> string \<Rightarrow> schema \<Rightarrow> u64 \<Rightarrow> bool \<Rightarrow> (string \<times> dval list \<Rightarrow> drow option) \<Rightarrow> ChangeLogEvent list \<Rightarrow> 'n cluster \<Rightarrow> bool" where
  "cluster_inv ce p sch shards z l0 hs c \<longleftrightarrow>
     list_all (\<lambda>e. captured sch e \<and> is_ok (event_shard (ce_codec ce) shards e)) hs \<and>
     (\<forall>s. list_all2 (carried ce z) (stream_of ce (cl_nats c) s) (shard_part (ce_codec ce) shards (Ok s) hs)) \<and>
     (\<forall>i < ce_nodes ce. member_ok ce p sch shards z i (cl_node c i) \<and>
        (\<forall>s. cl_pos c i s \<le> length (stream_of ce (cl_nats c) s)) \<and>
        row_settles (ce_codec ce) sch shards hs l0 (pending p sch (sd_db (cl_node c i))) (cl_pos c i) (look sch (sd_db (cl_node c i))))"

lemma cluster_invI:
  assumes "list_all (\<lambda>e. captured sch e \<and> is_ok (event_shard (ce_codec ce) shards e)) hs"
    and "\<And>s. list_all2 (carried ce z) (stream_of ce (cl_nats c) s) (shard_part (ce_codec ce) shards (Ok s) hs)"
    and "\<And>i. i < ce_nodes ce \<Longrightarrow> member_ok ce p sch shards z i (cl_node c i)"
    and "\<And>i s. i < ce_nodes ce \<Longrightarrow> cl_pos c i s \<le> length (stream_of ce (cl_nats c) s)"
    and "\<And>i. i < ce_nodes ce \<Longrightarrow> row_settles (ce_codec ce) sch shards hs l0 (pending p sch (sd_db (cl_node c i))) (cl_pos c i) (look sch (sd_db (cl_node c i)))"
  shows "cluster_inv ce p sch shards z l0 hs c"
  using assms by (simp add: cluster_inv_def)

lemma cluster_invD:
  assumes "cluster_inv ce p sch shards z l0 hs c"
  shows "list_all (\<lambda>e. captured sch e \<and> is_ok (event_shard (ce_codec ce) shards e)) hs"
    and "list_all2 (carried ce z) (stream_of ce (cl_nats c) s) (shard_part (ce_codec ce) shards (Ok s) hs)"
    and "i < ce_nodes ce \<Longrightarrow> member_ok ce p sch shards z i (cl_node c i)"
    and "i < ce_nodes ce \<Longrightarrow> cl_pos c i s \<le> length (stream_of ce (cl_nats c) s)"
    and "i < ce_nodes ce \<Longrightarrow> row_settles (ce_codec ce) sch shards hs l0 (pending p sch (sd_db (cl_node c i))) (cl_pos c i) (look sch (sd_db (cl_node c i)))"
  using assms by (simp_all add: cluster_inv_def)

section \<open>Receiving\<close>

text \<open>What handling a message leaves alone.\<close>

definition recv_frame :: "'z node_ctx_scheme StreamDB \<Rightarrow> 'z node_ctx_scheme StreamDB \<Rightarrow> bool" where
  "recv_frame w w' \<longleftrightarrow>
     sd_prefix w' = sd_prefix w \<and> sd_schema w' = sd_schema w \<and> sd_publishLock w' = sd_publishLock w \<and>
     (\<exists>k. sd_ext w' = (pulse ^^ k) (sd_ext w)) \<and> (\<forall>t. t \<notin> fst ` set (sd_schema w) \<longrightarrow> sd_db w' t = sd_db w t)"

lemma recv_frame_refl: "recv_frame w w"
  by (auto simp: recv_frame_def intro: exI [of _ 0])

lemma recv_frame_trans:
  assumes "recv_frame a b" and "recv_frame b c" shows "recv_frame a c"
proof -
  from assms obtain j k where "sd_ext b = (pulse ^^ j) (sd_ext a)" "sd_ext c = (pulse ^^ k) (sd_ext b)" by (auto simp: recv_frame_def)
  then have "sd_ext c = (pulse ^^ (k + j)) (sd_ext a)" by (simp add: funpow_add)
  with assms show ?thesis by (auto simp: recv_frame_def)
qed

lemma apply_event_other: "t \<noteq> ev_TableName e \<Longrightarrow> apply_event sch e d t = d t"
proof -
  assume t: "t \<noteq> ev_TableName e"
  have "sql_after st d t = d t" if "event_stmt sch e = Ok st" for st
    using that t by (auto simp: event_stmt_def sql_after_def bindE_def split: if_splits res.splits option.splits)
  then show ?thesis by (simp add: apply_event_def split: res.splits)
qed

lemma onChangeEvent_frame:
  assumes rdy: "node_ready c env B w" and car: "carries ec p e" and ok: "event_ok (sd_schema w) e"
  shows "recv_frame w (snd (onChangeEvent c ec env p w))"
proof -
  from car obtain r where r: "Unmarshal Unwrap (ec_decMode ec) (ec_dec ec) p zero_event = (Ok (), r)" "same_event e (Payload r)"
    unfolding carries_def by blast
  let ?w = "w\<lparr>sd_ext := pulse (sd_ext w)\<rparr>"
  have eq: "onChangeEvent c ec env p w = Replicate env (Payload r) ?w" using rdy r by (simp add: onChangeEvent_def node_ready_def)
  obtain info where "map_of (sd_schema w) (ev_TableName e) = Some info" using ok unfolding event_ok_def by blast
  from map_of_SomeD [OF this] r(2) have t: "ev_TableName (Payload r) \<in> fst ` set (sd_schema w)"
    unfolding same_event_def by force
  have ex: "\<exists>k. pulse (sd_ext w) = (pulse ^^ k) (sd_ext w)" by (rule exI [of _ 1]) simp
  have "db_ready env ?w B" using rdy by (simp add: node_ready_def db_ready_def)
  then show ?thesis unfolding eq
  proof (rule Replicate_cases [of env ?w B "Payload r"])
    fix q k assume "Replicate env (Payload r) ?w = (Ok (), ?w\<lparr>sd_tick := k, sd_db := apply_event (sd_schema ?w) (Payload r) (sd_db ?w), sd_pool := q\<rparr>)"
    with t ex show "recv_frame w (snd (Replicate env (Payload r) ?w))" by (auto simp: recv_frame_def intro!: apply_event_other)
  next
    fix x q k assume "Replicate env (Payload r) ?w = (Err x, ?w\<lparr>sd_tick := k, sd_pool := q\<rparr>)"
    with ex show "recv_frame w (snd (Replicate env (Payload r) ?w))" by (simp add: recv_frame_def)
  qed
qed

lemma handled_frame:
  assumes h: "handled ip (onChangeEvent c ec env) [p] w w'" and rdy: "node_ready c env B w" and car: "carries ec p e"
    and ok: "event_ok (sd_schema w) e"
  shows "recv_frame w w'"
proof -
  let ?cb = "onChangeEvent c ec env"
  from h obtain j where t: "tried ip ?cb p maxReplicateRetries j w (Ok ()) w'" by auto
  let ?I = "\<lambda>v. node_ready c env B v \<and> sd_schema v = sd_schema w \<and> recv_frame w v"
  have fr: "recv_frame w (snd (?cb p v))" if "?I v" for v
    using that onChangeEvent_frame [of c env B v ec p e] car ok recv_frame_trans [of w v] by auto
  have "?I (snd (?cb p v))" if "?I v" "retriable (fst (?cb p v))" for v
    by (rule onChangeEvent_cases [OF _ car, of c env B v]) (use that ok fr [OF that(1)] in \<open>auto simp: retriable_def\<close>)
  with tried_rule [OF t, where I = ?I] rdy recv_frame_refl [of w] obtain w0 where "?I w0" "?cb p w0 = (Ok (), w')" by blast
  with fr [of w0] show ?thesis by simp
qed

lemma pub_ok_pulse: "pub_ok env sch shards z ((pulse ^^ k) s) = pub_ok env sch shards z s"
  by (induction k) (simp_all add: pub_ok_def pulse_def)

lemma node_ready_env:
  "node_ready c env B w \<Longrightarrow> driver_returns (e_driver env') \<Longrightarrow> node_ready c env' B w"
  by (simp add: node_ready_def db_ready_def)

section \<open>Every step keeps the invariant\<close>

lemma at_server_simps [simp]:
  "sd_db (at_server n w) = sd_db w" "sd_schema (at_server n w) = sd_schema w" "sd_prefix (at_server n w) = sd_prefix w"
  "sd_publishLock (at_server n w) = sd_publishLock w" "r_nats (ps_rep (sd_ext (at_server n w))) = n"
  by (simp_all add: at_server_def)

lemma member_at_server: "member_ok ce p sch shards z i w \<Longrightarrow> member_ok ce p sch shards z i (at_server n w)"
  by (auto simp: member_ok_def node_ready_def db_ready_def pub_ok_def rep_wf_def at_server_def)

lemma wire_carried:
  assumes ok: "cluster_ok ce" and e: "captured sch e" "can_send ce i e" and w: "wire_bytes (ce_nats ce) (ce_codec ce) n z e = Ok data"
  shows "carried ce z data e"
proof -
  have cbor: "ec_encMode (ce_codec ce) = Ok ()" "ec_decMode (ce_codec ce) = Ok ()"
    "codec_ok (ce_keeps ce) wire_event (ec_enc (ce_codec ce)) (ec_dec (ce_codec ce))"
    and zstd: "\<And>b y. ne_zenc (ce_nats ce) b = Ok y \<Longrightarrow> ne_zdec (ce_nats ce) y = Ok b" using ok by (simp_all add: cluster_ok_def)
  from w obtain q where q: "Marshal Wrap (ec_encMode (ce_codec ce)) (ec_enc (ce_codec ce)) \<lparr>FromNodeId = n, Payload = e\<rparr> = Ok q"
    "(if z then payloadCompress (ce_nats ce) q else Ok q) = Ok data"
    unfolding wire_bytes_def by (auto simp: bindE_def split: res.splits)
  have "carries (ce_codec ce) q e" by (rule marshal_carries [OF cbor _ _ q(1)]) (use e in \<open>auto simp: captured_def can_send_def\<close>)
  moreover have "(if z then payloadDecompress (ce_nats ce) data else Ok data) = Ok q"
    using q(2) zstd by (cases z) (auto simp: payloadDecompress_def payloadCompress_def)
  ultimately show ?thesis unfolding carried_def by blast
qed

lemma inv_writes:
  assumes inv: "cluster_inv ce p sch shards z l0 hs c" and ap: "apart p sch" and i: "i < ce_nodes ce" and w: "w = cl_node c i"
    and x: "write_ok (sd_schema w) x (sd_db w)" and d: "d = app_write (sd_prefix w) (sd_schema w) x (sd_db w)"
    and snd: "list_all (can_send ce i) (pending (sd_prefix w) (sd_schema w) d)"
  shows "cluster_inv ce p sch shards z l0 hs (c\<lparr>cl_node := (cl_node c)(i := w\<lparr>sd_db := d\<rparr>)\<rparr>)"
proof -
  have m: "member_ok ce p sch shards z i w" using cluster_invD(3) [OF inv i] w by simp
  then have f: "sd_schema w = sch" "sd_prefix w = p" "cdc_wf p sch (sd_db w)" "db_wf sch (sd_db w)" by (auto simp: member_ok_def node_ready_def)
  from x f have x': "write_ok sch x (sd_db w)" by simp
  obtain e where e: "captured sch e" "pending p sch d = pending p sch (sd_db w) @ [e]"
    "look sch d = (look sch (sd_db w))(ev_key sch e := ev_effect sch e)" "cdc_wf p sch d" "db_wf sch d"
    using app_write_recorded [OF f(3,4) ap x'] d f by metis
  have m': "member_ok ce p sch shards z i (w\<lparr>sd_db := d\<rparr>)"
    using m e(1,2,4,5) snd f by (simp add: member_ok_def node_ready_def db_ready_def list_all_iff)
  have "row_settles (ce_codec ce) sch shards hs l0 (pending p sch d) (cl_pos c i) (look sch d)"
    using key_settles_write [OF cluster_invD(5) [OF inv i, unfolded row_settles_def], of e "ev_effect sch e"] e(2,3) w by (simp add: row_settles_def)
  with m' show ?thesis
    by (intro cluster_invI) (use cluster_invD [OF inv] in auto)
qed

lemma inv_cleans:
  assumes inv: "cluster_inv ce p sch shards z l0 hs c" and ap: "apart p sch" and i: "i < ce_nodes ce"
    and dr: "driver_returns (e_driver denv)" and run: "CleanupChangeLogs denv before (cl_node c i) = (r, w')"
  shows "cluster_inv ce p sch shards z l0 hs (c\<lparr>cl_node := (cl_node c)(i := w')\<rparr>)"
proof -
  let ?w = "cl_node c i"
  have m: "member_ok ce p sch shards z i ?w" by (rule cluster_invD(3) [OF inv i])
  then have f: "sd_schema ?w = sch" "sd_prefix ?w = p" "cdc_wf p sch (sd_db ?w)" "db_ready denv ?w {}"
    using dr by (auto simp: member_ok_def node_ready_def db_ready_def)
  from CleanupChangeLogs_run [OF f(4), of before] f run have fr: "pub_frame denv {} ?w w'"
    and pd: "pending p sch (sd_db w') = pending p sch (sd_db ?w)" and ex: "sd_ext w' = sd_ext ?w" by (auto simp: cleaned_def)
  have same: "look sch (sd_db w') = look sch (sd_db ?w)" "db_wf sch (sd_db w') = db_wf sch (sd_db ?w)"
    by (rule apart_cong [OF ap]; use fr f in \<open>simp add: pub_frame_def\<close>)+
  have "member_ok ce p sch shards z i w'"
    using m fr pd ex same f by (auto simp: member_ok_def node_ready_def pub_frame_def db_ready_def)
  with pd same show ?thesis
    by (intro cluster_invI) (use cluster_invD [OF inv] in auto)
qed

lemma list_all2_carried_append:
  assumes "list_all2 (carried ce z) xs es" and "on_wire (ce_nats ce) (ce_codec ce) n z fs ds"
    and "cluster_ok ce" and "list_all (\<lambda>e. captured sch e \<and> can_send ce i e) fs"
  shows "list_all2 (carried ce z) (xs @ ds) (es @ fs)"
proof -
  have "list_all2 (carried ce z) ds fs"
    using assms(2,4) wire_carried [OF assms(3)] unfolding on_wire_def
    by (induction rule: list_all2_induct) auto
  with assms(1) show ?thesis by (rule list_all2_appendI)
qed

lemma shard_part_append: "shard_part ec m i (hs @ es) = shard_part ec m i hs @ shard_part ec m i es"
  by (simp add: shard_part_def log_part_def)

lemma inv_publishes:
  assumes inv: "cluster_inv ce p sch shards z l0 hs c" and ok: "cluster_ok ce" and ap: "apart p sch" and i: "i < ce_nodes ce"
    and run: "publishChangeLog (ce_db ce i) limit (Some (onTableChanged (ce_nats ce) (ce_codec ce) (ce_id ce i))) (at_server (cl_nats c) (cl_node c i)) = (r, w')"
  defines "es \<equiv> limit_rows (unat limit) (pending p sch (sd_db (cl_node c i)))"
  shows "cluster_inv ce p sch shards z l0 (hs @ es) (c\<lparr>cl_nats := r_nats (ps_rep (sd_ext w')), cl_node := (cl_node c)(i := w')\<rparr>)"
    and "pending p sch (sd_db w') = drop (length es) (pending p sch (sd_db (cl_node c i)))" and "r = Ok ()"
proof -
  let ?w = "at_server (cl_nats c) (cl_node c i)" and ?env = "ce_nats ce" and ?ec = "ce_codec ce"
  let ?pend = "pending p sch (sd_db (cl_node c i))"
  have m0: "member_ok ce p sch shards z i (cl_node c i)" by (rule cluster_invD(3) [OF inv i])
  note m = member_at_server [OF m0, of "cl_nats c"]
  have f: "sd_schema ?w = sch" "sd_prefix ?w = p" "\<not> sd_publishLock ?w" "db_ready (ce_db ce i) ?w {}"
    "cdc_wf (sd_prefix ?w) (sd_schema ?w) (sd_db ?w)" "pub_ok ?env (sd_schema ?w) shards z (sd_ext ?w)"
    using m by (simp_all add: member_ok_def node_ready_def del: at_server_simps)
  have split: "?pend = es @ drop (length es) ?pend"
    unfolding es_def by (cases "unat limit = 0") (simp_all add: limit_rows_def min_def)
  have all: "list_all (\<lambda>e. captured sch e \<and> can_send ce i e) ?pend" using m0 by (simp add: member_ok_def)
  then have "list_all (\<lambda>e. captured sch e \<and> can_send ce i e) (es @ drop (length es) ?pend)" using split by metis
  then have es: "list_all (\<lambda>e. captured sch e \<and> can_send ce i e) es" "list_all (captured (sd_schema ?w)) es" "list_all (sendable ?env ?ec (ce_id ce i)) es"
    using f(1) by (auto simp: list_all_iff can_send_def)
  have h: "healthy (ce_db ce i)" "seq_codec (ne_file ?env)" "file_healthy (ne_file ?env)" "jet_logs ?env (ce_log ce)"
    using ok i by (simp_all add: cluster_ok_def)
  have pend: "pending (sd_prefix ?w) (sd_schema ?w) (sd_db ?w) = es @ drop (length es) ?pend"
    "es = limit_rows (unat limit) (es @ drop (length es) ?pend)"
    using split f(1,2) es_def by simp_all
  obtain v where v: "publishChangeLog (ce_db ce i) limit (Some (onTableChanged ?env ?ec (ce_id ce i))) ?w = (Ok (), v)"
    "pub_frame (ce_db ce i) {} ?w v" "\<not> sd_publishLock v" "pub_ok ?env (sd_schema ?w) shards z (sd_ext v)"
    "pending (sd_prefix ?w) (sd_schema ?w) (sd_db v) = drop (length es) ?pend"
    and l: "\<And>j. \<exists>ds. on_wire ?env ?ec (ce_id ce i) z (shard_part ?ec shards (Ok j) es) ds \<and>
       ce_log ce (r_nats (ps_rep (sd_ext v))) (subjectName (ne_cfg ?env) j) = ce_log ce (r_nats (ps_rep (sd_ext ?w))) (subjectName (ne_cfg ?env) j) @ ds"
    by (rule publish_round_sent [OF h(2-4,1) f(4,5,3,6) pend es(2,3)]) blast
  from v(1) run have r: "w' = v" "r = Ok ()" by simp_all
  then show "r = Ok ()" by simp
  show pd: "pending p sch (sd_db w') = drop (length es) ?pend" using v(5) r f(1,2) by simp
  have same: "look sch (sd_db w') = look sch (sd_db (cl_node c i))" "db_wf sch (sd_db w') = db_wf sch (sd_db (cl_node c i))"
    by (rule apart_cong [OF ap]; use v(2) r f(1,2) in \<open>simp add: pub_frame_def\<close>)+
  have "list_all (\<lambda>e. captured sch e \<and> can_send ce i e) (drop (length es) ?pend)" using all by (auto simp: list_all_iff dest: in_set_dropD)
  then have m': "member_ok ce p sch shards z i w'"
    using m0 v(2-4) r pd same f(1,2) by (auto simp: member_ok_def node_ready_def pub_frame_def pub_ok_def)
  have sh: "list_all (\<lambda>e. captured sch e \<and> is_ok (event_shard ?ec shards e)) es"
    using es(1) by (auto simp: list_all_iff can_send_def sendable_def event_shard_def is_ok_iff res_simps)
  let ?c = "c\<lparr>cl_nats := r_nats (ps_rep (sd_ext w')), cl_node := (cl_node c)(i := w')\<rparr>"
  have st: "\<exists>ds. on_wire ?env ?ec (ce_id ce i) z (shard_part ?ec shards (Ok j) es) ds \<and> stream_of ce (cl_nats ?c) j = stream_of ce (cl_nats c) j @ ds" for j
    using l [of j] r(1) by (simp add: stream_of_def)
  have len: "cl_pos c k j \<le> length (shard_part ?ec shards (Ok j) hs)" if "k < ce_nodes ce" for k j
    using cluster_invD(4) [OF inv that, of j] list_all2_lengthD [OF cluster_invD(2) [OF inv, of j]] by simp
  show "cluster_inv ce p sch shards z l0 (hs @ es) ?c"
  proof (rule cluster_invI)
    show "list_all (\<lambda>e. captured sch e \<and> is_ok (event_shard ?ec shards e)) (hs @ es)" using cluster_invD(1) [OF inv] sh by simp
  next
    fix j
    obtain ds where ds: "on_wire ?env ?ec (ce_id ce i) z (shard_part ?ec shards (Ok j) es) ds" "stream_of ce (cl_nats ?c) j = stream_of ce (cl_nats c) j @ ds"
      using st by blast
    have "list_all (\<lambda>e. captured sch e \<and> can_send ce i e) (shard_part ?ec shards (Ok j) es)" using es(1) by (simp add: shard_part_def log_part_def list_all_iff)
    from list_all2_carried_append [OF cluster_invD(2) [OF inv] ds(1) ok this]
    show "list_all2 (carried ce z) (stream_of ce (cl_nats ?c) j) (shard_part ?ec shards (Ok j) (hs @ es))"
      unfolding ds(2) shard_part_append .
  next
    fix k assume k: "k < ce_nodes ce"
    show "member_ok ce p sch shards z k (cl_node ?c k)" using cluster_invD(3) [OF inv k] m' by simp
    have "set (pending p sch (sd_db (cl_node c k))) \<subseteq> set es \<union> set (pending p sch (sd_db (cl_node ?c k)))"
    proof (cases "k = i")
      case True
      have "set ?pend = set es \<union> set (drop (length es) ?pend)" by (subst split) simp
      with True pd show ?thesis by simp
    qed simp
    from key_settles_publish [OF cluster_invD(5) [OF inv k, unfolded row_settles_def] len [OF k, unfolded shard_part_def] _ this] sh
    have "row_settles ?ec sch shards (hs @ es) l0 (pending p sch (sd_db (cl_node ?c k))) (cl_pos c k) (look sch (sd_db (cl_node c k)))"
      by (simp add: list_all_iff is_ok_iff row_settles_def)
    then show "row_settles ?ec sch shards (hs @ es) l0 (pending p sch (sd_db (cl_node ?c k))) (cl_pos ?c k) (look sch (sd_db (cl_node ?c k)))"
      using same(1) by (cases "k = i") simp_all
    fix j
    obtain ds where "stream_of ce (cl_nats ?c) j = stream_of ce (cl_nats c) j @ ds" using st by blast
    with cluster_invD(4) [OF inv k, of j] show "cl_pos ?c k j \<le> length (stream_of ce (cl_nats ?c) j)" by simp
  qed
qed

text \<open>The next message of a shard carries its event, and handling it has that event's effect.\<close>

lemma next_message:
  assumes inv: "cluster_inv ce p sch shards z l0 hs c" and i: "i < ce_nodes ce" and s: "cl_pos c i s < length (stream_of ce (cl_nats c) s)"
  obtains q e where "(if z then payloadDecompress (ce_nats ce) (stream_of ce (cl_nats c) s ! cl_pos c i s) else Ok (stream_of ce (cl_nats c) s ! cl_pos c i s)) = Ok q"
    "carries (ce_codec ce) q e" "e = shard_part (ce_codec ce) shards (Ok s) hs ! cl_pos c i s" "captured sch e"
    "cl_pos c i s < length (shard_part (ce_codec ce) shards (Ok s) hs)"
proof -
  note l = cluster_invD(2) [OF inv, of s]
  have s': "cl_pos c i s < length (shard_part (ce_codec ce) shards (Ok s) hs)" using s list_all2_lengthD [OF l] by simp
  have "carried ce z (stream_of ce (cl_nats c) s ! cl_pos c i s) (shard_part (ce_codec ce) shards (Ok s) hs ! cl_pos c i s)"
    by (rule list_all2_nthD [OF l s])
  moreover have "shard_part (ce_codec ce) shards (Ok s) hs ! cl_pos c i s \<in> set hs"
    using nth_mem [OF s'] by (simp add: shard_part_def log_part_def)
  then have "captured sch (shard_part (ce_codec ce) shards (Ok s) hs ! cl_pos c i s)" using cluster_invD(1) [OF inv] by (simp add: list_all_iff)
  ultimately show ?thesis using that s' unfolding carried_def by blast
qed

lemma inv_receives:
  assumes inv: "cluster_inv ce p sch shards z l0 hs c" and ap: "apart p sch" and i: "i < ce_nodes ce"
    and s: "cl_pos c i s < length (stream_of ce (cl_nats c) s)"
    and q: "(if r_compressionEnabled (ps_rep (sd_ext (cl_node c i))) then payloadDecompress (ce_nats ce) (stream_of ce (cl_nats c) s ! cl_pos c i s)
      else Ok (stream_of ce (cl_nats c) s ! cl_pos c i s)) = Ok q"
    and dr: "driver_returns (e_driver denv)"
    and run: "handled ip (onChangeEvent (ne_cfg (ce_nats ce)) (ce_codec ce) denv) [q] (cl_node c i) w'"
  shows "cluster_inv ce p sch shards z l0 hs (c\<lparr>cl_node := (cl_node c)(i := w'), cl_pos := (cl_pos c)(i := (cl_pos c i)(s := Suc (cl_pos c i s)))\<rparr>)"
    and "pending p sch (sd_db w') = pending p sch (sd_db (cl_node c i))"
proof -
  let ?w = "cl_node c i" and ?cfg = "ne_cfg (ce_nats ce)" and ?ec = "ce_codec ce"
  have m: "member_ok ce p sch shards z i ?w" by (rule cluster_invD(3) [OF inv i])
  then have f: "sd_schema ?w = sch" "sd_prefix ?w = p" "cdc_wf p sch (sd_db ?w)" "node_ready ?cfg (ce_db ce i) {} ?w"
    "r_compressionEnabled (ps_rep (sd_ext ?w)) = z" by (auto simp: member_ok_def pub_ok_def)
  note rdy = node_ready_env [OF f(4) dr]
  obtain q' e where e: "(if z then payloadDecompress (ce_nats ce) (stream_of ce (cl_nats c) s ! cl_pos c i s) else Ok (stream_of ce (cl_nats c) s ! cl_pos c i s)) = Ok q'"
    "carries ?ec q' e" "e = shard_part ?ec shards (Ok s) hs ! cl_pos c i s" "captured sch e" "cl_pos c i s < length (shard_part ?ec shards (Ok s) hs)"
    by (rule next_message [OF inv i s])
  with q f(5) have car: "carries ?ec q e" by simp
  have ok: "event_ok (sd_schema ?w) e" using e(4) f(1) by (simp add: captured_def)
  have ap': "node_ready ?cfg denv {} w'" "sd_schema w' = sch" "look sch (sd_db w') = (look sch (sd_db ?w))(ev_key sch e := ev_effect sch e)"
    using handled_applies [OF run _ rdy, of "[e]"] car ok f(1) by (simp_all add: look_after_def)
  have fr: "recv_frame ?w w'" by (rule handled_frame [OF run rdy car ok])
  have "sd_db w' t = sd_db ?w t" if "t \<in> log_tables p sch" for t
  proof -
    have "t \<notin> fst ` set (sd_schema ?w)" using that ap f(1) unfolding apart_def by blast
    with fr show ?thesis unfolding recv_frame_def by blast
  qed
  note cd = cdc_cong [OF f(3) this]
  then show pd: "pending p sch (sd_db w') = pending p sch (sd_db ?w)" by simp
  from fr obtain k where "sd_ext w' = (pulse ^^ k) (sd_ext ?w)" by (auto simp: recv_frame_def)
  then have pub: "pub_ok (ce_nats ce) sch shards z (sd_ext w')" using m by (simp add: pub_ok_pulse member_ok_def)
  have "driver_returns (e_driver (ce_db ce i))" using f(4) by (simp add: node_ready_def db_ready_def)
  from node_ready_env [OF ap'(1) this] have m': "member_ok ce p sch shards z i w'"
    using m fr cd pub ap'(2) by (simp add: member_ok_def recv_frame_def)
  have cap: "list_all (captured sch) hs" using cluster_invD(1) [OF inv] by (simp add: list_all_iff)
  have "row_settles ?ec sch shards hs l0 (pending p sch (sd_db w')) ((cl_pos c i)(s := Suc (cl_pos c i s))) (look sch (sd_db w'))"
    unfolding pd ap'(3) unfolding row_settles_def
    by (rule clog.key_settles_receive [OF cluster_invD(5) [OF inv i, unfolded row_settles_def] cap e(5,3) [unfolded shard_part_def]])
  then show "cluster_inv ce p sch shards z l0 hs (c\<lparr>cl_node := (cl_node c)(i := w'), cl_pos := (cl_pos c)(i := (cl_pos c i)(s := Suc (cl_pos c i s)))\<rparr>)"
    by (intro cluster_invI) (use cluster_invD [OF inv] m' s in auto)
qed

lemma cluster_step_inv:
  assumes "cluster_step ce c c'" and "cluster_inv ce p sch shards z l0 hs c" and "cluster_ok ce" and "apart p sch"
  shows "\<exists>hs'. cluster_inv ce p sch shards z l0 hs' c'"
  using assms(1)
proof cases
  case (writes i w x d)
  then show ?thesis using inv_writes [OF assms(2,4)] by blast
next
  case (publishes i limit r w')
  then show ?thesis using inv_publishes(1) [OF assms(2-4)] by blast
next
  case (receives i s q denv ip w')
  then show ?thesis using inv_receives(1) [OF assms(2,4)] by blast
next
  case (cleans i denv before r w')
  then show ?thesis using inv_cleans [OF assms(2,4)] by blast
qed

lemma cluster_steps_inv:
  assumes "(cluster_step ce)\<^sup>*\<^sup>* c c'" and "cluster_inv ce p sch shards z l0 hs c" and "cluster_ok ce" and "apart p sch"
  shows "\<exists>hs'. cluster_inv ce p sch shards z l0 hs' c'"
  using assms by (induction arbitrary: rule: rtranclp_induct) (blast dest: cluster_step_inv)+

end
