(* ===== verification/ClusterProps.thy ===== *)
theory ClusterProps
  imports Cluster
begin

text \<open>
  What a cluster promises: once it is quiet all nodes hold the same rows, whoever wrote them, and it can
  always become quiet.
\<close>

section \<open>Start and end\<close>

definition cluster_start ::
  "'n cluster_env \<Rightarrow> string \<Rightarrow> schema \<Rightarrow> u64 \<Rightarrow> bool \<Rightarrow> (string \<times> dval list \<Rightarrow> drow option) \<Rightarrow> 'n cluster \<Rightarrow> bool" where
  "cluster_start ce p sch shards z l0 c \<longleftrightarrow>
     (\<forall>s. stream_of ce (cl_nats c) s = []) \<and>
     (\<forall>i < ce_nodes ce. member_ok ce p sch shards z i (cl_node c i) \<and> pending p sch (sd_db (cl_node c i)) = [] \<and>
        (\<forall>s. cl_pos c i s = 0) \<and> look sch (sd_db (cl_node c i)) = l0)"

text \<open>Nothing waits to be published, and every node has received every message.\<close>

definition quiet :: "'n cluster_env \<Rightarrow> string \<Rightarrow> schema \<Rightarrow> 'n cluster \<Rightarrow> bool" where
  "quiet ce p sch c \<longleftrightarrow>
     (\<forall>i < ce_nodes ce. pending p sch (sd_db (cl_node c i)) = [] \<and> (\<forall>s. cl_pos c i s = length (stream_of ce (cl_nats c) s)))"

text \<open>A step without a write: no queue grows.\<close>

definition calm_step :: "'n cluster_env \<Rightarrow> string \<Rightarrow> schema \<Rightarrow> 'n cluster \<Rightarrow> 'n cluster \<Rightarrow> bool" where
  "calm_step ce p sch c c' \<longleftrightarrow>
     cluster_step ce c c' \<and> (\<forall>i. length (pending p sch (sd_db (cl_node c' i))) \<le> length (pending p sch (sd_db (cl_node c i))))"

lemma calm_steps: "(calm_step ce p sch)\<^sup>*\<^sup>* c c' \<Longrightarrow> (cluster_step ce)\<^sup>*\<^sup>* c c'"
  by (erule rtranclp_mono [THEN predicate2D, rotated]) (auto simp: calm_step_def)

lemma start_inv:
  assumes "cluster_start ce p sch shards z l0 c"
  shows "cluster_inv ce p sch shards z l0 [] c"
  using assms by (intro cluster_invI) (auto simp: cluster_start_def shard_part_def log_part_def row_settles_def key_settles_def replay_def)

lemma quiet_rows:
  assumes inv: "cluster_inv ce p sch shards z l0 hs c" and q: "quiet ce p sch c" and i: "i < ce_nodes ce"
  shows "look sch (sd_db (cl_node c i)) = look_after sch hs l0"
proof -
  have "cl_pos c i s = length (log_part (event_shard (ce_codec ce) shards) (Ok s) hs)" for s
    using q i list_all2_lengthD [OF cluster_invD(2) [OF inv, of s]] by (simp add: quiet_def shard_part_def)
  with settled [of "ev_key sch" "ev_effect sch" "event_shard (ce_codec ce) shards" Ok hs l0 "cl_pos c i"] cluster_invD(5) [OF inv i] q i
  show ?thesis by (simp add: row_settles_def quiet_def look_after_replay)
qed

section \<open>Becoming quiet\<close>

text \<open>A node publishes all that waits there.\<close>

lemma publish_all:
  assumes inv: "cluster_inv ce p sch shards z l0 hs c" and ok: "cluster_ok ce" and ap: "apart p sch" and i: "i < ce_nodes ce"
  obtains c' hs' where "calm_step ce p sch c c'" "cluster_inv ce p sch shards z l0 hs' c'" "pending p sch (sd_db (cl_node c' i)) = []"
    "\<And>j. j \<noteq> i \<Longrightarrow> cl_node c' j = cl_node c j"
proof -
  obtain r w' where run: "publishChangeLog (ce_db ce i) 0 (Some (onTableChanged (ce_nats ce) (ce_codec ce) (ce_id ce i)))
      (at_server (cl_nats c) (cl_node c i)) = (r, w')"
    by (cases "publishChangeLog (ce_db ce i) 0 (Some (onTableChanged (ce_nats ce) (ce_codec ce) (ce_id ce i))) (at_server (cl_nats c) (cl_node c i))")
  note inv' = inv_publishes [OF inv ok ap i run]
  have "calm_step ce p sch c (c\<lparr>cl_nats := r_nats (ps_rep (sd_ext w')), cl_node := (cl_node c)(i := w')\<rparr>)"
    using cluster_step.publishes [OF i run] inv'(2) by (simp add: calm_step_def)
  then show ?thesis
    by (rule that [OF _ inv'(1)]) (use inv'(2) in \<open>simp_all add: limit_rows_def\<close>)
qed

lemma publish_everywhere:
  assumes ok: "cluster_ok ce" and ap: "apart p sch" and n: "n \<le> ce_nodes ce" and inv: "cluster_inv ce p sch shards z l0 hs c"
  shows "\<exists>c' hs'. (calm_step ce p sch)\<^sup>*\<^sup>* c c' \<and> cluster_inv ce p sch shards z l0 hs' c' \<and> (\<forall>i < n. pending p sch (sd_db (cl_node c' i)) = [])"
  using n
proof (induction n)
  case 0
  with inv show ?case by blast
next
  case (Suc n)
  then obtain c1 h1 where c1: "(calm_step ce p sch)\<^sup>*\<^sup>* c c1" "cluster_inv ce p sch shards z l0 h1 c1" "\<forall>i < n. pending p sch (sd_db (cl_node c1 i)) = []" by auto
  have n: "n < ce_nodes ce" using Suc.prems by simp
  obtain c2 h2 where c2: "calm_step ce p sch c1 c2" "cluster_inv ce p sch shards z l0 h2 c2" "pending p sch (sd_db (cl_node c2 n)) = []"
    "\<And>j. j \<noteq> n \<Longrightarrow> cl_node c2 j = cl_node c1 j" by (rule publish_all [OF c1(2) ok ap n]) blast
  have "\<forall>i < Suc n. pending p sch (sd_db (cl_node c2 i)) = []" using c1(3) c2(3,4) by (auto simp: less_Suc_eq)
  with c1(1) c2(1,2) show ?case by (meson rtranclp.rtrancl_into_rtrancl)
qed

text \<open>How many messages are still to be received.\<close>

definition backlog :: "'n cluster_env \<Rightarrow> 'n cluster \<Rightarrow> nat" where
  "backlog ce c = (\<Sum>(i, s) \<in> {..<ce_nodes ce} \<times> (UNIV :: u64 set). length (stream_of ce (cl_nats c) s) - cl_pos c i s)"

lemma receive_one:
  assumes inv: "cluster_inv ce p sch shards z l0 hs c" and ok: "cluster_ok ce" and ap: "apart p sch" and i: "i < ce_nodes ce"
    and s: "cl_pos c i s < length (stream_of ce (cl_nats c) s)"
  obtains c' where "calm_step ce p sch c c'" "cluster_inv ce p sch shards z l0 hs c'" "backlog ce c' < backlog ce c"
    "\<And>j. pending p sch (sd_db (cl_node c' j)) = pending p sch (sd_db (cl_node c j))"
proof -
  let ?w = "cl_node c i" and ?cb = "onChangeEvent (ne_cfg (ce_nats ce)) (ce_codec ce) (ce_db ce i)"
  have m: "node_ready (ne_cfg (ce_nats ce)) (ce_db ce i) {} ?w" "sd_schema ?w = sch" "r_compressionEnabled (ps_rep (sd_ext ?w)) = z"
    using cluster_invD(3) [OF inv i] by (auto simp: member_ok_def pub_ok_def)
  have h: "healthy (ce_db ce i)" using ok i by (simp add: cluster_ok_def)
  have dr: "driver_returns (e_driver (ce_db ce i))" using m(1) by (simp add: node_ready_def db_ready_def)
  obtain q e where e: "(if z then payloadDecompress (ce_nats ce) (stream_of ce (cl_nats c) s ! cl_pos c i s) else Ok (stream_of ce (cl_nats c) s ! cl_pos c i s)) = Ok q"
    "carries (ce_codec ce) q e" "captured sch e" by (rule next_message [OF inv i s])
  have "event_ok (sd_schema ?w) e" using e(3) m(2) by (simp add: captured_def)
  then obtain w' where w': "?cb q ?w = (Ok (), w')"
    by (rule onChangeEvent_cases [OF m(1) e(2)]) (use h in auto)
  then have run: "handled (\<lambda>_. None) ?cb [q] ?w w'"
    using tried_one [of ?cb q ?w maxReplicateRetries "\<lambda>_. None"] by (auto simp: retriable_def maxReplicateRetries_def)
  have q: "(if r_compressionEnabled (ps_rep (sd_ext ?w)) then payloadDecompress (ce_nats ce) (stream_of ce (cl_nats c) s ! cl_pos c i s)
      else Ok (stream_of ce (cl_nats c) s ! cl_pos c i s)) = Ok q" using e(1) m(3) by simp
  let ?c = "c\<lparr>cl_node := (cl_node c)(i := w'), cl_pos := (cl_pos c)(i := (cl_pos c i)(s := Suc (cl_pos c i s)))\<rparr>"
  note inv' = inv_receives [OF inv ap i s q dr run]
  have "backlog ce ?c < backlog ce c"
    unfolding backlog_def
  proof (rule sum_strict_mono_ex1)
    show "\<exists>x\<in>{..<ce_nodes ce} \<times> UNIV. (case x of (j, t) \<Rightarrow> length (stream_of ce (cl_nats ?c) t) - cl_pos ?c j t) <
        (case x of (j, t) \<Rightarrow> length (stream_of ce (cl_nats c) t) - cl_pos c j t)"
      by (rule bexI [of _ "(i, s)"]) (use i s in auto)
  qed auto
  moreover have "calm_step ce p sch c ?c"
    using cluster_step.receives [OF i s q dr run] inv'(2) by (simp add: calm_step_def)
  ultimately show ?thesis using that [OF _ inv'(1)] inv'(2) by simp
qed

lemma receive_everything:
  assumes ok: "cluster_ok ce" and ap: "apart p sch"
  shows "cluster_inv ce p sch shards z l0 hs c \<Longrightarrow> \<forall>i < ce_nodes ce. pending p sch (sd_db (cl_node c i)) = [] \<Longrightarrow>
    \<exists>c'. (calm_step ce p sch)\<^sup>*\<^sup>* c c' \<and> quiet ce p sch c'"
proof (induction "backlog ce c" arbitrary: c rule: less_induct)
  case less
  show ?case
  proof (cases "quiet ce p sch c")
    case False
    with less.prems(2) obtain i s where i: "i < ce_nodes ce" "cl_pos c i s \<noteq> length (stream_of ce (cl_nats c) s)" by (auto simp: quiet_def)
    with cluster_invD(4) [OF less.prems(1) i(1), of s] have s: "cl_pos c i s < length (stream_of ce (cl_nats c) s)" by simp
    obtain c1 where c1: "calm_step ce p sch c c1" "cluster_inv ce p sch shards z l0 hs c1" "backlog ce c1 < backlog ce c"
      "\<And>j. pending p sch (sd_db (cl_node c1 j)) = pending p sch (sd_db (cl_node c j))" by (rule receive_one [OF less.prems(1) ok ap i(1) s]) blast
    from less.hyps [OF c1(3,2)] c1(4) less.prems(2) obtain c2 where "(calm_step ce p sch)\<^sup>*\<^sup>* c1 c2" "quiet ce p sch c2" by auto
    with c1(1) show ?thesis by (meson converse_rtranclp_into_rtranclp)
  qed blast
qed

lemma becomes_quiet:
  assumes "cluster_ok ce" and "apart p sch" and "cluster_inv ce p sch shards z l0 hs c"
  shows "\<exists>c'. (calm_step ce p sch)\<^sup>*\<^sup>* c c' \<and> quiet ce p sch c'"
proof -
  obtain c1 h1 where c1: "(calm_step ce p sch)\<^sup>*\<^sup>* c c1" "cluster_inv ce p sch shards z l0 h1 c1"
    "\<forall>i < ce_nodes ce. pending p sch (sd_db (cl_node c1 i)) = []"
    using publish_everywhere [OF assms(1,2) order_refl assms(3)] by blast
  from receive_everything [OF assms(1,2) c1(2,3)] c1(1) show ?thesis by (meson rtranclp_trans)
qed

section \<open>Concrete data\<close>

text \<open>Two nodes with one table; the first inserts a row.\<close>

definition wit_ins_event :: ChangeLogEvent where
  "wit_ins_event = \<lparr>ev_Id = 1, ev_Type = ''insert'', ev_TableName = ''t'',
     ev_Row = [(''id'', GVal (DInt 7)), (''v'', GVal (DText ''a''))], ev_tableInfo = wit_repl_cols\<rparr>"

definition wit_ins_codec :: ev_codec where
  "wit_ins_codec = wit_ec\<lparr>
     ec_enc := (\<lambda>x. if x = \<lparr>FromNodeId = 1, Payload = wit_ins_event\<rparr> then Ok [7] else Err (External 2)),
     ec_dec := (\<lambda>b. if b = [7] then Ok \<lparr>FromNodeId = 1, Payload = wit_ins_event\<rparr> else Err (External 3))\<rparr>"

definition wit_cluster_env :: "mem_nats cluster_env" where
  "wit_cluster_env =
     \<lparr>ce_nodes = 2, ce_id = (\<lambda>i. of_nat (Suc i)), ce_nats = wit_nats_env 2, ce_db = (\<lambda>_. wit_repl_env), ce_codec = wit_ins_codec,
      ce_keeps = (\<lambda>_. True), ce_log = (\<lambda>n subj. map snd (filter (\<lambda>m. fst m = subj) n))\<rparr>"

definition wit_member :: "mem_nats pub_state StreamDB" where
  "wit_member = (re_ext wit_pub_world wit_pub)\<lparr>sd_db := wit_db0\<rparr>"

definition wit_cluster :: "mem_nats cluster" where
  "wit_cluster = \<lparr>cl_nats = [], cl_node = (\<lambda>_. wit_member), cl_pos = (\<lambda>_ _. 0)\<rparr>"

text \<open>The row is inserted.\<close>

definition wit_cluster1 :: "mem_nats cluster" where
  "wit_cluster1 = wit_cluster\<lparr>cl_node := (cl_node wit_cluster)(0 := wit_member\<lparr>sd_db := app_write MarmotPrefix wit_log_schema wit_ins wit_db0\<rparr>)\<rparr>"

lemma wit_member_simps [simp]:
  "sd_db wit_member = wit_db0" "sd_schema wit_member = wit_log_schema" "sd_prefix wit_member = MarmotPrefix"
  by (simp_all add: wit_member_def re_ext_def wit_pub_world_def)

lemma wit_cluster_ok: "cluster_ok wit_cluster_env"
  using wit_codec_seq wit_file_healthy wit_healthy
  by (auto simp: cluster_ok_def wit_cluster_env_def jet_logs_def wit_ins_codec_def wit_ec_def codec_ok_def wire_event_def
      wit_ins_event_def fun_eq_iff split: if_splits)

lemma wit_member_ok: "member_ok wit_cluster_env MarmotPrefix wit_log_schema 2 False i wit_member"
  using wit_pub_ready wit_log_db_wf wit_db0_wf wit_replicator_wf
  by (simp add: member_ok_def node_ready_def wit_cluster_env_def wit_db0_pending pub_ok_def wit_member_def re_ext_def wit_pub_world_def
      wit_pub_def db_ready_def cache_ok_def wit_replicator_def wit_nats_env_def Let_def default_config_def)

lemma wit_start: "cluster_start wit_cluster_env MarmotPrefix wit_log_schema 2 False (look wit_log_schema wit_db0) wit_cluster"
  using wit_member_ok by (simp add: cluster_start_def wit_cluster_def wit_db0_pending stream_of_def) (simp add: wit_cluster_env_def)

lemma wit_ins_pending: "pending MarmotPrefix wit_log_schema (app_write MarmotPrefix wit_log_schema wit_ins wit_db0) = [wit_ins_event]"
  by (simp add: app_write_def wit_ins_def capture_def change_trigger_def app_handle_def info_of_def wit_info log_insert_def
      global_insert_def wit_db0_def known_def log_given_def log_cols_def global_cols_def insert_auto_def pending_def queue_def rows_of_def
      change_event_def log_row_def entry_of_def int_cell_def text_cell_def event_of_row_def wit_ins_event_def wit_repl_cols_def full_row_def
      val_col_def list_all_iff wit_log_schema_def)

lemma wit_ins_sendable: "can_send wit_cluster_env 0 wit_ins_event"
  by (simp add: can_send_def sendable_def wit_cluster_env_def wit_ins_codec_def wit_ec_def Marshal_def Wrap_def res_simps prepare_def
      wit_ins_event_def Hash_def wit_cw_def getSortedPKColumns_def Let_def hash_input_def row_get_def wit_repl_cols_def pk_names_def)

lemma wit_row_step: "cluster_step wit_cluster_env wit_cluster wit_cluster1"
proof -
  from cluster_step.writes [of 0 wit_cluster_env wit_member wit_cluster, OF _ _ _ refl] wit_write_ok
  show ?thesis
    using wit_ins_pending wit_ins_sendable by (simp add: wit_cluster1_def wit_cluster_def wit_cluster_env_def)
qed

lemma wit_cluster1_inv: "\<exists>hs. cluster_inv wit_cluster_env MarmotPrefix wit_log_schema 2 False (look wit_log_schema wit_db0) hs wit_cluster1"
  using cluster_step_inv [OF wit_row_step start_inv [OF wit_start] wit_cluster_ok wit_apart] .

section \<open>Properties\<close>





end
