(* ===== verification/Spec2Isabelle.thy ===== *)
theory Spec2Isabelle
  imports Prelude Values ReplicationEvent Event Pool SqlStore History StreamDB Replicate ChangeLog Cdc Publish
    ChangeLogProps Catalog Install InstallProps Watch Config Telemetry RepState MetaStore LeaseRefresh Replicator Listener Storage
    Snapshot SnapshotProps NatsConnect Marmot CatchUp
    Start Writes Sending Cluster ClusterProps
begin

text \<open>
  A verification library for marmot, a distributed replicator for SQLite written in Go.

  \<^bold>\<open>The program.\<close> A node watches an SQLite database. Triggers record every change of a watched table in
  a change-log table and in a global queue (\<open>db/table_change_log_script.tmpl\<close>). A publishing round
  (\<open>publishChangeLog\<close>, \<open>db/change_log.go\<close>), started by a watcher of the database's files, reads the queue, hands
  every change to \<open>OnChange\<close> and marks it as published. \<open>OnChange\<close> is \<open>onTableChanged\<close> (\<open>marmot.go\<close>): it marshals the
  change, hashes its primary key and publishes it to one of several JetStream streams (\<open>Publish\<close>,
  \<open>logstream/replicator.go\<close>). Every node listens to all streams (\<open>Listen\<close>), unmarshals each message
  (\<open>onChangeEvent\<close>) and applies it (\<open>Replicate\<close>, \<open>db/change_log.go\<close>); the sequence number reached is kept in a
  file (\<open>logstream/replication_state.go\<close>). Snapshots are saved to one of four stores (\<open>snapshot/\<close>) under a lease in a
  key-value bucket (\<open>logstream/replicator_meta_store.go\<close>), and restored by nodes that are too far behind.

  \<^bold>\<open>The theories\<close>, in the order they build on each other.
  \<^item> \<open>Prelude\<close>: words, errors, the outcome \<open>'a res\<close> of a Go call (a value, an error, a panic, a call that
    waits for ever), sequencing (\<open>bindR\<close> is \<open>if err != nil { return err }\<close>), the parts of Go's library used.
  \<^item> \<open>Values\<close>: driver values, Go values in a row, \<open>ColumnInfo\<close>, the conversion of \<open>database/sql\<close>.
  \<^item> \<open>ReplicationEvent\<close>, \<open>Event\<close>: the envelope with the locale \<open>replicable_event\<close> (the contract of the
    interface \<open>core.ReplicableEvent\<close>) and the change-log event that meets it; \<open>Wrap\<close>, \<open>Unwrap\<close>, the cached
    sorted key columns, \<open>Hash\<close>.
  \<^item> \<open>Pool\<close>: \<open>pool/connection_pool.go\<close>; the locale \<open>conn_pool\<close> is what its clients rely on.
  \<^item> \<open>SqlStore\<close>: the SQL statements the sources write and their meaning; the view of a table as a map from
    key to row; the locale \<open>keyed_store\<close> of stores with one effect per key.
  \<^item> \<open>History\<close>: histories of changes and the locale \<open>keyed_log\<close> of logs that keep the changes of a key together:
    replicas agree, snapshots and logs may overlap, rows settle.
  \<^item> \<open>StreamDB\<close>: the state of \<open>SqliteStreamDB\<close>, statements that may fail, transactions, borrowing.
  \<^item> \<open>Replicate\<close>: applying a received change, as a refinement of a map update.
  \<^item> \<open>ChangeLog\<close>, \<open>Cdc\<close>, \<open>Publish\<close>, \<open>ChangeLogProps\<close>: the triggers, the publishing round and the clean-up; the
    queue of waiting changes they implement (locale \<open>fifo_queue\<close>); one turn and a whole round.
  \<^item> \<open>Catalog\<close>, \<open>Install\<close>, \<open>InstallProps\<close>: reading the schema, opening the database (\<open>db/sqlite.go\<close>), the scripts that
    create change logs and triggers, removing them (\<open>db/cleanup.go\<close>).
  \<^item> \<open>Watch\<close>: the watcher goroutine \<open>watchChanges\<close> and the timers of \<open>utils/timeout.go\<close>.
  \<^item> \<open>Config\<close>: \<open>cfg/config.go\<close>. \<open>Telemetry\<close>: \<open>telemetry/\<close>, the stop watch and \<open>utils/deep.go\<close>.
  \<^item> \<open>RepState\<close>: the sequence-number file (locale \<open>seq_store\<close>).
  \<^item> \<open>MetaStore\<close>, \<open>LeaseRefresh\<close>: the lease, as one call, as a step relation of many nodes, and the goroutine that
    keeps it alive.
  \<^item> \<open>Replicator\<close>, \<open>Listener\<close>: setting up streams, publishing, when snapshots are saved and restored; listening with
    retries.
  \<^item> \<open>Storage\<close>, \<open>Snapshot\<close>, \<open>SnapshotProps\<close>: the stores (NATS, S3, WebDAV, SFTP) over files and remote objects, and
    saving and restoring a database through them.
  \<^item> \<open>NatsConnect\<close>: options, retries, the embedded server and peer discovery (\<open>stream/\<close>).
  \<^item> \<open>Marmot\<close>, \<open>Start\<close>: the callbacks, the listener goroutine, the main loop, and the whole start of \<open>main\<close> with its
    flags and early returns.
  \<^item> \<open>CatchUp\<close>, \<open>Writes\<close>, \<open>Sending\<close>, \<open>Cluster\<close>, \<open>ClusterProps\<close>: the parts together. A node that restores a snapshot
    and listens; what a write of the application records; a round of publishing down to the streams; a
    cluster whose nodes write, publish, receive and clean up in any order, as a step relation over the code's own functions.

  \<^bold>\<open>What the theorems show.\<close> In a cluster in which every node writes, all nodes hold the same rows whenever
  nothing waits and every message is received, and that state can always be reached; a restored node
  catches up. Captured changes wait in order and none is lost until it is acknowledged; a round hands them over in
  order and keeps what the callback asks to keep, whatever the driver does; the watcher drains the queue. A received
  change is exactly one update of a map; marshalling loses nothing the database needs; changes of one row share
  a shard; listeners turn at-least-once delivery into handling each message once. The pool loses no
  connection; the saved sequence numbers never go back and survive a restart; the lease excludes two holders.
  Installing and removing change capture, saving and restoring snapshots and the start of \<open>main\<close> do what they should,
  and under faults leave alone what is not theirs.

  Some theorems prove what contradicts the documentation or the intent: a change whose publishing fails is dropped; a
  node's own publishing makes its listener skip messages; the wildcards in the prefix pattern drop tables
  of the application; a failing upload to NATS loses the stored snapshot; \<open>Connect\<close> can return no connection and
  no error, or panic; a refreshing goroutine that lost its lease does not end; a clean-up interval of 0 panics.

  \<^bold>\<open>What is outside.\<close> SQLite's driver and file format, JetStream, the key-value bucket, CBOR, zstd, the TOML decoder, DNS,
  the clients of the stores, Prometheus and the file system are parameters: records of functions such as \<open>driver_env\<close>,
  \<open>db_env\<close>, \<open>nats_env\<close>, \<open>kv_ops\<close>, \<open>file_env\<close>, \<open>ev_codec\<close>, \<open>io_env\<close>, \<open>sqlite_fmt\<close>, \<open>store_env\<close>, \<open>stream_env\<close>, \<open>start_env\<close>,
  \<open>prom_env\<close>, with named hypotheses for what the code relies on; faults may occur at any call. The SQL the sources write
  is a language of its own and has its meaning in \<open>SqlStore\<close>: type affinity is left out, a failing statement changes
  nothing, a failing transaction is rolled back. Loops run over lists (rows, shards, attempts, received inputs, the passes of a
  goroutine), so no fuel is needed; a goroutine that waits for further input ends in \<open>Block\<close>. Retries have the
  bounds of the code, or of a parameter where the code waits without one (\<open>nats_get\<close>).

  \<^bold>\<open>Not modelled.\<close> Log output (\<open>stream/nats_logger.go\<close>, the log lines of every function), accessors, the embedding of the
  templates, the registration of the CBOR tag at start, the closing of statements and result sets. The cluster of \<open>Cluster\<close>
  has a server that keeps every message; the bounded streams are the subject of \<open>CatchUp\<close>.
\<close>

end
